(* ===== verification/LZ_Prelude.thy ===== *)
theory LZ_Prelude
  imports Main "HOL-Library.Word" "HOL-Library.Monad_Syntax"
begin

unbundle bit_operations_syntax

text \<open>
  The prelude of the lzmalloc development.

  \<^item> The C integer types as words, and the build constants that \<open>src/CMakeLists.txt\<close> writes
    into \<open>lz_config.h\<close> for the default profile (Linux, x86-64).
  \<^item> The alignment macros of \<open>src/src/internal/common.h\<close>, at their width, with the lemmas that
    read them as arithmetic on natural numbers.
  \<^item> Generic lemmas on words, the option monad and lists of pages that the components share.
\<close>

section \<open>Types and constants\<close>

type_synonym u8 = "8 word"
type_synonym u16 = "16 word"
type_synonym u32 = "32 word"
type_synonym u64 = "64 word"
type_synonym addr = "64 word"

abbreviation (input) NULL :: addr where "NULL \<equiv> 0"

abbreviation (input) LZ_CACHE_LINE_SIZE :: u64 where "LZ_CACHE_LINE_SIZE \<equiv> 64"
abbreviation (input) LZ_PAGE_SIZE :: u64 where "LZ_PAGE_SIZE \<equiv> 4096"
abbreviation (input) LZ_HUGE_PAGE_SIZE :: u64 where "LZ_HUGE_PAGE_SIZE \<equiv> 2097152"
abbreviation (input) LZ_MAX_NUMA_NODES :: nat where "LZ_MAX_NUMA_NODES \<equiv> 16"
abbreviation (input) LZ_MAX_SLAB_OBJ_SIZE :: u64 where "LZ_MAX_SLAB_OBJ_SIZE \<equiv> 32768"
abbreviation (input) LZ_VMM_MAX_CACHED_CHUNKS :: u64 where "LZ_VMM_MAX_CACHED_CHUNKS \<equiv> 32"
abbreviation (input) LZ_CHUNK_SHIFT :: nat where "LZ_CHUNK_SHIFT \<equiv> 21"
abbreviation (input) LZ_BATCH_MAX_SIZE :: u32 where "LZ_BATCH_MAX_SIZE \<equiv> 64"
abbreviation (input) LZ_MAX_TELEMETRY_SLOTS :: u32 where "LZ_MAX_TELEMETRY_SLOTS \<equiv> 4096"

named_theorems frame_simps \<open>fields an operation leaves as they were\<close>
named_theorems width_simps \<open>word operations read as arithmetic on natural numbers\<close>

section \<open>Alignment macros (common.h)\<close>

definition LZ_IS_POWER_OF_TWO :: "u64 \<Rightarrow> bool" where
  "LZ_IS_POWER_OF_TWO x \<longleftrightarrow> x \<noteq> 0 \<and> x AND (x - 1) = 0"

definition LZ_ALIGN_UP :: "u64 \<Rightarrow> u64 \<Rightarrow> u64" where
  "LZ_ALIGN_UP sz align = (sz + (align - 1)) AND NOT (align - 1)"

definition LZ_ALIGN_DOWN :: "u64 \<Rightarrow> u64 \<Rightarrow> u64" where
  "LZ_ALIGN_DOWN sz align = sz AND NOT (align - 1)"

section \<open>Words as natural numbers\<close>

lemma unat_drop_bit [width_simps]: "unat (drop_bit n (x :: 'a::len word)) = unat x div 2 ^ n"
  by (subst unat_drop_bit_eq) (rule drop_bit_eq_div)

lemma unat_and_mask [width_simps]: "unat ((x :: 'a::len word) AND mask n) = unat x mod 2 ^ n"
proof -
  have "unat (x AND mask n) = take_bit n (unat x)"
    by (simp only: unsigned_take_bit_eq flip: take_bit_eq_mask)
  then show ?thesis by (simp only: take_bit_eq_mod)
qed

lemma unat_ucast [width_simps]:
  "unat (ucast (x :: 'a::len word) :: 'b::len word) = unat x mod 2 ^ LENGTH('b)"
  by (simp only: unsigned_ucast_eq take_bit_eq_mod)

lemma and_not_mask_eq_diff: "(x :: 'a::len word) AND NOT (mask n) = x - (x AND mask n)"
proof -
  have "x = (x AND NOT (mask n)) OR (x AND mask n)"
    by (rule bit_word_eqI) (auto simp: bit_simps)
  also have "\<dots> = (x AND NOT (mask n)) + (x AND mask n)"
    by (rule disjunctive_add [symmetric]) (auto simp: bit_simps)
  finally show ?thesis by (simp add: eq_diff_eq)
qed

lemma unat_and_not_mask [width_simps]:
  "unat ((x :: 'a::len word) AND NOT (mask n)) = unat x div 2 ^ n * 2 ^ n"
proof -
  have "x AND mask n \<le> x" by (simp add: word_le_nat_alt unat_and_mask)
  then have "unat (x AND NOT (mask n)) = unat x - unat x mod 2 ^ n"
    by (simp add: and_not_mask_eq_diff unat_sub unat_and_mask)
  then show ?thesis by (simp add: minus_mod_eq_div_mult)
qed

lemma unat_push_bit [width_simps]:
  "unat (x :: 'a::len word) * 2 ^ n < 2 ^ LENGTH('a) \<Longrightarrow> unat (push_bit n x) = unat x * 2 ^ n"
  by (simp add: push_bit_eq_mult unat_word_ariths mod_mult_right_eq)
     (metis mod_less mod_mult_right_eq of_nat_numeral of_nat_power unat_of_nat)

lemma unat_pow2 [width_simps]: "k < LENGTH('a) \<Longrightarrow> unat (2 ^ k :: 'a::len word) = 2 ^ k"
  by (metis of_nat_numeral of_nat_power power_strict_increasing_iff one_less_numeral_iff
      semiring_norm(76) unsigned_of_nat take_bit_nat_eq_self id_apply of_nat_eq_id)

lemma unat_align_up:
  assumes "k < 64" and "unat s + 2 ^ k \<le> 2 ^ 64"
  shows "unat (LZ_ALIGN_UP s (2 ^ k)) = (unat s + 2 ^ k - 1) div 2 ^ k * 2 ^ k"
proof -
  have m: "unat (mask k :: u64) = 2 ^ k - 1"
    using assms(1) by (simp add: mask_eq_exp_minus_1 unat_minus_one unat_pow2)
  have "unat (s + mask k) = unat s + (2 ^ k - 1)"
    using assms(2) by (simp add: unat_word_ariths m)
  then show ?thesis
    by (simp add: LZ_ALIGN_UP_def flip: mask_eq_exp_minus_1) (simp add: unat_and_not_mask)
qed

lemma unat_align_down: "unat (LZ_ALIGN_DOWN s (2 ^ k)) = unat s div 2 ^ k * 2 ^ k"
  by (simp add: LZ_ALIGN_DOWN_def flip: mask_eq_exp_minus_1) (simp add: unat_and_not_mask)

lemma nat_pow2_odd: "0 < (n :: nat) \<Longrightarrow> \<exists>k m. n = 2 ^ k * (2 * m + 1)"
proof (induction n rule: less_induct)
  case (less n)
  show ?case
  proof (cases "even n")
    case True
    then obtain n' where n': "n = 2 * n'" by blast
    with less obtain k m where "n' = 2 ^ k * (2 * m + 1)" by force
    with n' have "n = 2 ^ Suc k * (2 * m + 1)" by simp
    then show ?thesis by blast
  next
    case False
    then obtain m where "n = 2 * m + 1" by (metis oddE)
    then have "n = 2 ^ 0 * (2 * m + 1)" by simp
    then show ?thesis by blast
  qed
qed

lemma nat_and_pred_0_pow2:
  assumes "0 < (n :: nat)" and "n AND (n - 1) = 0"
  shows "\<exists>k. n = 2 ^ k"
proof -
  obtain k m where n: "n = 2 ^ k * (2 * m + 1)" using nat_pow2_odd [OF assms(1)] by blast
  have "n = 2 ^ k + 2 ^ Suc k * m" by (simp add: n algebra_simps)
  then have "n div 2 ^ Suc k = m" by (simp only: div_mult_self2) simp
  moreover have "(n - 1) div 2 ^ Suc k = m"
  proof -
    have "n - 1 = (2 ^ k - 1) + 2 ^ Suc k * m" by (simp add: n algebra_simps)
    moreover have "(2 :: nat) ^ k - 1 < 2 ^ Suc k" by (simp add: less_imp_diff_less)
    ultimately show ?thesis by (simp only: div_mult_self2) simp
  qed
  ultimately have "drop_bit (Suc k) n AND drop_bit (Suc k) (n - 1) = m AND m"
    by (simp only: drop_bit_eq_div)
  then have "drop_bit (Suc k) (n AND (n - 1)) = m" by (simp only: drop_bit_and and.idem)
  with assms(2) have "m = 0" by simp
  with n show ?thesis by auto
qed

lemma is_power_of_two_iff: "LZ_IS_POWER_OF_TWO x \<longleftrightarrow> (\<exists>k < 64. x = 2 ^ k)"
proof
  assume "LZ_IS_POWER_OF_TWO x"
  then have x: "x \<noteq> 0" "x AND (x - 1) = 0" by (auto simp: LZ_IS_POWER_OF_TWO_def)
  then have "unat x AND (unat x - 1) = 0"
    by (metis unsigned_and_eq unat_minus_one unsigned_0)
  moreover have "0 < unat x" using x(1) by (simp add: unat_gt_0)
  ultimately obtain k where k: "unat x = 2 ^ k" using nat_and_pred_0_pow2 by blast
  moreover have "unat x < 2 ^ 64" using unsigned_less [of x] by simp
  ultimately have "k < 64" by (metis power_less_imp_less_exp one_less_numeral_iff semiring_norm(76))
  moreover have "x = 2 ^ k" using k \<open>k < 64\<close> by (simp add: word_unat_eq_iff unat_pow2)
  ultimately show "\<exists>k < 64. x = 2 ^ k" by blast
next
  assume "\<exists>k < 64. x = 2 ^ k"
  then obtain k where k: "k < 64" and x: "x = 2 ^ k" by blast
  have "(2 :: u64) ^ k AND mask k = 0"
    by (rule bit_word_eqI) (auto simp: bit_simps)
  moreover have "(2 :: u64) ^ k \<noteq> 0" using k by simp
  ultimately show "LZ_IS_POWER_OF_TWO x"
    by (simp add: LZ_IS_POWER_OF_TWO_def x mask_eq_exp_minus_1)
qed

lemma unat_add_lem64: "unat (x :: u64) + unat y < 2 ^ 64 \<Longrightarrow> unat (x + y) = unat x + unat y"
  by (simp add: unat_word_ariths)

lemma pow2_minus_1_mask: "(2 :: 'a::len word) ^ k - 1 = mask k"
  by (simp add: mask_eq_exp_minus_1)

section \<open>Bounded search\<close>

lemma ex_from_split:
  assumes "(j :: nat) < k"
  shows "(\<exists>i. j \<le> i \<and> i < k \<and> P i) \<longleftrightarrow> P j \<or> (\<exists>i. Suc j \<le> i \<and> i < k \<and> P i)"
proof -
  have "j \<le> i \<longleftrightarrow> i = j \<or> Suc j \<le> i" for i by auto
  with assms show ?thesis by auto
qed

end
