(* ===== verification/LZ_Machine.thy ===== *)
theory LZ_Machine
  imports LZ_Prelude
begin

text \<open>
  The machine the allocator runs on: the C structures of the headers, the memory they live in, the
  calls into the operating system and the global variables of the \<open>.c\<close> files, gathered in one
  state record.

  Memory is typed the way the code uses it. Payload memory is a map from addresses to bytes;
  the 64-byte chunk headers, the engine metadata that follows them (a slab, a span or the two size
  words of a direct mapping: a tagged union, so that reading one as another is a fault), the
  thread-local heaps, the radix tree leaves and the telemetry slots are maps from the address of
  the structure to its value. Pointers are explicit addresses, so aliasing and linked lists are as
  in the code.

  The operating system is a parameter: \<open>os_env\<close> answers every \<open>mmap\<close> and \<open>getcpu\<close> from the
  history of the calls made so far, and the state records that history. Which addresses are mapped
  is a function of the history. Every access through a pointer first checks that the address is
  mapped; a fault, a spinlock that is never released and a loop that never ends are the value
  \<open>None\<close>, so a theorem that an operation returns \<open>Some\<close> says that it neither faults nor hangs.
\<close>

section \<open>Structures\<close>

record lz_chunk_header =
  ch_next :: addr
  ch_owning_tlh :: addr
  ch_magic :: u64
  ch_canary :: u64
  ch_node_id :: u32
  ch_checksum :: u32
  ch_chunk_type :: u32

abbreviation (input) LZ_CHUNK_TYPE_SLAB :: u32 where "LZ_CHUNK_TYPE_SLAB \<equiv> 0"
abbreviation (input) LZ_CHUNK_TYPE_SPAN :: u32 where "LZ_CHUNK_TYPE_SPAN \<equiv> 1"
abbreviation (input) LZ_CHUNK_TYPE_DIRECT :: u32 where "LZ_CHUNK_TYPE_DIRECT \<equiv> 2"

definition LZ_CHUNK_MAGIC_V2 :: u64 where
  "LZ_CHUNK_MAGIC_V2 = 0x434F4C4C414D5A4C"

record lz_slab =
  sl_next :: addr
  sl_prev :: addr
  sl_memory_base :: addr
  sl_memory_end :: addr
  sl_bump_ptr :: addr
  sl_free_list_head :: addr
  sl_size_class :: u32
  sl_block_size :: u32
  sl_max_objects :: u32
  sl_used_objects :: u32

record lz_span =
  sp_next :: addr
  sp_prev :: addr
  sp_free_bitmap :: "u64 list"
  sp_used_pages :: u32
  sp_alloc_size_pages :: "u16 list"

text \<open>The 64 bytes after the header: untouched (zero), a slab, a span or the sizes of a direct mapping.\<close>

datatype lz_meta = MRaw | MSlab lz_slab | MSpan lz_span | MDirect u64 u64

record lz_batch =
  bt_target_tlh :: addr
  bt_head :: addr
  bt_tail :: addr
  bt_count :: u32

record lz_bin =
  current_slab :: addr
  partial_list :: addr
  full_list :: addr

record lz_tlh =
  tl_bins :: "lz_bin list"
  tl_active_spans :: addr
  tl_remote_free_head :: addr
  tl_outgoing_batch :: lz_batch
  tl_thread_id :: u32
  tl_is_zombie :: u32
  tl_local_bytes_alloc_batch :: u32
  tl_local_bytes_free_batch :: u32
  tl_bytes_allocated :: u64
  tl_next_zombie :: addr
  tl_stat_slot :: addr

record lz_numa_pool =
  free_chunks :: addr
  available_count :: u64

record lz_stat_counters =
  bytes_requested :: u64
  bytes_allocated :: u64
  active_objects :: u64
  events :: u64

text \<open>Structures in fresh memory: \<open>MAP_ANONYMOUS\<close> pages read as zero.\<close>

definition zero_hdr :: lz_chunk_header where
  "zero_hdr = \<lparr>ch_next = 0, ch_owning_tlh = 0, ch_magic = 0, ch_canary = 0, ch_node_id = 0,
    ch_checksum = 0, ch_chunk_type = 0\<rparr>"

definition zero_batch :: lz_batch where
  "zero_batch = \<lparr>bt_target_tlh = 0, bt_head = 0, bt_tail = 0, bt_count = 0\<rparr>"

definition zero_bin :: lz_bin where
  "zero_bin = \<lparr>current_slab = 0, partial_list = 0, full_list = 0\<rparr>"

definition zero_tlh :: lz_tlh where
  "zero_tlh = \<lparr>tl_bins = replicate 88 zero_bin, tl_active_spans = 0, tl_remote_free_head = 0,
    tl_outgoing_batch = zero_batch, tl_thread_id = 0, tl_is_zombie = 0,
    tl_local_bytes_alloc_batch = 0, tl_local_bytes_free_batch = 0, tl_bytes_allocated = 0,
    tl_next_zombie = 0, tl_stat_slot = 0\<rparr>"

definition zero_pool :: lz_numa_pool where
  "zero_pool = \<lparr>free_chunks = 0, available_count = 0\<rparr>"

definition zero_stat :: lz_stat_counters where
  "zero_stat = \<lparr>bytes_requested = 0, bytes_allocated = 0, active_objects = 0, events = 0\<rparr>"

section \<open>The operating system\<close>

datatype madvice = MADV_DONTNEED | MADV_HUGEPAGE

datatype os_event =
    Mmap addr u64
  | MmapFailed u64
  | Munmap addr u64
  | Madvise addr u64 madvice
  | Getcpu
  | Fatal string

text \<open>The byte at \<open>a\<close> lies in the \<open>n\<close> bytes from \<open>p\<close>.\<close>

definition within :: "addr \<Rightarrow> u64 \<Rightarrow> addr \<Rightarrow> bool" where
  "within p n a \<longleftrightarrow> a - p < n"

fun mapped :: "os_event list \<Rightarrow> addr \<Rightarrow> bool" where
  "mapped [] a = False"
| "mapped (Mmap p n # tr) a = (within p n a \<or> mapped tr a)"
| "mapped (Munmap p n # tr) a = (\<not> within p n a \<and> mapped tr a)"
| "mapped (_ # tr) a = mapped tr a"

text \<open>
  The answers of the system: \<open>os_mmap h n\<close> is the address \<open>mmap(NULL, n, ...)\<close> returns after the
  calls \<open>h\<close> (\<open>None\<close> for \<open>MAP_FAILED\<close>), \<open>os_getcpu h\<close> the cpu and node of \<open>getcpu\<close>,
  \<open>os_pagesize\<close> the value of \<open>sysconf(_SC_PAGESIZE)\<close>.
\<close>

record os_env =
  os_mmap :: "os_event list \<Rightarrow> u64 \<Rightarrow> addr option"
  os_getcpu :: "os_event list \<Rightarrow> (u32 \<times> u32) option"
  os_pagesize :: int

text \<open>
  What the code relies on of \<open>mmap\<close>: a mapping of a positive length starts at a page boundary,
  is not at address 0, lies in the lower half of the 48-bit address space and overlaps nothing that
  is mapped.
\<close>

definition mmap_ok :: "os_env \<Rightarrow> bool" where
  "mmap_ok env \<longleftrightarrow> (\<forall>h n p. os_mmap env h n = Some p \<longrightarrow>
     0 < n \<and> p \<noteq> 0 \<and> p AND mask 12 = 0 \<and> unat p + unat n \<le> 2 ^ 47 \<and>
     (\<forall>a. within p n a \<longrightarrow> \<not> mapped h a))"

section \<open>The state\<close>

record lz_state =
  trace :: "os_event list"
  mem :: "addr \<Rightarrow> u8"
  hdrs :: "addr \<Rightarrow> lz_chunk_header"
  metas :: "addr \<Rightarrow> lz_meta"
  tlhs :: "addr \<Rightarrow> lz_tlh"
  leaves :: "addr \<Rightarrow> u64 \<Rightarrow> addr"
  stats :: "addr \<Rightarrow> lz_stat_counters"
  g_lz_global_secret :: u64
  g_rtree_root :: "u64 \<Rightarrow> addr"
  g_numa_node_count :: u32
  g_numa_pools :: "nat \<Rightarrow> lz_numa_pool"
  g_pool_locks :: "nat \<Rightarrow> bool"
  g_global_pool_lock :: bool
  g_global_free_chunks :: addr
  tls_tlh_ptr :: "nat \<Rightarrow> addr"
  g_thread_counter :: u32
  g_zombie_tlhs :: addr
  g_zombie_lock :: bool
  g_telemetry_matrix :: addr
  g_shm_name :: string
  g_tlh_key :: "nat \<Rightarrow> addr"
  g_base_heap :: addr
  g_base_offset :: u64
  g_lz_ready :: bool

text \<open>
  The image of the process before any code ran: zero-initialised globals, nothing mapped. Thread
  local variables are indexed by the thread; \<open>g_tlh_key\<close> is the value each thread has set for the
  key whose destructor runs when the thread exits.
\<close>

definition boot_state :: lz_state where
  "boot_state = \<lparr>trace = [], mem = (\<lambda>_. 0), hdrs = (\<lambda>_. zero_hdr), metas = (\<lambda>_. MRaw),
    tlhs = (\<lambda>_. zero_tlh), leaves = (\<lambda>_ _. 0), stats = (\<lambda>_. zero_stat),
    g_lz_global_secret = 0, g_rtree_root = (\<lambda>_. 0), g_numa_node_count = 1,
    g_numa_pools = (\<lambda>_. zero_pool), g_pool_locks = (\<lambda>_. False), g_global_pool_lock = False,
    g_global_free_chunks = 0, tls_tlh_ptr = (\<lambda>_. 0), g_thread_counter = 0, g_zombie_tlhs = 0,
    g_zombie_lock = False, g_telemetry_matrix = 0, g_shm_name = [], g_tlh_key = (\<lambda>_. 0),
    g_base_heap = 0, g_base_offset = 0, g_lz_ready = False\<rparr>"

section \<open>System calls\<close>

definition fill :: "addr \<Rightarrow> u64 \<Rightarrow> 'v \<Rightarrow> (addr \<Rightarrow> 'v) \<Rightarrow> addr \<Rightarrow> 'v" where
  "fill p n v f = (\<lambda>a. if within p n a then v else f a)"

definition zero_pages :: "addr \<Rightarrow> u64 \<Rightarrow> lz_state \<Rightarrow> lz_state" where
  "zero_pages p n st = st\<lparr>mem := fill p n 0 (mem st), hdrs := fill p n zero_hdr (hdrs st),
     metas := fill p n MRaw (metas st), tlhs := fill p n zero_tlh (tlhs st),
     leaves := fill p n (\<lambda>_. 0) (leaves st), stats := fill p n zero_stat (stats st)\<rparr>"

definition sys_mmap :: "os_env \<Rightarrow> u64 \<Rightarrow> lz_state \<Rightarrow> addr option \<times> lz_state" where
  "sys_mmap env n st =
     (case os_mmap env (trace st) n of
        None \<Rightarrow> (None, st\<lparr>trace := MmapFailed n # trace st\<rparr>)
      | Some p \<Rightarrow> (Some p, (zero_pages p n st)\<lparr>trace := Mmap p n # trace st\<rparr>))"

definition sys_munmap :: "addr \<Rightarrow> u64 \<Rightarrow> lz_state \<Rightarrow> lz_state" where
  "sys_munmap p n st = st\<lparr>trace := Munmap p n # trace st\<rparr>"

definition sys_madvise :: "addr \<Rightarrow> u64 \<Rightarrow> madvice \<Rightarrow> lz_state \<Rightarrow> lz_state" where
  "sys_madvise p n adv st =
     (if adv = MADV_DONTNEED then zero_pages p n st else st)\<lparr>trace := Madvise p n adv # trace st\<rparr>"

definition sys_getcpu :: "os_env \<Rightarrow> lz_state \<Rightarrow> (u32 \<times> u32) option \<times> lz_state" where
  "sys_getcpu env st = (os_getcpu env (trace st), st\<lparr>trace := Getcpu # trace st\<rparr>)"

text \<open>\<open>LZ_FATAL\<close> is a call into the logger, which is not part of the repository: the call is recorded.\<close>

definition LZ_FATAL :: "string \<Rightarrow> lz_state \<Rightarrow> lz_state" where
  "LZ_FATAL msg st = st\<lparr>trace := Fatal msg # trace st\<rparr>"

section \<open>Access through pointers\<close>

definition valid :: "lz_state \<Rightarrow> addr \<Rightarrow> bool" where
  "valid st a = mapped (trace st) a"

definition get_hdr :: "lz_state \<Rightarrow> addr \<Rightarrow> lz_chunk_header option" where
  "get_hdr st a = (if valid st a then Some (hdrs st a) else None)"

definition upd_hdr :: "addr \<Rightarrow> (lz_chunk_header \<Rightarrow> lz_chunk_header) \<Rightarrow> lz_state \<Rightarrow> lz_state option" where
  "upd_hdr a f st = (if valid st a then Some (st\<lparr>hdrs := (hdrs st)(a := f (hdrs st a))\<rparr>) else None)"

definition get_slab :: "lz_state \<Rightarrow> addr \<Rightarrow> lz_slab option" where
  "get_slab st a =
     (if valid st a then (case metas st a of MSlab s \<Rightarrow> Some s | _ \<Rightarrow> None) else None)"

definition set_meta :: "addr \<Rightarrow> lz_meta \<Rightarrow> lz_state \<Rightarrow> lz_state option" where
  "set_meta a m st = (if valid st a then Some (st\<lparr>metas := (metas st)(a := m)\<rparr>) else None)"

definition upd_slab :: "addr \<Rightarrow> (lz_slab \<Rightarrow> lz_slab) \<Rightarrow> lz_state \<Rightarrow> lz_state option" where
  "upd_slab a f st = do { s \<leftarrow> get_slab st a; set_meta a (MSlab (f s)) st }"

definition get_span :: "lz_state \<Rightarrow> addr \<Rightarrow> lz_span option" where
  "get_span st a =
     (if valid st a then (case metas st a of MSpan s \<Rightarrow> Some s | _ \<Rightarrow> None) else None)"

definition upd_span :: "addr \<Rightarrow> (lz_span \<Rightarrow> lz_span) \<Rightarrow> lz_state \<Rightarrow> lz_state option" where
  "upd_span a f st = do { s \<leftarrow> get_span st a; set_meta a (MSpan (f s)) st }"

definition get_direct :: "lz_state \<Rightarrow> addr \<Rightarrow> (u64 \<times> u64) option" where
  "get_direct st a =
     (if valid st a then (case metas st a of MDirect t s \<Rightarrow> Some (t, s) | _ \<Rightarrow> None) else None)"

definition get_tlh :: "lz_state \<Rightarrow> addr \<Rightarrow> lz_tlh option" where
  "get_tlh st a = (if valid st a then Some (tlhs st a) else None)"

definition upd_tlh :: "addr \<Rightarrow> (lz_tlh \<Rightarrow> lz_tlh) \<Rightarrow> lz_state \<Rightarrow> lz_state option" where
  "upd_tlh a f st = (if valid st a then Some (st\<lparr>tlhs := (tlhs st)(a := f (tlhs st a))\<rparr>) else None)"

definition upd_stat :: "addr \<Rightarrow> (lz_stat_counters \<Rightarrow> lz_stat_counters) \<Rightarrow> lz_state \<Rightarrow> lz_state option" where
  "upd_stat a f st = (if valid st a then Some (st\<lparr>stats := (stats st)(a := f (stats st a))\<rparr>) else None)"

text \<open>An eight-byte word of payload memory, little endian.\<close>

fun load_bytes :: "nat \<Rightarrow> (addr \<Rightarrow> u8) \<Rightarrow> addr \<Rightarrow> u64" where
  "load_bytes 0 m a = 0"
| "load_bytes (Suc k) m a = ucast (m a) OR push_bit 8 (load_bytes k m (a + 1))"

definition load64 :: "(addr \<Rightarrow> u8) \<Rightarrow> addr \<Rightarrow> u64" where
  "load64 m a = load_bytes 8 m a"

definition store64 :: "addr \<Rightarrow> u64 \<Rightarrow> (addr \<Rightarrow> u8) \<Rightarrow> addr \<Rightarrow> u8" where
  "store64 a v m = (\<lambda>b. if within a 8 b then ucast (drop_bit (8 * unat (b - a)) v) else m b)"

definition read_ptr :: "lz_state \<Rightarrow> addr \<Rightarrow> addr option" where
  "read_ptr st a = (if valid st a \<and> valid st (a + 7) then Some (load64 (mem st) a) else None)"

definition write_ptr :: "addr \<Rightarrow> addr \<Rightarrow> lz_state \<Rightarrow> lz_state option" where
  "write_ptr a v st =
     (if valid st a \<and> valid st (a + 7) then Some (st\<lparr>mem := store64 a v (mem st)\<rparr>) else None)"

text \<open>\<open>memset(p, 0, n)\<close> and \<open>memcpy\<close> on payload memory; a byte that is not mapped is a fault.\<close>

definition valid_range :: "lz_state \<Rightarrow> addr \<Rightarrow> u64 \<Rightarrow> bool" where
  "valid_range st p n \<longleftrightarrow> (\<forall>i<unat n. valid st (p + of_nat i))"

definition memset_zero :: "addr \<Rightarrow> u64 \<Rightarrow> lz_state \<Rightarrow> lz_state option" where
  "memset_zero p n st =
     (if valid_range st p n then Some (st\<lparr>mem := fill p n 0 (mem st)\<rparr>) else None)"

definition memcpy :: "addr \<Rightarrow> addr \<Rightarrow> u64 \<Rightarrow> lz_state \<Rightarrow> lz_state option" where
  "memcpy dst src n st =
     (if valid_range st dst n \<and> valid_range st src n
      then Some (st\<lparr>mem := (\<lambda>a. if within dst n a then mem st (src + (a - dst)) else mem st a)\<rparr>)
      else None)"

section \<open>Ranges of addresses\<close>

lemma within_iff:
  assumes "unat p + unat n \<le> 2 ^ 64"
  shows "within p n a \<longleftrightarrow> unat p \<le> unat a \<and> unat a < unat p + unat n"
proof (cases "p \<le> a")
  case True
  then show ?thesis
    by (auto simp: within_def word_less_nat_alt word_le_nat_alt unat_sub)
next
  case False
  then have "unat (a - p) = 2 ^ 64 + unat a - unat p"
    by (simp add: unat_sub_if' word_le_nat_alt)
  with False assms show ?thesis
    by (auto simp: within_def word_less_nat_alt word_le_nat_alt)
qed

lemma within_self: "0 < n \<Longrightarrow> within p n p"
  by (simp add: within_def)

lemma within_offset: "within p n a \<longleftrightarrow> (\<exists>i<unat n. a = p + of_nat i)"
proof
  assume "within p n a"
  then have "unat (a - p) < unat n" by (simp add: within_def word_less_nat_alt)
  moreover have "a = p + of_nat (unat (a - p))" by simp
  ultimately show "\<exists>i<unat n. a = p + of_nat i" by blast
next
  assume "\<exists>i<unat n. a = p + of_nat i"
  then obtain i where i: "i < unat n" "a = p + of_nat i" by blast
  have "i < 2 ^ LENGTH(64)" by (rule order.strict_trans [OF i(1) unsigned_less])
  then have "unat (of_nat i :: u64) = i" by (simp add: unsigned_of_nat take_bit_nat_eq_self)
  then show "within p n a" using i by (simp add: within_def word_less_nat_alt)
qed

lemma valid_range_iff: "valid_range st p n \<longleftrightarrow> (\<forall>a. within p n a \<longrightarrow> valid st a)"
  by (auto simp: valid_range_def within_offset)

section \<open>Words in payload memory\<close>

lemma store64_byte:
  "i < 8 \<Longrightarrow> store64 a v m (a + of_nat i) = ucast (drop_bit (8 * i) v)"
  by (simp add: store64_def within_def word_less_nat_alt unsigned_of_nat take_bit_nat_eq_self)

lemma load_bytes_store64:
  "k \<le> 8 \<Longrightarrow> load_bytes k (store64 a v m) (a + of_nat (8 - k)) = drop_bit (8 * (8 - k)) v"
proof (induction k)
  case 0
  then show ?case by (simp add: drop_bit_word_beyond)
next
  case (Suc k)
  then have k: "k < 8" by simp
  define j where "j = 8 - Suc k"
  have j: "8 - k = Suc j" "j < 8" using k by (auto simp: j_def)
  have IH: "load_bytes k (store64 a v m) (a + of_nat j + 1) = drop_bit (8 * Suc j) v"
    using Suc by (simp add: j ac_simps)
  have "ucast (ucast (drop_bit (8 * j) v) :: u8) OR push_bit 8 (drop_bit (8 * Suc j) v) = drop_bit (8 * j) v"
  proof (rule bit_word_eqI)
    fix n assume "n < LENGTH(64)"
    have "8 + 8 * j + (n - 8) = 8 * j + n" if "8 \<le> n" using that by simp
    then show "bit (ucast (ucast (drop_bit (8 * j) v) :: u8) OR push_bit 8 (drop_bit (8 * Suc j) v)) n
        = bit (drop_bit (8 * j) v) n"
      using \<open>n < LENGTH(64)\<close> by (cases "8 \<le> n") (auto simp: bit_simps)
  qed
  then show ?case unfolding j_def [symmetric] load_bytes.simps by (simp only: IH store64_byte [OF j(2)])
qed

lemma load64_store64: "load64 (store64 a v m) a = v"
  using load_bytes_store64 [of 8 a v m] by (simp add: load64_def)

lemma load_bytes_cong:
  "(\<And>i. i < k \<Longrightarrow> m (a + of_nat i) = m' (a + of_nat i)) \<Longrightarrow> load_bytes k m a = load_bytes k m' a"
proof (induction k arbitrary: a)
  case (Suc k)
  have "m (a + 1 + of_nat i) = m' (a + 1 + of_nat i)" if "i < k" for i
    using Suc.prems [of "Suc i"] that by (simp add: ac_simps)
  moreover have "m a = m' a" using Suc.prems [of 0] by simp
  ultimately show ?case using Suc.IH [of "a + 1"] by simp
qed simp

lemma load64_cong: "(\<And>i. i < 8 \<Longrightarrow> m (a + of_nat i) = m' (a + of_nat i)) \<Longrightarrow> load64 m a = load64 m' a"
  unfolding load64_def by (rule load_bytes_cong)

lemma load64_store64_other:
  assumes "\<And>i. i < 8 \<Longrightarrow> \<not> within a 8 (b + of_nat i)"
  shows "load64 (store64 a v m) b = load64 m b"
  by (rule load64_cong) (simp add: store64_def assms)

section \<open>Frames\<close>

text \<open>
  \<open>keeps C st st'\<close>: whatever was mapped in \<open>st\<close> is still mapped in \<open>st'\<close>, and memory at the
  mapped addresses outside \<open>C\<close> is as it was, in every view.
\<close>

definition same_at :: "addr \<Rightarrow> lz_state \<Rightarrow> lz_state \<Rightarrow> bool" where
  "same_at a st st' \<longleftrightarrow> mem st' a = mem st a \<and> hdrs st' a = hdrs st a \<and> metas st' a = metas st a \<and>
     tlhs st' a = tlhs st a \<and> leaves st' a = leaves st a \<and> stats st' a = stats st a"

definition keeps :: "addr set \<Rightarrow> lz_state \<Rightarrow> lz_state \<Rightarrow> bool" where
  "keeps C st st' \<longleftrightarrow> (\<forall>a. valid st a \<longrightarrow> valid st' a \<and> (a \<notin> C \<longrightarrow> same_at a st st'))"

lemma keeps_refl [simp, intro]: "keeps C st st"
  by (simp add: keeps_def same_at_def)

lemma keeps_trans: "keeps C st st' \<Longrightarrow> keeps C st' st'' \<Longrightarrow> keeps C st st''"
  by (simp add: keeps_def same_at_def)

lemma keeps_mono: "keeps C st st' \<Longrightarrow> C \<subseteq> D \<Longrightarrow> keeps D st st'"
  by (auto simp: keeps_def)

lemma keeps_valid: "keeps C st st' \<Longrightarrow> valid st a \<Longrightarrow> valid st' a"
  by (simp add: keeps_def)

lemma keepsD:
  assumes "keeps C st st'" and "valid st a" and "a \<notin> C"
  shows "mem st' a = mem st a" "hdrs st' a = hdrs st a" "metas st' a = metas st a"
    "tlhs st' a = tlhs st a" "leaves st' a = leaves st a" "stats st' a = stats st a"
  using assms by (auto simp: keeps_def same_at_def)

lemma mmap_okD:
  assumes "mmap_ok env" and "os_mmap env h n = Some p"
  shows "0 < n" "p \<noteq> 0" "p AND mask 12 = 0" "unat p + unat n \<le> 2 ^ 47"
    and "within p n a \<Longrightarrow> \<not> mapped h a"
  using assms by (auto simp: mmap_ok_def)

lemma sys_mmap_keeps: "mmap_ok env \<Longrightarrow> sys_mmap env n st = (r, st') \<Longrightarrow> keeps {} st st'"
proof (cases "os_mmap env (trace st) n")
  case (Some p)
  assume "mmap_ok env" and r: "sys_mmap env n st = (r, st')"
  have "\<not> within p n a" if "mapped (trace st) a" for a
    using mmap_okD(5) [OF \<open>mmap_ok env\<close> Some, of a] that by blast
  then show ?thesis using Some r
    by (auto simp: sys_mmap_def keeps_def same_at_def valid_def zero_pages_def fill_def)
qed (auto simp: sys_mmap_def keeps_def same_at_def valid_def)

lemma sys_mmap_Some:
  assumes "mmap_ok env" and "sys_mmap env n st = (Some p, st')"
  shows "p \<noteq> 0" "p AND mask 12 = 0" "unat p + unat n \<le> 2 ^ 47" "0 < n"
    and "within p n a \<Longrightarrow> valid st' a \<and> \<not> valid st a"
    and "within p n a \<Longrightarrow> hdrs st' a = zero_hdr \<and> metas st' a = MRaw \<and> tlhs st' a = zero_tlh \<and>
           leaves st' a = (\<lambda>_. 0) \<and> mem st' a = 0"
    and "trace st' = Mmap p n # trace st"
proof -
  have p: "os_mmap env (trace st) n = Some p"
    and st': "st' = (zero_pages p n st)\<lparr>trace := Mmap p n # trace st\<rparr>"
    using assms(2) by (auto simp: sys_mmap_def split: option.splits)
  show "p \<noteq> 0" "p AND mask 12 = 0" "unat p + unat n \<le> 2 ^ 47" "0 < n"
    using mmap_okD [OF assms(1) p] by auto
  show "within p n a \<Longrightarrow> valid st' a \<and> \<not> valid st a"
    using mmap_okD [OF assms(1) p] by (auto simp: valid_def st')
  show "within p n a \<Longrightarrow> hdrs st' a = zero_hdr \<and> metas st' a = MRaw \<and> tlhs st' a = zero_tlh \<and>
           leaves st' a = (\<lambda>_. 0) \<and> mem st' a = 0"
    and "trace st' = Mmap p n # trace st"
    by (simp_all add: st' zero_pages_def fill_def)
qed

text \<open>The globals of the \<open>.c\<close> files: what the calls into the system leave alone.\<close>

definition same_globals :: "lz_state \<Rightarrow> lz_state \<Rightarrow> bool" where
  "same_globals st st' \<longleftrightarrow>
     g_lz_global_secret st' = g_lz_global_secret st \<and> g_rtree_root st' = g_rtree_root st \<and>
     g_numa_node_count st' = g_numa_node_count st \<and> g_numa_pools st' = g_numa_pools st \<and>
     g_pool_locks st' = g_pool_locks st \<and> g_global_pool_lock st' = g_global_pool_lock st \<and>
     g_global_free_chunks st' = g_global_free_chunks st \<and> tls_tlh_ptr st' = tls_tlh_ptr st \<and>
     g_thread_counter st' = g_thread_counter st \<and> g_zombie_tlhs st' = g_zombie_tlhs st \<and>
     g_zombie_lock st' = g_zombie_lock st \<and> g_telemetry_matrix st' = g_telemetry_matrix st \<and>
     g_shm_name st' = g_shm_name st \<and> g_tlh_key st' = g_tlh_key st \<and> g_base_heap st' = g_base_heap st \<and>
     g_base_offset st' = g_base_offset st \<and> g_lz_ready st' = g_lz_ready st"

lemma sys_mmap_globals: "sys_mmap env n st = (r, st') \<Longrightarrow> same_globals st st'"
  by (auto simp: sys_mmap_def zero_pages_def same_globals_def split: option.splits)

lemma sys_munmap_globals: "same_globals st (sys_munmap p n st)"
  by (simp add: sys_munmap_def same_globals_def)

lemma sys_madvise_globals: "same_globals st (sys_madvise p n adv st)"
  by (simp add: sys_madvise_def same_globals_def zero_pages_def)

lemma same_globals_trans: "same_globals st st' \<Longrightarrow> same_globals st' st'' \<Longrightarrow> same_globals st st''"
  by (simp add: same_globals_def)

section \<open>A concrete system\<close>

text \<open>
  A system that satisfies \<open>mmap_ok\<close>: every mapping goes above everything mapped so far. It is the
  instance the examples run on; the theorems hold for every system with \<open>mmap_ok\<close>.
\<close>

fun high_water :: "os_event list \<Rightarrow> nat" where
  "high_water [] = 4294967296"
| "high_water (Mmap p n # h) = max (high_water h) ((unat p + unat n + 4095) div 4096 * 4096)"
| "high_water (_ # h) = high_water h"

definition bump_os :: os_env where
  "bump_os = \<lparr>os_mmap = (\<lambda>h n. if n \<noteq> 0 \<and> high_water h + unat n \<le> 2 ^ 47
                             then Some (of_nat (high_water h)) else None),
     os_getcpu = (\<lambda>_. Some (0, 0)), os_pagesize = 4096\<rparr>"

lemma within_upper: "within p n a \<Longrightarrow> unat a < unat p + unat n"
proof -
  assume "within p n a"
  then have "unat (a - p) < unat n" by (simp add: within_def word_less_nat_alt)
  moreover have "unat (p + (a - p)) \<le> unat p + unat (a - p)" by (simp only: unat_word_ariths mod_less_eq_dividend)
  ultimately show ?thesis by simp
qed

lemma mapped_high_water: "mapped h a \<Longrightarrow> unat a < high_water h"
proof (induction h rule: high_water.induct)
  case (2 p n h)
  have "unat p + unat n \<le> (unat p + unat n + 4095) div 4096 * 4096" by linarith
  with 2 within_upper [of p n a] show ?case by fastforce
qed auto

lemma high_water_page: "4096 dvd high_water h" and high_water_pos: "0 < high_water h"
  by (induction h rule: high_water.induct) (auto simp: max_def)

lemma bump_os_ok: "mmap_ok bump_os"
  unfolding mmap_ok_def
proof (intro allI impI)
  fix h n p assume "os_mmap bump_os h n = Some p"
  then have n: "n \<noteq> 0" "high_water h + unat n \<le> 2 ^ 47" and p: "p = of_nat (high_water h)"
    by (auto simp: bump_os_def split: if_splits)
  have up: "unat p = high_water h"
    using n(2) by (simp add: p unsigned_of_nat take_bit_nat_eq_self)
  have "unat (p AND mask 12) = 0" using high_water_page [of h] by (simp add: unat_and_mask up)
  then have "p AND mask 12 = 0" by (simp only: unat_eq_0)
  moreover have "p \<noteq> 0" using up high_water_pos [of h] by force
  moreover have "\<not> mapped h a" if "within p n a" for a
  proof -
    have "unat p \<le> unat a" using that within_iff [of p n a] n(2) up by simp
    then show ?thesis using mapped_high_water [of h a] up by linarith
  qed
  ultimately show "0 < n \<and> p \<noteq> 0 \<and> p AND mask 12 = 0 \<and> unat p + unat n \<le> 2 ^ 47 \<and>
      (\<forall>a. within p n a \<longrightarrow> \<not> mapped h a)"
    using n up by (simp add: word_gt_0)
qed

end
