(* ===== verification/Bitmap.thy ===== *)
theory Bitmap
  imports LZ_Machine
begin

text \<open>
  The page bitmap of a span: \<open>find_contiguous_pages\<close> of \<open>src/src/engines/span.c\<close> and the loops
  that set and clear bits. The search is shown to be first fit on the 512 pages of a chunk.
\<close>

abbreviation (input) LZ_SPAN_TOTAL_PAGES :: nat where "LZ_SPAN_TOTAL_PAGES \<equiv> 512"
abbreviation (input) LZ_SPAN_BITMAP_WORDS :: nat where "LZ_SPAN_BITMAP_WORDS \<equiv> 8"

section \<open>Model\<close>

text \<open>
  The loop over the bits of a word. Its state is \<open>consecutive\<close> and \<open>start_idx\<close>; the result is
  \<open>Inr start_idx\<close> when the loop returns from the function and \<open>Inl\<close> the state when it runs to its end.
\<close>

fun scan_bits :: "nat \<Rightarrow> u64 \<Rightarrow> nat \<Rightarrow> nat list \<Rightarrow> nat \<Rightarrow> int \<Rightarrow> (nat \<times> int) + int" where
  "scan_bits required_pages word i [] consecutive start_idx = Inl (consecutive, start_idx)"
| "scan_bits required_pages word i (b # bits) consecutive start_idx =
     (if word AND push_bit b 1 \<noteq> 0 then
        let start_idx = (if consecutive = 0 then int (i * 64 + b) else start_idx);
            consecutive = consecutive + 1
        in if consecutive = required_pages then Inr start_idx
           else scan_bits required_pages word i bits consecutive start_idx
      else scan_bits required_pages word i bits 0 start_idx)"

fun scan_words :: "nat \<Rightarrow> u64 list \<Rightarrow> nat list \<Rightarrow> nat \<Rightarrow> int \<Rightarrow> int" where
  "scan_words required_pages bitmap [] consecutive start_idx = -1"
| "scan_words required_pages bitmap (i # is) consecutive start_idx =
     (let word = bitmap ! i in
      if word = 0 then scan_words required_pages bitmap is 0 start_idx
      else case scan_bits required_pages word i [0..<64] consecutive start_idx of
             Inr r \<Rightarrow> r
           | Inl (consecutive, start_idx) \<Rightarrow> scan_words required_pages bitmap is consecutive start_idx)"

fun clear_pages :: "nat list \<Rightarrow> u64 list \<Rightarrow> u64 list" where
  "clear_pages [] bitmap = bitmap"
| "clear_pages (j # js) bitmap =
     clear_pages js (bitmap[j div 64 := bitmap ! (j div 64) AND NOT (push_bit (j mod 64) 1)])"

fun set_pages :: "nat list \<Rightarrow> u64 list \<Rightarrow> u64 list" where
  "set_pages [] bitmap = bitmap"
| "set_pages (j # js) bitmap =
     set_pages js (bitmap[j div 64 := bitmap ! (j div 64) OR push_bit (j mod 64) 1])"

definition find_contiguous_pages :: "lz_span \<Rightarrow> u32 \<Rightarrow> int \<times> lz_span" where
  "find_contiguous_pages span required_pages =
     (let start_idx = scan_words (unat required_pages) (sp_free_bitmap span) [0..<LZ_SPAN_BITMAP_WORDS] 0 (-1) in
      if start_idx = -1 then (-1, span)
      else (start_idx, span\<lparr>sp_free_bitmap :=
              clear_pages [nat start_idx..<nat start_idx + unat required_pages] (sp_free_bitmap span)\<rparr>))"

section \<open>Pages\<close>

definition page_free :: "u64 list \<Rightarrow> nat \<Rightarrow> bool" where
  "page_free bitmap j = bit (bitmap ! (j div 64)) (j mod 64)"

lemma and_push_bit_1: "b < 64 \<Longrightarrow> (w :: u64) AND push_bit b 1 \<noteq> 0 \<longleftrightarrow> bit w b"
proof -
  assume b: "b < 64"
  have "bit (w AND push_bit b 1) n \<longleftrightarrow> n = b \<and> bit w b" for n
    using b by (auto simp: bit_simps)
  then show ?thesis by (metis bit_0_eq bot_apply bot_bool_def bit_eqI bit.conj_zero_right)
qed

lemma page_free_update:
  assumes "length bitmap = 8" "j < 512" "k < 512"
  shows "page_free (bitmap[j div 64 := bitmap ! (j div 64) AND NOT (push_bit (j mod 64) 1)]) k
      \<longleftrightarrow> k \<noteq> j \<and> page_free bitmap k"
    and "page_free (bitmap[j div 64 := bitmap ! (j div 64) OR push_bit (j mod 64) 1]) k
      \<longleftrightarrow> k = j \<or> page_free bitmap k"
proof -
  have "k = j \<longleftrightarrow> k div 64 = j div 64 \<and> k mod 64 = j mod 64" by (metis div_mult_mod_eq)
  then show "page_free (bitmap[j div 64 := bitmap ! (j div 64) AND NOT (push_bit (j mod 64) 1)]) k
      \<longleftrightarrow> k \<noteq> j \<and> page_free bitmap k"
    and "page_free (bitmap[j div 64 := bitmap ! (j div 64) OR push_bit (j mod 64) 1]) k
      \<longleftrightarrow> k = j \<or> page_free bitmap k"
    using assms by (cases "k div 64 = j div 64"; auto simp: page_free_def bit_simps)+
qed

lemmas page_free_bit = page_free_update [simplified] and_push_bit_1 [simplified]

lemma length_clear_pages [simp]: "length (clear_pages js bitmap) = length bitmap"
  by (induction js arbitrary: bitmap) auto

lemma length_set_pages [simp]: "length (set_pages js bitmap) = length bitmap"
  by (induction js arbitrary: bitmap) auto

lemma page_free_clear_pages:
  "length bitmap = 8 \<Longrightarrow> \<forall>j\<in>set js. j < 512 \<Longrightarrow> k < 512 \<Longrightarrow>
     page_free (clear_pages js bitmap) k \<longleftrightarrow> k \<notin> set js \<and> page_free bitmap k"
  by (induction js arbitrary: bitmap) (auto simp: page_free_bit)

lemma page_free_set_pages:
  "length bitmap = 8 \<Longrightarrow> \<forall>j\<in>set js. j < 512 \<Longrightarrow> k < 512 \<Longrightarrow>
     page_free (set_pages js bitmap) k \<longleftrightarrow> k \<in> set js \<or> page_free bitmap k"
  by (induction js arbitrary: bitmap) (auto simp: page_free_bit)

text \<open>A bitmap is determined by its pages.\<close>

lemma bitmap_eqI:
  assumes "length bm = 8" "length bm' = 8" "\<And>k. k < 512 \<Longrightarrow> page_free bm k = page_free bm' k"
  shows "bm = bm'"
proof (rule nth_equalityI)
  fix i assume "i < length bm"
  then have i: "i < 8" using assms by simp
  show "bm ! i = bm' ! i"
  proof (rule bit_word_eqI)
    fix n assume "n < LENGTH(64)"
    then show "bit (bm ! i) n = bit (bm' ! i) n"
      using assms(3) [of "i * 64 + n"] i by (simp add: page_free_def)
  qed
qed (use assms in simp)

section \<open>First fit\<close>

text \<open>The reference: the least page from which \<open>n\<close> pages are free.\<close>

definition run_free :: "(nat \<Rightarrow> bool) \<Rightarrow> nat \<Rightarrow> nat \<Rightarrow> bool" where
  "run_free f s n \<longleftrightarrow> (\<forall>j<n. f (s + j))"

definition first_fit :: "(nat \<Rightarrow> bool) \<Rightarrow> nat \<Rightarrow> nat \<Rightarrow> nat option" where
  "first_fit f t n = find (\<lambda>s. run_free f s n) [0..<Suc t - n]"

lemma first_fit_Some:
  "first_fit f t n = Some s \<longleftrightarrow> s + n \<le> t \<and> run_free f s n \<and> (\<forall>r < s. \<not> run_free f r n)"
proof -
  have "find P [0..<m] = Some s \<longleftrightarrow> s < m \<and> P s \<and> (\<forall>r < s. \<not> P r)" for P m
    by (auto simp: find_Some_iff)
  then show ?thesis unfolding first_fit_def by auto
qed

lemma first_fit_None: "first_fit f t n = None \<longleftrightarrow> (\<forall>s. s + n \<le> t \<longrightarrow> \<not> run_free f s n)"
  by (auto simp: first_fit_def find_None_iff)

text \<open>The two nested loops as one pass over the pages.\<close>

fun scan_pages :: "(nat \<Rightarrow> bool) \<Rightarrow> nat \<Rightarrow> nat list \<Rightarrow> nat \<Rightarrow> int \<Rightarrow> (nat \<times> int) + int" where
  "scan_pages f n [] c s = Inl (c, s)"
| "scan_pages f n (p # ps) c s =
     (if f p then
        let s = (if c = 0 then int p else s); c = c + 1
        in if c = n then Inr s else scan_pages f n ps c s
      else scan_pages f n ps 0 s)"

lemma scan_pages_append:
  "scan_pages f n (ps @ qs) c s =
     (case scan_pages f n ps c s of Inr r \<Rightarrow> Inr r | Inl (c, s) \<Rightarrow> scan_pages f n qs c s)"
  by (induction ps arbitrary: c s) (auto simp: Let_def)

lemma scan_pages_none: "\<forall>p\<in>set ps. \<not> f p \<Longrightarrow> ps \<noteq> [] \<Longrightarrow> scan_pages f n ps c s = Inl (0, s)"
proof (induction ps arbitrary: c)
  case (Cons p ps)
  then show ?case by (cases ps) auto
qed simp

lemma scan_bits_pages:
  "\<forall>b\<in>set bits. b < 64 \<Longrightarrow>
     scan_bits n (bm ! i) i bits c s = scan_pages (page_free bm) n (map (\<lambda>b. i * 64 + b) bits) c s"
  by (induction bits arbitrary: c s) (auto simp: Let_def page_free_bit page_free_def)

definition word_pages :: "nat \<Rightarrow> nat list" where
  "word_pages i = map (\<lambda>b. i * 64 + b) [0..<64]"

lemma word_pages_upt: "concat (map word_pages [0..<k]) = [0..<k * 64]"
proof (induction k)
  case (Suc k)
  have "word_pages k = [k * 64..<k * 64 + 64]"
    unfolding word_pages_def by (rule nth_equalityI) auto
  then show ?case using Suc upt_add_eq_append [of 0 "k * 64" 64] by (simp add: add.commute)
qed simp

lemma scan_words_pages:
  "scan_words n bm is c s =
     (case scan_pages (page_free bm) n (concat (map word_pages is)) c s of Inr r \<Rightarrow> r | Inl _ \<Rightarrow> -1)"
proof (induction "is" arbitrary: c s)
  case (Cons i "is")
  show ?case
  proof (cases "bm ! i = 0")
    case True
    have "p div 64 = i" if "p \<in> set (word_pages i)" for p using that by (auto simp: word_pages_def)
    then have "scan_pages (page_free bm) n (word_pages i) c s = Inl (0, s)"
      using True by (intro scan_pages_none) (auto simp: page_free_def, simp add: word_pages_def)
    then show ?thesis using True Cons.IH by (simp add: scan_pages_append)
  next
    case False
    have "scan_bits n (bm ! i) i [0..<64] c s = scan_pages (page_free bm) n (word_pages i) c s"
      unfolding word_pages_def by (rule scan_bits_pages) simp
    then show ?thesis using False Cons.IH
      by (simp add: scan_pages_append split: sum.splits)
  qed
qed simp

lemma scan_pages_first_fit:
  assumes "0 < n" "c < n" "c \<le> p" "p \<le> t" "run_free f (p - c) c" "c < p \<Longrightarrow> \<not> f (p - c - 1)"
    and "0 < c \<Longrightarrow> s = int (p - c)" and "\<And>r. r + n \<le> p \<Longrightarrow> \<not> run_free f r n"
  shows "case scan_pages f n [p..<t] c s of Inr r \<Rightarrow> 0 \<le> r \<and> first_fit f t n = Some (nat r)
    | Inl _ \<Rightarrow> first_fit f t n = None"
  using assms
proof (induction "t - p" arbitrary: p c s)
  case 0
  then show ?case by (simp add: first_fit_None)
next
  case (Suc d)
  then have p: "p < t" "[p..<t] = p # [Suc p..<t]" by (auto simp: upt_conv_Cons)
  show ?case
  proof (cases "f p")
    case False
    have "\<not> run_free f r n" if "r + n \<le> Suc p" for r
    proof (cases "r + n \<le> p")
      case False
      then have "p = r + (n - 1)" "n - 1 < n" using that Suc.prems(1) by auto
      then show ?thesis using \<open>\<not> f p\<close> by (metis run_free_def)
    qed (use Suc.prems in blast)
    then have "case scan_pages f n [Suc p..<t] 0 s of Inr r \<Rightarrow> 0 \<le> r \<and> first_fit f t n = Some (nat r)
        | Inl _ \<Rightarrow> first_fit f t n = None"
      using Suc.hyps(2) p(1) False Suc.prems(1) by (intro Suc.hyps(1)) (auto simp: run_free_def)
    then show ?thesis using p(2) False by simp
  next
    case True
    define s' where "s' = int (p - c)"
    have s': "(if c = 0 then int p else s) = s'" using Suc.prems(7) by (auto simp: s'_def)
    have run: "run_free f (p - c) (Suc c)"
      using Suc.prems(3,5) True by (auto simp: run_free_def less_Suc_eq)
    show ?thesis
    proof (cases "Suc c = n")
      case found: True
      have "first_fit f t n = Some (p - c)"
        using run found p(1) Suc.prems(3,8) by (auto simp: first_fit_Some)
      then show ?thesis using p(2) True found s' by (simp add: s'_def)
    next
      case False
      have "\<not> run_free f r n" if "r + n \<le> Suc p" for r
      proof (cases "r + n \<le> p")
        case outside: False
        have "c < p" "p - c - 1 = r + (p - c - 1 - r)" "p - c - 1 - r < n"
          using that outside False Suc.prems(2) by auto
        then show ?thesis using Suc.prems(6) by (metis run_free_def)
      qed (use Suc.prems in blast)
      then have "case scan_pages f n [Suc p..<t] (Suc c) s' of Inr r \<Rightarrow> 0 \<le> r \<and> first_fit f t n = Some (nat r)
        | Inl _ \<Rightarrow> first_fit f t n = None"
        using Suc.hyps(2) p(1) False Suc.prems run
        by (intro Suc.hyps(1)) (auto simp: s'_def)
      then show ?thesis using p(2) True False s' by simp
    qed
  qed
qed

lemma scan_words_first_fit:
  assumes "0 < n"
  shows "scan_words n bm [0..<8] 0 (-1) = (case first_fit (page_free bm) 512 n of Some s \<Rightarrow> int s | None \<Rightarrow> -1)"
proof -
  have "case scan_pages (page_free bm) n [0..<512] 0 (-1) of Inr r \<Rightarrow> 0 \<le> r \<and> first_fit (page_free bm) 512 n = Some (nat r)
    | Inl _ \<Rightarrow> first_fit (page_free bm) 512 n = None"
    by (rule scan_pages_first_fit) (use assms in \<open>auto simp: run_free_def\<close>)
  then show ?thesis
    using word_pages_upt [of 8] by (auto simp: scan_words_pages split: sum.splits)
qed

text \<open>No request: \<open>consecutive\<close> is never 0 when it is compared.\<close>

lemma scan_words_zero: "scan_words 0 bm is c s = -1"
proof -
  have "\<exists>x. scan_pages f 0 ps c s = Inl x" for f ps c s
    by (induction ps arbitrary: c s) (auto simp: Let_def)
  then show ?thesis by (metis scan_words_pages sum.case(1))
qed

lemma find_contiguous_pages_first_fit:
  assumes "length (sp_free_bitmap sp) = 8" "0 < unat req"
  shows "find_contiguous_pages sp req =
    (case first_fit (page_free (sp_free_bitmap sp)) 512 (unat req) of
       None \<Rightarrow> (-1, sp)
     | Some s \<Rightarrow> (int s, sp\<lparr>sp_free_bitmap := clear_pages [s..<s + unat req] (sp_free_bitmap sp)\<rparr>))"
  using assms by (auto simp: find_contiguous_pages_def scan_words_first_fit split: option.splits)

section \<open>Allocations in a span\<close>

text \<open>
  The allocations of a span are the entries of \<open>alloc_size_pages\<close> that are not 0: \<open>(s, n)\<close> is the
  block of \<open>n\<close> pages from page \<open>s\<close>.
\<close>

definition pages_of :: "lz_span \<Rightarrow> nat \<Rightarrow> nat" where
  "pages_of sp s = (if s < 512 then unat (sp_alloc_size_pages sp ! s) else 0)"

text \<open>
  Page 0 holds the metadata. The blocks are inside the chunk and do not overlap; a page is marked
  used exactly when it is page 0 or in a block; \<open>used_pages\<close> counts them.
\<close>

definition page_owned :: "lz_span \<Rightarrow> nat \<Rightarrow> bool" where
  "page_owned sp j \<longleftrightarrow> (\<exists>s<512. s \<le> j \<and> j < s + pages_of sp s)"

definition pages_sum :: "lz_span \<Rightarrow> nat" where
  "pages_sum sp = (\<Sum>s<512. pages_of sp s)"

definition span_inv :: "lz_span \<Rightarrow> bool" where
  "span_inv sp \<longleftrightarrow> length (sp_free_bitmap sp) = 8 \<and> length (sp_alloc_size_pages sp) = 512 \<and>
     pages_of sp 0 = 0 \<and>
     (\<forall>s<512. s + pages_of sp s \<le> 512) \<and>
     (\<forall>s<512. \<forall>t<512. s < t \<longrightarrow> 0 < pages_of sp t \<longrightarrow> s + pages_of sp s \<le> t) \<and>
     (\<forall>j<512. page_free (sp_free_bitmap sp) j \<longleftrightarrow>
        j \<noteq> 0 \<and> \<not> page_owned sp j) \<and>
     unat (sp_used_pages sp) = 1 + pages_sum sp"

text \<open>The pages a span hands out and takes back.\<close>

definition span_take :: "u32 \<Rightarrow> nat \<Rightarrow> lz_span \<Rightarrow> lz_span" where
  "span_take n s sp = sp\<lparr>sp_free_bitmap := clear_pages [s..<s + unat n] (sp_free_bitmap sp),
     sp_used_pages := sp_used_pages sp + n,
     sp_alloc_size_pages := (sp_alloc_size_pages sp)[s := ucast n]\<rparr>"

definition span_give :: "nat \<Rightarrow> lz_span \<Rightarrow> lz_span" where
  "span_give s sp = sp\<lparr>sp_free_bitmap := set_pages [s..<s + pages_of sp s] (sp_free_bitmap sp),
     sp_alloc_size_pages := (sp_alloc_size_pages sp)[s := 0],
     sp_used_pages := sp_used_pages sp - of_nat (pages_of sp s)\<rparr>"

lemma span_invD:
  assumes "span_inv sp"
  shows "length (sp_free_bitmap sp) = 8" "length (sp_alloc_size_pages sp) = 512" "pages_of sp 0 = 0"
    and "s < 512 \<Longrightarrow> s + pages_of sp s \<le> 512"
    and "s < 512 \<Longrightarrow> t < 512 \<Longrightarrow> s < t \<Longrightarrow> 0 < pages_of sp t \<Longrightarrow> s + pages_of sp s \<le> t"
    and "j < 512 \<Longrightarrow> page_free (sp_free_bitmap sp) j \<longleftrightarrow>
        j \<noteq> 0 \<and> \<not> page_owned sp j"
    and "unat (sp_used_pages sp) = 1 + pages_sum sp"
  using assms unfolding span_inv_def by blast+

lemma pages_of_take:
  assumes "span_inv sp" "s < 512" "unat n < 512"
  shows "pages_of (span_take n s sp) t = (if t = s then unat n else pages_of sp t)"
  using assms span_invD(2) [OF assms(1)]
  by (auto simp: pages_of_def span_take_def nth_list_update unsigned_ucast_eq take_bit_nat_eq_self)

lemma pages_of_give:
  assumes "span_inv sp" "s < 512"
  shows "pages_of (span_give s sp) t = (if t = s then 0 else pages_of sp t)"
  using assms span_invD(2) [OF assms(1)]
  by (auto simp: pages_of_def span_give_def nth_list_update)

lemma free_run_unowned:
  assumes inv: "span_inv sp" and run: "run_free (page_free (sp_free_bitmap sp)) s n" "s + n \<le> 512" "0 < n"
  shows "pages_of sp s = 0" "s \<noteq> 0" "t < 512 \<Longrightarrow> t < s \<Longrightarrow> t + pages_of sp t \<le> s"
    "t < 512 \<Longrightarrow> s < t \<Longrightarrow> 0 < pages_of sp t \<Longrightarrow> s + n \<le> t"
proof -
  have free: "page_free (sp_free_bitmap sp) j" if "s \<le> j" "j < s + n" for j
  proof -
    have "j = s + (j - s)" "j - s < n" using that by auto
    then show ?thesis using run(1) unfolding run_free_def by metis
  qed
  have out: "j \<noteq> 0 \<and> \<not> (t \<le> j \<and> j < t + pages_of sp t)" if "s \<le> j" "j < s + n" "t < 512" for j t
    using free [OF that(1,2)] span_invD(6) [OF inv, of j] that run(2) by (auto simp: page_owned_def)
  show "s \<noteq> 0" "pages_of sp s = 0" using out [of s s] run by auto
  show "t < 512 \<Longrightarrow> t < s \<Longrightarrow> t + pages_of sp t \<le> s" using out [of s t] run by auto
  show "s + n \<le> t" if "t < 512" "s < t" "0 < pages_of sp t" using out [of t t] that by force
qed

lemma pages_sum_update:
  assumes s: "s < 512" and "\<And>t. t \<noteq> s \<Longrightarrow> pages_of sp' t = pages_of sp t"
  shows "pages_sum sp' + pages_of sp s = pages_sum sp + pages_of sp' s" "pages_of sp s \<le> pages_sum sp"
proof -
  have split: "pages_sum sp = pages_of sp s + (\<Sum>t\<in>{..<512} - {s}. pages_of sp t)" for sp
    unfolding pages_sum_def by (rule sum.remove) (use s in auto)
  have "(\<Sum>t\<in>{..<512} - {s}. pages_of sp' t) = (\<Sum>t\<in>{..<512} - {s}. pages_of sp t)"
    by (rule sum.cong) (auto simp: assms(2))
  then show "pages_sum sp' + pages_of sp s = pages_sum sp + pages_of sp' s"
    unfolding split [of sp] split [of sp'] by (simp only: add_ac)
  show "pages_of sp s \<le> pages_sum sp" unfolding split [of sp] by (rule le_add1)
qed

lemma blocks_disjoint:
  assumes "span_inv sp" "s < 512" "t < 512" "s \<noteq> t"
  shows "{s..<s + pages_of sp s} \<inter> {t..<t + pages_of sp t} = {}"
  using span_invD(5) [OF assms(1), of s t] span_invD(5) [OF assms(1), of t s] assms by fastforce

lemma used_pages_card:
  assumes inv: "span_inv sp"
  shows "card {j. j < 512 \<and> \<not> page_free (sp_free_bitmap sp) j} = unat (sp_used_pages sp)"
proof -
  let ?B = "\<Union>s<512. {s..<s + pages_of sp s}"
  have B: "j \<in> ?B \<longleftrightarrow> page_owned sp j" for j by (auto simp: page_owned_def)
  have "j < 512" if "page_owned sp j" for j
    using that span_invD(4) [OF inv] unfolding page_owned_def by (meson order.strict_trans2)
  then have "{j. j < 512 \<and> \<not> page_free (sp_free_bitmap sp) j} = insert 0 ?B"
    using span_invD(6) [OF inv] by (intro set_eqI) (simp only: insert_iff mem_Collect_eq B, auto)
  moreover have "\<not> page_owned sp 0" using span_invD(3) [OF inv] by (auto simp: page_owned_def)
  then have "0 \<notin> ?B" unfolding B .
  moreover have "card ?B = pages_sum sp"
    unfolding pages_sum_def using blocks_disjoint [OF inv] by (subst card_UN_disjoint) auto
  moreover have "finite ?B" by (rule finite_UN_I) auto
  ultimately show ?thesis using span_invD(7) [OF inv] by (metis card_insert_disjoint plus_1_eq_Suc)
qed

lemma free_run_used:
  assumes inv: "span_inv sp" and run: "run_free (page_free (sp_free_bitmap sp)) s n" "s + n \<le> 512"
  shows "unat (sp_used_pages sp) + n \<le> 512"
proof -
  let ?U = "{j. j < 512 \<and> \<not> page_free (sp_free_bitmap sp) j}"
  have free: "page_free (sp_free_bitmap sp) j" if "j \<in> {s..<s + n}" for j
  proof -
    have "j = s + (j - s)" "j - s < n" using that by auto
    then show ?thesis using run(1) unfolding run_free_def by metis
  qed
  have "card (?U \<union> {s..<s + n}) = card ?U + n"
    by (subst card_Un_disjoint) (use free in auto)
  moreover have "card (?U \<union> {s..<s + n}) \<le> card {..<512 :: nat}"
    by (rule card_mono) (use run in auto)
  ultimately show ?thesis using used_pages_card [OF inv] by simp
qed

lemma span_take_inv:
  assumes inv: "span_inv sp" and run: "run_free (page_free (sp_free_bitmap sp)) s (unat n)"
    and s: "s + unat n \<le> 512" and n: "0 < unat n"
  shows "span_inv (span_take n s sp)"
proof -
  note out = free_run_unowned [OF inv run s n]
  have n512: "unat n < 512" "s < 512" using out(2) s n by auto
  note p = pages_of_take [OF inv n512(2,1)]
  have len: "length (sp_free_bitmap (span_take n s sp)) = 8" "length (sp_alloc_size_pages (span_take n s sp)) = 512"
    using span_invD(1,2) [OF inv] by (auto simp: span_take_def)
  have owned: "page_owned (span_take n s sp) j \<longleftrightarrow> s \<le> j \<and> j < s + unat n \<or> page_owned sp j" for j
  proof
    assume "page_owned (span_take n s sp) j"
    then obtain t where "t < 512" "t \<le> j" "j < t + (if t = s then unat n else pages_of sp t)"
      unfolding page_owned_def p by blast
    then show "s \<le> j \<and> j < s + unat n \<or> page_owned sp j"
      by (cases "t = s") (auto simp: page_owned_def)
  next
    assume "s \<le> j \<and> j < s + unat n \<or> page_owned sp j"
    then show "page_owned (span_take n s sp) j"
    proof
      assume "s \<le> j \<and> j < s + unat n"
      then show ?thesis unfolding page_owned_def p using n512(2) by (intro exI [of _ s]) simp
    next
      assume "page_owned sp j"
      then obtain t where t: "t < 512" "t \<le> j" "j < t + pages_of sp t" unfolding page_owned_def by blast
      then have "t \<noteq> s" using out(1) by force
      with t show ?thesis unfolding page_owned_def p by (intro exI [of _ t]) simp
    qed
  qed
  have bits: "page_free (sp_free_bitmap (span_take n s sp)) j \<longleftrightarrow> j \<noteq> 0 \<and> \<not> page_owned (span_take n s sp) j"
    if j: "j < 512" for j
  proof -
    have "page_free (sp_free_bitmap (span_take n s sp)) j \<longleftrightarrow> \<not> (s \<le> j \<and> j < s + unat n) \<and> page_free (sp_free_bitmap sp) j"
      using s j span_invD(1) [OF inv] by (auto simp: span_take_def page_free_clear_pages)
    then show ?thesis unfolding owned using span_invD(6) [OF inv j] by blast
  qed
  have "pages_sum (span_take n s sp) = pages_sum sp + unat n"
    using pages_sum_update(1) [OF n512(2), of "span_take n s sp" sp] out(1) by (simp add: p)
  moreover have "unat (sp_used_pages (span_take n s sp)) = unat (sp_used_pages sp) + unat n"
    using free_run_used [OF inv run s] by (simp add: span_take_def unat_word_ariths)
  ultimately have used: "unat (sp_used_pages (span_take n s sp)) = 1 + pages_sum (span_take n s sp)"
    using span_invD(7) [OF inv] by simp
  show ?thesis
    unfolding span_inv_def using len bits used span_invD(3-5) [OF inv] out s by (auto simp: p)
qed

lemma span_give_inv:
  assumes inv: "span_inv sp" and s: "s < 512" "0 < pages_of sp s"
  shows "span_inv (span_give s sp)"
proof -
  note p = pages_of_give [OF inv s(1)]
  have len: "length (sp_free_bitmap (span_give s sp)) = 8" "length (sp_alloc_size_pages (span_give s sp)) = 512"
    using span_invD(1,2) [OF inv] by (auto simp: span_give_def)
  have s0: "s \<noteq> 0" using s(2) span_invD(3) [OF inv] by (metis less_irrefl)
  have owned: "page_owned (span_give s sp) j \<longleftrightarrow> \<not> (s \<le> j \<and> j < s + pages_of sp s) \<and> page_owned sp j" for j
  proof -
    have "\<not> (t \<le> j \<and> j < t + pages_of sp t)" if "s \<le> j" "j < s + pages_of sp s" "t \<noteq> s" "t < 512" for t
      using blocks_disjoint [OF inv s(1) that(4)] that by fastforce
    then show ?thesis unfolding page_owned_def p using s(1) by (auto split: if_splits)
  qed
  have bits: "page_free (sp_free_bitmap (span_give s sp)) j \<longleftrightarrow> j \<noteq> 0 \<and> \<not> page_owned (span_give s sp) j"
    if j: "j < 512" for j
  proof -
    have "page_free (sp_free_bitmap (span_give s sp)) j \<longleftrightarrow> s \<le> j \<and> j < s + pages_of sp s \<or> page_free (sp_free_bitmap sp) j"
      using span_invD(4) [OF inv s(1)] j span_invD(1) [OF inv] by (auto simp: span_give_def page_free_set_pages)
    then show ?thesis unfolding owned using span_invD(6) [OF inv j] s0 by auto
  qed
  have sum: "pages_sum (span_give s sp) + pages_of sp s = pages_sum sp" "pages_of sp s \<le> pages_sum sp"
    using pages_sum_update [OF s(1), of "span_give s sp" sp] by (simp_all add: p)
  have "unat (of_nat (pages_of sp s) :: u32) = pages_of sp s"
    using span_invD(4) [OF inv s(1)] by (simp add: unsigned_of_nat take_bit_nat_eq_self)
  then have "unat (sp_used_pages (span_give s sp)) = unat (sp_used_pages sp) - pages_of sp s"
    using sum(2) span_invD(7) [OF inv] by (simp add: span_give_def unat_sub word_le_nat_alt)
  then have used: "unat (sp_used_pages (span_give s sp)) = 1 + pages_sum (span_give s sp)"
    using span_invD(7) [OF inv] sum by simp
  show ?thesis
    unfolding span_inv_def using len bits used span_invD(3-5) [OF inv] by (auto simp: p)
qed

lemma span_give_take:
  assumes inv: "span_inv sp" and run: "run_free (page_free (sp_free_bitmap sp)) s (unat n)"
    and s: "s + unat n \<le> 512" and n: "0 < unat n"
  shows "span_give s (span_take n s sp) = sp"
proof -
  note out = free_run_unowned [OF inv run s n]
  have n512: "unat n < 512" "s < 512" using out(2) s n by auto
  note p = pages_of_take [OF inv n512(2,1)]
  have "set_pages [s..<s + unat n] (clear_pages [s..<s + unat n] (sp_free_bitmap sp)) = sp_free_bitmap sp"
  proof (rule bitmap_eqI)
    fix k :: nat assume "k < 512"
    moreover have "page_free (sp_free_bitmap sp) k" if "s \<le> k" "k < s + unat n"
      using run that unfolding run_free_def by (metis add_diff_inverse_nat less_diff_conv2 linorder_not_less add.commute)
    ultimately show "page_free (set_pages [s..<s + unat n] (clear_pages [s..<s + unat n] (sp_free_bitmap sp))) k
        = page_free (sp_free_bitmap sp) k"
      using span_invD(1) [OF inv] s by (auto simp: page_free_set_pages page_free_clear_pages)
  qed (use span_invD(1) [OF inv] in auto)
  moreover have "sp_alloc_size_pages sp ! s = 0" using out(1) n512(2) by (simp add: pages_of_def unat_eq_0)
  then have "(sp_alloc_size_pages sp)[s := 0] = sp_alloc_size_pages sp" by (metis list_update_id)
  ultimately show ?thesis
    by (simp add: span_give_def p) (simp add: span_take_def)
qed

section \<open>Properties\<close>

text \<open>
  C13. The two nested loops of the page search implement first fit: the result is the least page from
  which the requested number of pages is free, or -1 when there is none in the chunk, and exactly
  those pages are marked used. A request of no pages never matches.
\<close>

theorem find_contiguous_pages_correct:
  assumes "length (sp_free_bitmap sp) = LZ_SPAN_BITMAP_WORDS"
  shows "case find_contiguous_pages sp n of (idx, sp') \<Rightarrow>
    (if n \<noteq> 0 then
       (idx = -1 \<longleftrightarrow> first_fit (page_free (sp_free_bitmap sp)) LZ_SPAN_TOTAL_PAGES (unat n) = None) \<and>
       (idx \<noteq> -1 \<longrightarrow> first_fit (page_free (sp_free_bitmap sp)) LZ_SPAN_TOTAL_PAGES (unat n) = Some (nat idx) \<and> 0 \<le> idx)
     else idx = -1) \<and>
    (idx = -1 \<longrightarrow> sp' = sp) \<and> sp_used_pages sp' = sp_used_pages sp \<and>
    sp_alloc_size_pages sp' = sp_alloc_size_pages sp \<and>
    (idx \<noteq> -1 \<longrightarrow> (\<forall>k<LZ_SPAN_TOTAL_PAGES. page_free (sp_free_bitmap sp') k \<longleftrightarrow>
        page_free (sp_free_bitmap sp) k \<and> \<not> (nat idx \<le> k \<and> k < nat idx + unat n)))"
proof (cases "n = 0")
  case True
  then show ?thesis by (simp add: find_contiguous_pages_def scan_words_zero)
next
  case False
  then have n: "0 < unat n" by (simp add: unat_gt_0)
  show ?thesis
  proof (cases "first_fit (page_free (sp_free_bitmap sp)) 512 (unat n)")
    case None
    then show ?thesis using find_contiguous_pages_first_fit [OF assms n] n by simp
  next
    case (Some s)
    then have "s + unat n \<le> 512" by (simp add: first_fit_Some)
    then have "page_free (clear_pages [s..<s + unat n] (sp_free_bitmap sp)) k \<longleftrightarrow>
        page_free (sp_free_bitmap sp) k \<and> \<not> (s \<le> k \<and> k < s + unat n)" if "k < 512" for k
      using that assms by (auto simp: page_free_clear_pages)
    then show ?thesis using find_contiguous_pages_first_fit [OF assms n] Some False by simp
  qed
qed

definition pristine_span :: lz_span where
  "pristine_span = \<lparr>sp_next = 0, sp_prev = 0, sp_free_bitmap = NOT 1 # replicate 7 (NOT 0),
     sp_used_pages = 1, sp_alloc_size_pages = replicate 512 0\<rparr>"

theorem find_contiguous_pages_correct_witness:
  "case find_contiguous_pages pristine_span 100 of (idx, sp') \<Rightarrow>
     (idx = -1 \<longleftrightarrow> first_fit (page_free (sp_free_bitmap pristine_span)) 512 100 = None) \<and>
     sp_used_pages sp' = 1"
  using find_contiguous_pages_correct [of pristine_span 100] by (simp add: pristine_span_def split: prod.splits)

text \<open>The pages of a block that is taken and given back.\<close>

lemma span_take_give:
  assumes "span_inv sp" and "first_fit (page_free (sp_free_bitmap sp)) LZ_SPAN_TOTAL_PAGES (unat n) = Some s"
    and "0 < n"
  shows "span_inv (span_take n s sp) \<and> pages_of (span_take n s sp) s = unat n \<and>
    (\<forall>t. t \<noteq> s \<longrightarrow> pages_of (span_take n s sp) t = pages_of sp t) \<and>
    (\<forall>t<LZ_SPAN_TOTAL_PAGES. 0 < pages_of sp t \<longrightarrow> {t..<t + pages_of sp t} \<inter> {s..<s + unat n} = {}) \<and>
    0 < s \<and> s + unat n \<le> LZ_SPAN_TOTAL_PAGES \<and> span_give s (span_take n s sp) = sp"
proof -
  have run: "run_free (page_free (sp_free_bitmap sp)) s (unat n)" and s: "s + unat n \<le> 512"
    using assms(2) by (simp_all add: first_fit_Some)
  have n: "0 < unat n" using assms(3) by (simp add: word_less_nat_alt)
  note out = free_run_unowned [OF assms(1) run s n]
  have lt: "s < 512" "unat n < 512" using out(2) s n by auto
  have "{t..<t + pages_of sp t} \<inter> {s..<s + unat n} = {}" if "t < 512" "0 < pages_of sp t" for t
  proof (cases t s rule: linorder_cases)
    case equal
    then show ?thesis using that out(1) by simp
  qed (use out(3) [of t] out(4) [of t] that in auto)
  then show ?thesis
    using span_take_inv [OF assms(1) run s n] span_give_take [OF assms(1) run s n] out s
      pages_of_take [OF assms(1) lt] by auto
qed

end
