(* ===== verification/Telemetry.thy ===== *)
theory Telemetry
  imports LZ_Machine
begin

text \<open>
  Telemetry: \<open>src/src/internal/telemetry.h\<close> and \<open>telemetry.c\<close>, and the batching of counters that
  the heaps do (\<open>tlh.c\<close>, \<open>span.c\<close>).

  The matrix of slots is shared memory, opened and mapped when an environment variable asks for it.
  The environment of the process, its id and the outcomes of \<open>shm_open\<close> and \<open>ftruncate\<close> are a
  parameter.
\<close>

section \<open>Model\<close>

record proc_env =
  pe_environ :: "string list option"
  pe_getpid :: int
  pe_shm_open :: "string \<Rightarrow> bool"
  pe_ftruncate :: bool
  pe_shm_content :: "string \<Rightarrow> u64 \<Rightarrow> lz_stat_counters"

text \<open>\<open>strncmp(s, t, n) == 0\<close> on strings without their terminating zero.\<close>

fun strncmp_eq :: "string \<Rightarrow> string \<Rightarrow> nat \<Rightarrow> bool" where
  "strncmp_eq s t 0 = True"
| "strncmp_eq [] [] (Suc n) = True"
| "strncmp_eq (a # s) (b # t) (Suc n) = (a = b \<and> strncmp_eq s t n)"
| "strncmp_eq s t (Suc n) = False"

definition char_at :: "string \<Rightarrow> nat \<Rightarrow> char" where
  "char_at s n = (if n < length s then s ! n else CHR 0x00)"

fun env_scan :: "string \<Rightarrow> nat \<Rightarrow> string list \<Rightarrow> bool" where
  "env_scan key key_len [] = False"
| "env_scan key key_len (e # env) =
     (if strncmp_eq e key key_len \<and> char_at e key_len = CHR ''='' then True else env_scan key key_len env)"

definition lz_internal_has_env :: "proc_env \<Rightarrow> string \<Rightarrow> bool" where
  "lz_internal_has_env pe key =
     (case pe_environ pe of None \<Rightarrow> False | Some env \<Rightarrow> env_scan key (length key) env)"

function itoa_temp :: "int \<Rightarrow> string" where
  "itoa_temp val = (if val > 0 then char_of (nat (val mod 10) + 48) # itoa_temp (val div 10) else [])"
  by auto
termination by (relation "measure nat") auto

definition lz_itoa_fast :: "int \<Rightarrow> string \<times> nat" where
  "lz_itoa_fast val =
     (let temp = (if val = 0 then ''0'' else itoa_temp val); i = length temp
      in (map (\<lambda>j. temp ! (i - 1 - j)) [0..<i], i))"

definition lz_telemetry_cleanup :: "lz_state \<Rightarrow> string option" where
  "lz_telemetry_cleanup st = (if g_shm_name st \<noteq> [] then Some (g_shm_name st) else None)"

abbreviation (input) LZ_THREAD_SLOT_BASE_IDX :: u32 where "LZ_THREAD_SLOT_BASE_IDX \<equiv> 1"
abbreviation (input) sizeof_lz_stat_slot :: u64 where "sizeof_lz_stat_slot \<equiv> 64"

definition telemetry_shm_name :: "proc_env \<Rightarrow> string" where
  "telemetry_shm_name pe = ''/lzmalloc_telemetry_'' @ fst (lz_itoa_fast (pe_getpid pe))"

text \<open>
  A shared mapping shows what the object of that name holds at each offset, for instance the counters
  left by an earlier process with the same number. It is not a mapping of fresh zeroed pages.
\<close>

definition map_shm :: "proc_env \<Rightarrow> addr \<Rightarrow> u64 \<Rightarrow> lz_state \<Rightarrow> lz_state" where
  "map_shm pe p n st =
     st\<lparr>stats := (\<lambda>a. if within p n a then pe_shm_content pe (g_shm_name st) (a - p) else stats st a)\<rparr>"

definition lz_telemetry_init :: "os_env \<Rightarrow> proc_env \<Rightarrow> lz_state \<Rightarrow> lz_state" where
  "lz_telemetry_init env pe st =
     (if g_telemetry_matrix st \<noteq> 0 then st
      else if \<not> lz_internal_has_env pe ''LZMALLOC_TELEMETRY'' then st
      else
        let st = st\<lparr>g_shm_name := telemetry_shm_name pe\<rparr> in
        if \<not> pe_shm_open pe (g_shm_name st) then st
        else
          let matrix_size = sizeof_lz_stat_slot * ucast LZ_MAX_TELEMETRY_SLOTS in
          if \<not> pe_ftruncate pe then st
          else case sys_mmap env matrix_size st of
                 (None, st) \<Rightarrow> st\<lparr>g_telemetry_matrix := 0\<rparr>
               | (Some p, st) \<Rightarrow> zero_pages p matrix_size ((map_shm pe p matrix_size st)\<lparr>g_telemetry_matrix := p\<rparr>))"

definition lz_telemetry_get_slot :: "u32 \<Rightarrow> lz_state \<Rightarrow> addr" where
  "lz_telemetry_get_slot idx st =
     (if g_telemetry_matrix st = 0 \<or> idx \<ge> LZ_MAX_TELEMETRY_SLOTS then 0
      else g_telemetry_matrix st + sizeof_lz_stat_slot * ucast idx)"

text \<open>
  The counters a heap keeps until they are worth an atomic operation: freed bytes go to the shared
  slot in batches of 4 KB, allocated bytes in batches of 1 MB.
\<close>

definition telemetry_free_batch :: "addr \<Rightarrow> u32 \<Rightarrow> lz_state \<Rightarrow> lz_state option" where
  "telemetry_free_batch tlh bytes st = do {
     h \<leftarrow> get_tlh st tlh;
     if tl_stat_slot h \<noteq> 0 then do {
       st \<leftarrow> upd_tlh tlh (\<lambda>h. h\<lparr>tl_local_bytes_free_batch := tl_local_bytes_free_batch h + bytes\<rparr>) st;
       h \<leftarrow> get_tlh st tlh;
       if tl_local_bytes_free_batch h \<ge> 4096 then do {
         st \<leftarrow> upd_stat (tl_stat_slot h)
                 (\<lambda>c. c\<lparr>bytes_allocated := bytes_allocated c - ucast (tl_local_bytes_free_batch h)\<rparr>) st;
         upd_tlh tlh (tl_local_bytes_free_batch_update (\<lambda>_. 0)) st }
       else Some st }
     else Some st }"

definition telemetry_alloc_batch :: "addr \<Rightarrow> u64 \<Rightarrow> lz_state \<Rightarrow> lz_state option" where
  "telemetry_alloc_batch tlh allocated_size st = do {
     st \<leftarrow> upd_tlh tlh (\<lambda>h. h\<lparr>tl_bytes_allocated := tl_bytes_allocated h + allocated_size\<rparr>) st;
     h \<leftarrow> get_tlh st tlh;
     if tl_stat_slot h \<noteq> 0 then do {
       st \<leftarrow> upd_tlh tlh (\<lambda>h. h\<lparr>tl_local_bytes_alloc_batch :=
               ucast (ucast (tl_local_bytes_alloc_batch h) + allocated_size)\<rparr>) st;
       h \<leftarrow> get_tlh st tlh;
       if tl_local_bytes_alloc_batch h \<ge> 1048576 then do {
         st \<leftarrow> upd_stat (tl_stat_slot h)
                 (\<lambda>c. c\<lparr>bytes_allocated := bytes_allocated c + ucast (tl_local_bytes_alloc_batch h)\<rparr>) st;
         upd_tlh tlh (tl_local_bytes_alloc_batch_update (\<lambda>_. 0)) st }
       else Some st }
     else Some st }"

section \<open>The environment variable\<close>

lemma strncmp_eq_prefix: "strncmp_eq s key (length key) \<longleftrightarrow> take (length key) s = key"
proof (induction key arbitrary: s)
  case (Cons k key)
  then show ?case by (cases s) auto
qed simp

lemma env_scan_iff:
  "env_scan key (length key) env \<longleftrightarrow> (\<exists>v. key @ ''='' @ v \<in> set env)"
proof (induction env)
  case (Cons e env)
  have "strncmp_eq e key (length key) \<and> char_at e (length key) = CHR ''='' \<longleftrightarrow> (\<exists>v. e = key @ ''='' @ v)"
  proof
    assume a: "strncmp_eq e key (length key) \<and> char_at e (length key) = CHR ''=''"
    then have len: "length key < length e" by (auto simp: char_at_def split: if_splits)
    have "e = take (length key) e @ e ! length key # drop (Suc (length key)) e"
      by (rule id_take_nth_drop [OF len])
    then show "\<exists>v. e = key @ ''='' @ v"
      using a len by (metis strncmp_eq_prefix char_at_def append_Cons append_Nil)
  qed (auto simp: strncmp_eq_prefix char_at_def)
  with Cons show ?case by auto
qed simp

text \<open>
  C26. The variable is found exactly when some entry of the environment assigns it; a longer name
  that starts with the same letters is not mistaken for it.
\<close>

theorem has_env_iff:
  "lz_internal_has_env pe key \<longleftrightarrow> (\<exists>env v. pe_environ pe = Some env \<and> key @ ''='' @ v \<in> set env)"
  by (auto simp: lz_internal_has_env_def env_scan_iff split: option.splits)

section \<open>Decimal numbers\<close>

fun read_decimal :: "string \<Rightarrow> nat" where
  "read_decimal s = foldl (\<lambda>n c. 10 * n + (of_char c - 48)) 0 s"

declare itoa_temp.simps [simp del]

lemma itoa_temp_value:
  "0 \<le> v \<Longrightarrow> foldr (\<lambda>c n. 10 * n + (of_char c - 48 :: nat)) (itoa_temp v) 0 = nat v"
proof (induction v rule: itoa_temp.induct)
  case (1 v)
  show ?case
  proof (cases "v > 0")
    case True
    have "nat (v mod 10) < 10" using pos_mod_bound [of 10 v] by linarith
    then have d: "(of_char (char_of (nat (v mod 10) + 48) :: char) :: nat) = nat (v mod 10) + 48" by simp
    have "10 * nat (v div 10) + nat (v mod 10) = nat v"
      using True by (simp add: nat_div_distrib nat_mod_distrib)
    then show ?thesis
      using 1 True d by (subst itoa_temp.simps) (simp add: pos_imp_zdiv_nonneg_iff)
  qed (use 1 in \<open>simp add: itoa_temp.simps\<close>)
qed

lemma length_itoa_temp: "v < 10 ^ k \<Longrightarrow> length (itoa_temp v) \<le> k"
proof (induction k arbitrary: v)
  case 0
  then show ?case by (simp add: itoa_temp.simps)
next
  case (Suc k)
  then have "v div 10 < 10 ^ k" by auto
  with Suc show ?case by (subst itoa_temp.simps) auto
qed

lemma itoa_temp_nonempty: "0 < v \<Longrightarrow> itoa_temp v \<noteq> []"
  by (subst itoa_temp.simps) simp

lemma lz_itoa_fast_eq:
  "lz_itoa_fast v = (let temp = (if v = 0 then ''0'' else itoa_temp v) in (rev temp, length temp))"
proof -
  have "map (\<lambda>j. t ! (length t - 1 - j)) [0..<length t] = rev t" for t :: string
    by (rule nth_equalityI) (auto simp: rev_nth)
  then show ?thesis by (auto simp: lz_itoa_fast_def Let_def)
qed

text \<open>
  C27. A process id is written in decimal: reading the digits back gives the number, there is at
  least one digit, at most ten of them (the local buffer holds 32, and the name of the shared memory
  object stays below its 128 bytes), and the length reported is the number of digits.
\<close>

theorem itoa_roundtrip:
  assumes "0 \<le> val" and "val < 2 ^ 31"
  shows "read_decimal (fst (lz_itoa_fast val)) = nat val \<and>
    snd (lz_itoa_fast val) = length (fst (lz_itoa_fast val)) \<and>
    0 < snd (lz_itoa_fast val) \<and> snd (lz_itoa_fast val) \<le> 10"
proof -
  have "read_decimal (rev s) = foldr (\<lambda>c n. 10 * n + (of_char c - 48)) s 0" for s
    by (simp add: foldl_conv_foldr)
  then show ?thesis
    using itoa_temp_value [OF assms(1)] assms itoa_temp_nonempty [of val] length_itoa_temp [of val 10]
    by (auto simp: lz_itoa_fast_eq Let_def)
qed

theorem itoa_roundtrip_witness:
  "read_decimal (fst (lz_itoa_fast 40961)) = 40961 \<and> snd (lz_itoa_fast 40961) \<le> 10"
  using itoa_roundtrip [of 40961] by simp

section \<open>The matrix\<close>

definition telemetry_wanted :: "proc_env \<Rightarrow> bool" where
  "telemetry_wanted pe \<longleftrightarrow> lz_internal_has_env pe ''LZMALLOC_TELEMETRY''"

text \<open>The matrix is absent, or all of it is mapped.\<close>

definition telemetry_inv :: "lz_state \<Rightarrow> bool" where
  "telemetry_inv st \<longleftrightarrow> g_telemetry_matrix st = 0 \<or>
     (unat (g_telemetry_matrix st) + 262144 \<le> 2 ^ 47 \<and> g_telemetry_matrix st AND mask 12 = 0 \<and>
      (\<forall>a. within (g_telemetry_matrix st) 262144 a \<longrightarrow> valid st a))"

lemma telemetry_inv_keeps:
  "telemetry_inv st \<Longrightarrow> keeps C st st' \<Longrightarrow> g_telemetry_matrix st' = g_telemetry_matrix st \<Longrightarrow> telemetry_inv st'"
  by (auto simp: telemetry_inv_def intro: keeps_valid)

lemma zero_pages_map_shm: "zero_pages p n ((map_shm pe p n st)\<lparr>g_telemetry_matrix := q\<rparr>) = zero_pages p n (st\<lparr>g_telemetry_matrix := q\<rparr>)"
  by (auto simp: zero_pages_def map_shm_def fill_def fun_eq_iff)

lemma telemetry_init_cases:
  fixes env pe st
  defines "s \<equiv> st\<lparr>g_shm_name := telemetry_shm_name pe\<rparr>"
  obtains "lz_telemetry_init env pe st = st" | "lz_telemetry_init env pe st = s"
  | st1 where "sys_mmap env 262144 s = (None, st1)" "lz_telemetry_init env pe st = st1\<lparr>g_telemetry_matrix := 0\<rparr>"
  | p st1 where "sys_mmap env 262144 s = (Some p, st1)"
      "lz_telemetry_init env pe st = zero_pages p 262144 (st1\<lparr>g_telemetry_matrix := p\<rparr>)"
proof -
  obtain m st1 where m: "sys_mmap env 262144 s = (m, st1)" by fastforce
  have "lz_telemetry_init env pe st = st \<or> lz_telemetry_init env pe st = s \<or>
    lz_telemetry_init env pe st = (case m of None \<Rightarrow> st1\<lparr>g_telemetry_matrix := 0\<rparr>
      | Some p \<Rightarrow> zero_pages p 262144 (st1\<lparr>g_telemetry_matrix := p\<rparr>))"
    using m by (cases m) (simp_all add: lz_telemetry_init_def Let_def s_def zero_pages_map_shm)
  with m that show thesis by (cases m) auto
qed

lemma telemetry_init_inv:
  assumes ok: "mmap_ok env" and inv: "telemetry_inv st"
  shows "telemetry_inv (lz_telemetry_init env pe st)" "keeps {} st (lz_telemetry_init env pe st)"
proof -
  let ?st = "lz_telemetry_init env pe st"
  have "telemetry_inv ?st \<and> keeps {} st ?st"
  proof (cases rule: telemetry_init_cases [of env pe st])
    case 2
    then show ?thesis using inv by (simp add: telemetry_inv_def keeps_def same_at_def valid_def)
  next
    case (3 st1)
    note m = 3(1) and eq = 3(2)
    have "keeps {} (st\<lparr>g_shm_name := telemetry_shm_name pe\<rparr>) st1" by (rule sys_mmap_keeps [OF ok m])
    then show ?thesis unfolding eq by (simp add: telemetry_inv_def keeps_def same_at_def valid_def)
  next
    case (4 p st1)
    note m = 4(1) and eq = 4(2)
    note new = sys_mmap_Some [OF ok m]
    have "keeps {} (st\<lparr>g_shm_name := telemetry_shm_name pe\<rparr>) st1" by (rule sys_mmap_keeps [OF ok m])
    moreover have "\<not> within p 262144 a" if "valid st a" for a
      using new(5) [of a] that by (auto simp: valid_def)
    ultimately have "keeps {} st ?st" unfolding eq
      by (auto simp: keeps_def same_at_def valid_def zero_pages_def fill_def)
    moreover have "telemetry_inv ?st"
      unfolding eq telemetry_inv_def using new by (simp add: valid_def zero_pages_def)
    ultimately show ?thesis by simp
  qed (use inv in auto)
  then show "telemetry_inv ?st" "keeps {} st ?st" by auto
qed

lemma slot_address:
  assumes inv: "telemetry_inv st" and m: "g_telemetry_matrix st \<noteq> 0" and i: "unat idx < 4096"
  shows "unat (lz_telemetry_get_slot idx st) = unat (g_telemetry_matrix st) + 64 * unat idx"
    and "lz_telemetry_get_slot idx st \<noteq> 0"
proof -
  have eq: "lz_telemetry_get_slot idx st = g_telemetry_matrix st + 64 * ucast idx"
    using m i by (simp add: lz_telemetry_get_slot_def word_le_nat_alt)
  have b: "unat (g_telemetry_matrix st) + 262144 \<le> 2 ^ 47" using inv m by (simp add: telemetry_inv_def)
  have "unat (64 * ucast idx :: u64) = 64 * unat idx"
    using i by (simp add: unat_word_ariths unat_ucast)
  then show u: "unat (lz_telemetry_get_slot idx st) = unat (g_telemetry_matrix st) + 64 * unat idx"
    using i b by (simp add: eq unat_word_ariths)
  show "lz_telemetry_get_slot idx st \<noteq> 0" using u m by (metis add_is_0 unat_eq_0)
qed

lemma telemetry_slot_valid:
  assumes inv: "telemetry_inv st" and slot: "lz_telemetry_get_slot idx st \<noteq> 0"
    and a: "within (lz_telemetry_get_slot idx st) 64 a"
  shows "valid st a"
proof -
  have m: "g_telemetry_matrix st \<noteq> 0" and i: "unat idx < 4096"
    using slot by (auto simp: lz_telemetry_get_slot_def word_less_nat_alt word_le_nat_alt split: if_splits)
  have b: "unat (g_telemetry_matrix st) + 262144 \<le> 2 ^ 47" using inv m by (simp add: telemetry_inv_def)
  have "within (g_telemetry_matrix st) 262144 a"
    using slot_address(1) [OF inv m i] b i a by (simp add: within_iff)
  then show "valid st a" using inv m by (simp add: telemetry_inv_def)
qed

definition telemetry_on :: proc_env where
  "telemetry_on = \<lparr>pe_environ = Some [''HOME=/'', ''LZMALLOC_TELEMETRY=1''], pe_getpid = 4242,
     pe_shm_open = (\<lambda>_. True), pe_ftruncate = True, pe_shm_content = (\<lambda>_ _. zero_stat\<lparr>bytes_allocated := 4096\<rparr>)\<rparr>"

text \<open>
  C24. Initialising the telemetry, in a process without a matrix. A matrix appears exactly when the
  variable is set, the shared memory object can be opened and sized and the mapping succeeds; each of
  its 4096 slots is then zero, whatever an earlier process had left in the object, and memory that
  was mapped before is not touched. Without a matrix every slot is NULL; without the variable nothing
  changes at all. Once there is a matrix any further call changes nothing. When the variable is set,
  the destructor of the library unlinks the name built from the process number.
\<close>

theorem telemetry_init_effect:
  assumes "mmap_ok env" and "telemetry_inv st" and "g_telemetry_matrix st = 0"
  shows "let st' = lz_telemetry_init env pe st in
    telemetry_inv st' \<and> keeps {} st st' \<and>
    (g_telemetry_matrix st' \<noteq> 0 \<longleftrightarrow> telemetry_wanted pe \<and> pe_shm_open pe (telemetry_shm_name pe) \<and> pe_ftruncate pe \<and>
       os_mmap env (trace st) 262144 \<noteq> None) \<and>
    (g_telemetry_matrix st' = 0 \<longrightarrow> (\<forall>i. lz_telemetry_get_slot i st' = 0)) \<and>
    (g_telemetry_matrix st' \<noteq> 0 \<longrightarrow> (\<forall>i. lz_telemetry_get_slot i st' \<noteq> 0 \<longleftrightarrow> unat i < 4096)) \<and>
    (\<forall>i. lz_telemetry_get_slot i st' \<noteq> 0 \<longrightarrow> stats st' (lz_telemetry_get_slot i st') = zero_stat) \<and>
    (\<not> telemetry_wanted pe \<longrightarrow> st' = st) \<and>
    (telemetry_wanted pe \<longrightarrow> lz_telemetry_cleanup st' = Some (telemetry_shm_name pe)) \<and>
    (g_telemetry_matrix st' \<noteq> 0 \<longrightarrow> (\<forall>env' pe'. lz_telemetry_init env' pe' st' = st'))"
proof -
  let ?st = "lz_telemetry_init env pe st"
  let ?s = "st\<lparr>g_shm_name := telemetry_shm_name pe\<rparr>"
  have inv: "telemetry_inv ?st" "keeps {} st ?st" using telemetry_init_inv [OF assms(1,2)] by auto
  have on: "g_telemetry_matrix ?st \<noteq> 0 \<longleftrightarrow> telemetry_wanted pe \<and> pe_shm_open pe (telemetry_shm_name pe) \<and>
      pe_ftruncate pe \<and> os_mmap env (trace st) 262144 \<noteq> None"
    using assms(3) mmap_okD(2) [OF assms(1), of "trace st" 262144]
    by (auto simp: lz_telemetry_init_def telemetry_wanted_def Let_def sys_mmap_def zero_pages_def split: option.splits)
  have zero: "stats ?st a = zero_stat" if "g_telemetry_matrix ?st \<noteq> 0" "within (g_telemetry_matrix ?st) 262144 a" for a
    using that assms(3) by (auto simp: lz_telemetry_init_def Let_def sys_mmap_def zero_pages_def fill_def
        split: option.splits if_splits)
  have slot: "stats ?st (lz_telemetry_get_slot i ?st) = zero_stat" if "lz_telemetry_get_slot i ?st \<noteq> 0" for i
  proof -
    have m: "g_telemetry_matrix ?st \<noteq> 0" and i: "unat i < 4096"
      using that by (auto simp: lz_telemetry_get_slot_def word_less_nat_alt word_le_nat_alt split: if_splits)
    have b: "unat (g_telemetry_matrix ?st) + 262144 \<le> 2 ^ 47" using inv(1) m by (simp add: telemetry_inv_def)
    then have "within (g_telemetry_matrix ?st) 262144 (lz_telemetry_get_slot i ?st)"
      using slot_address(1) [OF inv(1) m i] i by (simp add: within_iff)
    then show ?thesis using zero m by blast
  qed
  have have_slot: "lz_telemetry_get_slot i ?st \<noteq> 0 \<longleftrightarrow> unat i < 4096" if "g_telemetry_matrix ?st \<noteq> 0" for i
    using slot_address(2) [OF inv(1) that, of i] by (auto simp: lz_telemetry_get_slot_def word_le_nat_alt)
  have off: "?st = st" if "\<not> telemetry_wanted pe"
    using that assms(3) by (simp add: lz_telemetry_init_def telemetry_wanted_def)
  have clean: "lz_telemetry_cleanup ?st = Some (telemetry_shm_name pe)" if "telemetry_wanted pe"
    using that assms(3) by (auto simp: lz_telemetry_init_def telemetry_wanted_def Let_def sys_mmap_def zero_pages_def map_shm_def
        lz_telemetry_cleanup_def telemetry_shm_name_def split: option.splits)
  have again: "lz_telemetry_init env' pe' ?st = ?st" if "g_telemetry_matrix ?st \<noteq> 0" for env' pe'
    using that by (simp add: lz_telemetry_init_def [of env'])
  have none: "lz_telemetry_get_slot i ?st = 0" if "g_telemetry_matrix ?st = 0" for i
    using that by (simp add: lz_telemetry_get_slot_def)
  show ?thesis
    unfolding Let_def using inv on none have_slot slot off clean again by blast
qed

theorem telemetry_init_effect_witness:
  "let st = lz_telemetry_init bump_os telemetry_on boot_state in
   g_telemetry_matrix st \<noteq> 0 \<and> lz_telemetry_get_slot 7 st \<noteq> 0 \<and> stats st (lz_telemetry_get_slot 7 st) = zero_stat"
proof -
  have inv: "telemetry_inv boot_state" "g_telemetry_matrix boot_state = 0"
    by (simp_all add: telemetry_inv_def boot_state_def)
  have "telemetry_wanted telemetry_on"
    by (simp add: telemetry_wanted_def lz_internal_has_env_def telemetry_on_def char_at_def numeral_eq_Suc)
  moreover have "os_mmap bump_os (trace boot_state) 262144 \<noteq> None" by (simp add: bump_os_def boot_state_def)
  moreover have "pe_shm_open telemetry_on (telemetry_shm_name telemetry_on)" "pe_ftruncate telemetry_on"
    by (simp_all add: telemetry_on_def)
  moreover have "unat (7 :: u32) < 4096" by simp
  ultimately show ?thesis
    using telemetry_init_effect [OF bump_os_ok inv, of telemetry_on] unfolding Let_def by blast
qed

end
