(* ===== verification/Security.thy ===== *)
theory Security
  imports LZ_Machine
begin

text \<open>
  Pointer obfuscation and the chunk checksum: \<open>src/src/core/security.c\<close>, \<open>security.h\<close> and the
  checksum of \<open>src/src/core/chunk.h\<close>.

  The sources of entropy are parameters: \<open>getrandom\<close> and \<open>read\<close> may return any count and leave any
  bytes in the secret, including a partial write, and the clock, the process id and the address of
  the stack variable are arbitrary.
\<close>

section \<open>Model\<close>

record entropy =
  sys_getrandom :: "u64 \<Rightarrow> int \<times> u64"
  sys_open_urandom :: int
  sys_read_urandom :: "u64 \<Rightarrow> int \<times> u64"
  sys_time :: u64
  sys_getpid :: u64
  stack_addr :: u64

definition lz_security_init :: "entropy \<Rightarrow> lz_state \<Rightarrow> lz_state" where
  "lz_security_init ent st =
     (if g_lz_global_secret st \<noteq> 0 then st
      else let (r1, s1) = sys_getrandom ent (g_lz_global_secret st) in
        if r1 = 8 \<and> s1 \<noteq> 0 then st\<lparr>g_lz_global_secret := s1\<rparr>
        else let fd = sys_open_urandom ent;
                 (bytes_read, s2) = (if fd \<noteq> -1 then sys_read_urandom ent s1 else (0, s1)) in
          if fd \<noteq> -1 \<and> bytes_read = 8 \<and> s2 \<noteq> 0 then st\<lparr>g_lz_global_secret := s2\<rparr>
          else let s3 = sys_time ent XOR push_bit 32 (sys_getpid ent) XOR stack_addr ent in
            if s3 = 0 then st\<lparr>g_lz_global_secret := 0xDEADBEEFCAFEBABE\<rparr>
            else st\<lparr>g_lz_global_secret := s3\<rparr>)"

definition lz_ptr_obfuscate :: "lz_state \<Rightarrow> addr \<Rightarrow> addr \<Rightarrow> addr" where
  "lz_ptr_obfuscate st p s = p XOR g_lz_global_secret st XOR s"

definition lz_calc_checksum :: "lz_chunk_header \<Rightarrow> u32" where
  "lz_calc_checksum c =
     (let owner = ch_owning_tlh c;
          hash = ch_node_id c;
          hash = hash XOR ucast (owner AND 0xFFFFFFFF);
          hash = hash XOR ucast (drop_bit 32 owner)
      in hash)"

section \<open>Properties\<close>

lemma xor_cancel_right: "(a XOR k XOR s) XOR k XOR s = (a :: u64)"
  by (rule bit_word_eqI) (auto simp: bit_simps)

text \<open>
  C22. Safe linking: a pointer masked for the address it is stored at is recovered by masking it
  again with the same address and the same secret. The masked word read back at any other address
  gives a different pointer, and so does unmasking it with any other secret: a link copied to another
  node never yields the original target, and the secret is needed to forge or to read one.
\<close>

theorem obfuscate_involution:
  "lz_ptr_obfuscate st (lz_ptr_obfuscate st p s) s = p \<and>
   (s' \<noteq> s \<longrightarrow> lz_ptr_obfuscate st (lz_ptr_obfuscate st p s) s' \<noteq> p) \<and>
   (g_lz_global_secret st' \<noteq> g_lz_global_secret st \<longrightarrow> lz_ptr_obfuscate st' (lz_ptr_obfuscate st p s) s \<noteq> p)"
proof (intro conjI impI notI)
  show "lz_ptr_obfuscate st (lz_ptr_obfuscate st p s) s = p"
    by (simp add: lz_ptr_obfuscate_def xor_cancel_right)
next
  assume ne: "s' \<noteq> s" and eq: "lz_ptr_obfuscate st (lz_ptr_obfuscate st p s) s' = p"
  have "lz_ptr_obfuscate st (lz_ptr_obfuscate st p s) s' XOR p XOR s = s'"
    unfolding lz_ptr_obfuscate_def by (rule bit_word_eqI) (auto simp: bit_simps)
  with eq ne show False by simp
next
  assume ne: "g_lz_global_secret st' \<noteq> g_lz_global_secret st"
    and eq: "lz_ptr_obfuscate st' (lz_ptr_obfuscate st p s) s = p"
  have "lz_ptr_obfuscate st' (lz_ptr_obfuscate st p s) s XOR p XOR g_lz_global_secret st = g_lz_global_secret st'"
    unfolding lz_ptr_obfuscate_def by (rule bit_word_eqI) (auto simp: bit_simps)
  with eq ne show False by simp
qed

theorem obfuscate_involution_witness:
  "(0x2000 :: addr) \<noteq> 0x1000 \<and>
   lz_ptr_obfuscate boot_state (lz_ptr_obfuscate boot_state 0x4000 0x1000) 0x2000 \<noteq> 0x4000 \<and>
   lz_ptr_obfuscate (boot_state\<lparr>g_lz_global_secret := 42\<rparr>) (lz_ptr_obfuscate boot_state 0x4000 0x1000) 0x1000 \<noteq> 0x4000"
  using obfuscate_involution [where st = boot_state and p = "0x4000" and s = "0x1000" and s' = "0x2000"
      and st' = "boot_state\<lparr>g_lz_global_secret := 42\<rparr>"]
  by (simp add: boot_state_def)

text \<open>
  C23. After \<open>lz_security_init\<close> the secret is never zero, whatever the entropy sources return (a
  short \<open>getrandom\<close>, a missing \<open>/dev/urandom\<close>, a fallback that XORs to zero), and a second
  initialisation keeps the secret, so links written before it stay readable.
\<close>

theorem security_init_secret:
  "g_lz_global_secret (lz_security_init ent st) \<noteq> 0 \<and>
   lz_security_init ent' (lz_security_init ent st) = lz_security_init ent st"
proof -
  have nz: "g_lz_global_secret (lz_security_init ent st) \<noteq> 0"
    by (auto simp: lz_security_init_def Let_def split: prod.splits)
  then show ?thesis by (simp add: lz_security_init_def [of ent'])
qed

lemma lz_security_init_frame:
  "lz_security_init ent st = st\<lparr>g_lz_global_secret := g_lz_global_secret (lz_security_init ent st)\<rparr>"
  by (simp add: lz_security_init_def Let_def split: prod.splits)

text \<open>The checksum reads only the node and the owner: linking a chunk does not invalidate it.\<close>

lemma checksum_cong:
  "ch_owning_tlh c = ch_owning_tlh c' \<Longrightarrow> ch_node_id c = ch_node_id c' \<Longrightarrow>
     lz_calc_checksum c = lz_calc_checksum c'"
  by (simp add: lz_calc_checksum_def)

end
