(* ===== verification/Rtree.thy ===== *)
theory Rtree
  imports LZ_Machine
begin

text \<open>
  The radix tree index: \<open>src/src/core/rtree.h\<close> and \<open>rtree.c\<close>.

  A two-level tree from 48-bit addresses to chunk headers: 13 bits select a leaf from the static
  root, 14 bits an entry of the leaf, and the low 21 bits are the offset in the 2 MB block. Leaves
  are mapped on demand; when the mapping fails the entry is not recorded and nothing is reported.
\<close>

abbreviation (input) LZ_RTREE_L2_BITS :: nat where "LZ_RTREE_L2_BITS \<equiv> 14"
abbreviation (input) LZ_RTREE_L2_MASK :: u64 where "LZ_RTREE_L2_MASK \<equiv> 16383"
abbreviation (input) LZ_RTREE_L1_MASK :: u64 where "LZ_RTREE_L1_MASK \<equiv> 8191"
abbreviation (input) sizeof_lz_rtree_leaf :: u64 where "sizeof_lz_rtree_leaf \<equiv> 131072"

section \<open>Model\<close>

definition rtree_l2_idx :: "addr \<Rightarrow> u64" where
  "rtree_l2_idx p = drop_bit LZ_CHUNK_SHIFT p AND LZ_RTREE_L2_MASK"

definition rtree_l1_idx :: "addr \<Rightarrow> u64" where
  "rtree_l1_idx p = drop_bit LZ_RTREE_L2_BITS (drop_bit LZ_CHUNK_SHIFT p) AND LZ_RTREE_L1_MASK"

definition alloc_internal_node :: "os_env \<Rightarrow> u64 \<Rightarrow> lz_state \<Rightarrow> addr \<times> lz_state" where
  "alloc_internal_node env n st =
     (case sys_mmap env n st of (None, st) \<Rightarrow> (0, st) | (Some p, st) \<Rightarrow> (p, st))"

definition lz_rtree_init :: "lz_state \<Rightarrow> lz_state" where
  "lz_rtree_init st = st\<lparr>g_rtree_root := (\<lambda>i. if i < 8192 then 0 else g_rtree_root st i)\<rparr>"

definition store_entry :: "addr \<Rightarrow> u64 \<Rightarrow> addr \<Rightarrow> lz_state \<Rightarrow> lz_state option" where
  "store_entry leaf l2_idx metadata st =
     (if valid st (leaf + 8 * l2_idx)
      then Some (st\<lparr>leaves := (leaves st)(leaf := (leaves st leaf)(l2_idx := metadata))\<rparr>) else None)"

definition lz_rtree_get :: "lz_state \<Rightarrow> addr \<Rightarrow> addr option" where
  "lz_rtree_get st p =
     (let l2_idx = rtree_l2_idx p; l1_idx = rtree_l1_idx p; leaf = g_rtree_root st l1_idx in
      if leaf = 0 then Some 0
      else if valid st (leaf + 8 * l2_idx) then Some (leaves st leaf l2_idx) else None)"

definition lz_rtree_set :: "os_env \<Rightarrow> addr \<Rightarrow> addr \<Rightarrow> lz_state \<Rightarrow> lz_state option" where
  "lz_rtree_set env chunk_addr metadata st =
     (let l2_idx = rtree_l2_idx chunk_addr;
          l1_idx = rtree_l1_idx chunk_addr;
          leaf = g_rtree_root st l1_idx in
      if leaf = 0 \<and> metadata = 0 then Some st
      else if leaf = 0 then
        (let (new_leaf, st) = alloc_internal_node env sizeof_lz_rtree_leaf st in
         if new_leaf = 0 then Some st
         else if g_rtree_root st l1_idx \<noteq> 0 then
           (let leaf = g_rtree_root st l1_idx;
                st = sys_munmap new_leaf sizeof_lz_rtree_leaf st
            in store_entry leaf l2_idx metadata st)
         else store_entry new_leaf l2_idx metadata
                (st\<lparr>g_rtree_root := (g_rtree_root st)(l1_idx := new_leaf)\<rparr>))
      else store_entry leaf l2_idx metadata st)"

definition lz_rtree_clear :: "os_env \<Rightarrow> addr \<Rightarrow> lz_state \<Rightarrow> lz_state option" where
  "lz_rtree_clear env chunk_addr st = lz_rtree_set env chunk_addr 0 st"

section \<open>Blocks\<close>

text \<open>Two addresses share an entry of the tree exactly when bits 21 to 47 agree.\<close>

definition block_of :: "addr \<Rightarrow> u64" where
  "block_of p = drop_bit LZ_CHUNK_SHIFT p AND mask 27"

lemma rtree_l2_mask: "rtree_l2_idx p = drop_bit 21 p AND mask 14"
  by (simp add: rtree_l2_idx_def mask_eq_exp_minus_1)

lemma rtree_l1_mask: "rtree_l1_idx p = drop_bit 35 p AND mask 13"
  by (simp add: rtree_l1_idx_def mask_eq_exp_minus_1 drop_bit_drop_bit)

lemma rtree_idx_eq_iff:
  "rtree_l1_idx p = rtree_l1_idx q \<and> rtree_l2_idx p = rtree_l2_idx q \<longleftrightarrow> block_of p = block_of q"
proof
  assume eq: "rtree_l1_idx p = rtree_l1_idx q \<and> rtree_l2_idx p = rtree_l2_idx q"
  show "block_of p = block_of q"
  proof (rule bit_word_eqI)
    fix n assume "n < LENGTH(64)"
    from eq have "bit (rtree_l2_idx p) n = bit (rtree_l2_idx q) n"
      and "bit (rtree_l1_idx p) (n - 14) = bit (rtree_l1_idx q) (n - 14)" by simp_all
    then show "bit (block_of p) n = bit (block_of q) n"
      using \<open>n < LENGTH(64)\<close>
      by (cases "n < 14") (auto simp: block_of_def rtree_l2_mask rtree_l1_mask bit_simps)
  qed
next
  assume eq: "block_of p = block_of q"
  then have b: "bit (block_of p) n = bit (block_of q) n" for n by simp
  have "rtree_l2_idx p = rtree_l2_idx q"
  proof (rule bit_word_eqI)
    fix n assume "n < LENGTH(64)"
    with b [of n] show "bit (rtree_l2_idx p) n = bit (rtree_l2_idx q) n"
      by (auto simp: block_of_def rtree_l2_mask bit_simps)
  qed
  moreover have "rtree_l1_idx p = rtree_l1_idx q"
  proof (rule bit_word_eqI)
    fix n assume "n < LENGTH(64)"
    with b [of "n + 14"] show "bit (rtree_l1_idx p) n = bit (rtree_l1_idx q) n"
      by (auto simp: block_of_def rtree_l1_mask bit_simps ac_simps)
  qed
  ultimately show "rtree_l1_idx p = rtree_l1_idx q \<and> rtree_l2_idx p = rtree_l2_idx q" by simp
qed

lemma unat_block_of: "unat (block_of p) = unat p div 2 ^ 21 mod 2 ^ 27"
  by (simp add: block_of_def unat_and_mask unat_drop_bit)

lemma block_of_eq_iff:
  assumes "unat p < 2 ^ 48" and "unat q < 2 ^ 48"
  shows "block_of p = block_of q \<longleftrightarrow> p AND NOT (mask LZ_CHUNK_SHIFT) = q AND NOT (mask LZ_CHUNK_SHIFT)"
proof -
  have "unat p div 2 ^ 21 < 2 ^ 27" "unat q div 2 ^ 21 < 2 ^ 27"
    using assms by (auto simp: less_mult_imp_div_less)
  then show ?thesis by (simp only: word_unat_eq_iff unat_block_of unat_and_not_mask) simp
qed

lemma rtree_idx_bounds: "unat (rtree_l1_idx p) < 8192" "unat (rtree_l2_idx p) < 16384"
  by (simp_all add: rtree_l1_mask rtree_l2_mask unat_and_mask)

section \<open>The invariant of the tree\<close>

text \<open>Every leaf the root points to is mapped in full, and no leaf hangs under two root entries.\<close>

definition rtree_inv :: "lz_state \<Rightarrow> bool" where
  "rtree_inv st \<longleftrightarrow>
     (\<forall>i a. unat i < 8192 \<longrightarrow> g_rtree_root st i \<noteq> 0 \<longrightarrow>
        within (g_rtree_root st i) sizeof_lz_rtree_leaf a \<longrightarrow> valid st a) \<and>
     (\<forall>i j. unat i < 8192 \<longrightarrow> unat j < 8192 \<longrightarrow> g_rtree_root st i \<noteq> 0 \<longrightarrow>
        g_rtree_root st i = g_rtree_root st j \<longrightarrow> i = j)"

text \<open>The leaf that the entry of \<open>a\<close> needs is missing and the system will not map one.\<close>

definition rtree_refuses :: "os_env \<Rightarrow> addr \<Rightarrow> addr \<Rightarrow> lz_state \<Rightarrow> bool" where
  "rtree_refuses env a m st \<longleftrightarrow> m \<noteq> 0 \<and> g_rtree_root st (rtree_l1_idx a) = 0 \<and>
     os_mmap env (trace st) sizeof_lz_rtree_leaf = None"

lemma leaf_entry_within: "within leaf sizeof_lz_rtree_leaf (leaf + 8 * rtree_l2_idx p)"
proof -
  have "unat (8 * rtree_l2_idx p) = 8 * unat (rtree_l2_idx p)"
    using rtree_idx_bounds(2) [of p] by (simp add: unat_word_ariths)
  then show ?thesis using rtree_idx_bounds(2) [of p] by (simp add: within_def word_less_nat_alt)
qed

lemma rtree_inv_valid:
  "rtree_inv st \<Longrightarrow> unat i < 8192 \<Longrightarrow> g_rtree_root st i \<noteq> 0 \<Longrightarrow>
     within (g_rtree_root st i) sizeof_lz_rtree_leaf a \<Longrightarrow> valid st a"
  unfolding rtree_inv_def by blast

lemma leaf_entry_valid:
  "rtree_inv st \<Longrightarrow> g_rtree_root st (rtree_l1_idx q) \<noteq> 0 \<Longrightarrow>
     valid st (g_rtree_root st (rtree_l1_idx q) + 8 * rtree_l2_idx p)"
  by (rule rtree_inv_valid [OF _ rtree_idx_bounds(1) _ leaf_entry_within])

lemma rtree_inv_leaf_base:
  "rtree_inv st \<Longrightarrow> unat i < 8192 \<Longrightarrow> g_rtree_root st i \<noteq> 0 \<Longrightarrow> valid st (g_rtree_root st i)"
  by (rule rtree_inv_valid [of st i]) (simp_all add: within_def)

lemma rtree_get_eq:
  "rtree_inv st \<Longrightarrow> lz_rtree_get st p =
     Some (if g_rtree_root st (rtree_l1_idx p) = 0 then 0
           else leaves st (g_rtree_root st (rtree_l1_idx p)) (rtree_l2_idx p))"
  by (simp add: lz_rtree_get_def leaf_entry_valid)

lemma store_entry_spec:
  assumes inv: "rtree_inv st" and leaf: "g_rtree_root st (rtree_l1_idx a) \<noteq> 0"
  shows "\<exists>st'. store_entry (g_rtree_root st (rtree_l1_idx a)) (rtree_l2_idx a) m st = Some st' \<and>
    rtree_inv st' \<and> keeps {g_rtree_root st (rtree_l1_idx a)} st st' \<and> trace st' = trace st \<and>
    (\<forall>p. lz_rtree_get st' p = (if block_of p = block_of a then Some m else lz_rtree_get st p))"
proof -
  let ?leaf = "g_rtree_root st (rtree_l1_idx a)"
  let ?st = "st\<lparr>leaves := (leaves st)(?leaf := (leaves st ?leaf)(rtree_l2_idx a := m))\<rparr>"
  have st: "store_entry ?leaf (rtree_l2_idx a) m st = Some ?st"
    using leaf_entry_valid [OF inv leaf] by (simp add: store_entry_def)
  have inv': "rtree_inv ?st" using inv by (simp add: rtree_inv_def valid_def)
  have "lz_rtree_get ?st p = (if block_of p = block_of a then Some m else lz_rtree_get st p)" for p
  proof -
    have inj: "rtree_l1_idx p = rtree_l1_idx a" if "g_rtree_root st (rtree_l1_idx p) = ?leaf"
      using inv leaf that rtree_idx_bounds(1) [of p] rtree_idx_bounds(1) [of a]
      unfolding rtree_inv_def by metis
    show ?thesis
      using leaf inj rtree_idx_eq_iff [of p a]
      by (auto simp: rtree_get_eq [OF inv] rtree_get_eq [OF inv'])
  qed
  then show ?thesis using st inv' by (auto simp: keeps_def same_at_def valid_def)
qed

lemma rtree_inv_keeps:
  assumes "rtree_inv st" and "keeps C st st'" and "g_rtree_root st' = g_rtree_root st"
  shows "rtree_inv st'"
  using assms unfolding rtree_inv_def by (metis keeps_valid)

lemma rtree_get_keeps:
  assumes "rtree_inv st" and "keeps C st st'" and "g_rtree_root st' = g_rtree_root st"
    and "\<And>i. unat i < 8192 \<Longrightarrow> g_rtree_root st i \<noteq> 0 \<Longrightarrow> g_rtree_root st i \<notin> C"
  shows "lz_rtree_get st' p = lz_rtree_get st p"
proof -
  have "leaves st' (g_rtree_root st (rtree_l1_idx p)) = leaves st (g_rtree_root st (rtree_l1_idx p))"
    if "g_rtree_root st (rtree_l1_idx p) \<noteq> 0"
    using keepsD(5) [OF assms(2)] rtree_inv_leaf_base [OF assms(1)] assms(4) rtree_idx_bounds(1) that
    by blast
  then show ?thesis
    using rtree_get_eq [OF assms(1)] rtree_get_eq [OF rtree_inv_keeps [OF assms(1,2,3)]] assms(3)
    by simp
qed

text \<open>The state after a missing leaf has been mapped and linked into the root.\<close>

lemma link_leaf:
  assumes ok: "mmap_ok env" and inv: "rtree_inv st" and none: "g_rtree_root st (rtree_l1_idx a) = 0"
    and map: "sys_mmap env sizeof_lz_rtree_leaf st = (Some l, st1)"
  defines "st2 \<equiv> st1\<lparr>g_rtree_root := (g_rtree_root st1)(rtree_l1_idx a := l)\<rparr>"
  shows "rtree_inv st2" and "keeps {} st st2" and "\<And>p. lz_rtree_get st2 p = lz_rtree_get st p"
proof -
  note new = sys_mmap_Some [OF ok map]
  have root: "g_rtree_root st1 = g_rtree_root st"
    using sys_mmap_globals [OF map] by (simp add: same_globals_def)
  have k: "keeps {} st st1" by (rule sys_mmap_keeps [OF ok map])
  have valid2: "valid st2 a' = valid st1 a'" for a' by (simp add: valid_def st2_def)
  have fresh: "g_rtree_root st i \<noteq> l" if "unat i < 8192" "g_rtree_root st i \<noteq> 0" for i
    using rtree_inv_leaf_base [OF inv that] new(5) [of l] within_self by auto
  show inv2: "rtree_inv st2"
    unfolding rtree_inv_def
  proof (intro conjI allI impI)
    fix i a' assume i: "unat i < 8192" "g_rtree_root st2 i \<noteq> 0"
      "within (g_rtree_root st2 i) sizeof_lz_rtree_leaf a'"
    show "valid st2 a'"
    proof (cases "i = rtree_l1_idx a")
      case True
      with i(3) have "within l sizeof_lz_rtree_leaf a'" by (simp add: st2_def)
      then show ?thesis using new(5) valid2 by blast
    next
      case False
      with i have "valid st a'" using inv by (auto simp: rtree_inv_def st2_def root)
      then show ?thesis using keeps_valid [OF k] valid2 by blast
    qed
  next
    fix i j assume ij: "unat i < 8192" "unat j < 8192" "g_rtree_root st2 i \<noteq> 0"
      "g_rtree_root st2 i = g_rtree_root st2 j"
    show "i = j"
    proof (cases "i = rtree_l1_idx a \<or> j = rtree_l1_idx a")
      case True
      then show ?thesis using ij fresh new(1) by (auto simp: st2_def root split: if_splits)
    next
      case False
      then show ?thesis using ij inv by (auto simp: rtree_inv_def st2_def root)
    qed
  qed
  show k2: "keeps {} st st2" using k by (simp add: keeps_def same_at_def valid2) (simp add: st2_def)
  have zero: "leaves st2 l = (\<lambda>_. 0)" using new(6) [of l] within_self by (simp add: st2_def)
  show "lz_rtree_get st2 p = lz_rtree_get st p" for p
  proof (cases "rtree_l1_idx p = rtree_l1_idx a")
    case True
    then show ?thesis
      using none zero by (simp add: rtree_get_eq [OF inv] rtree_get_eq [OF inv2]) (simp add: st2_def)
  next
    case False
    then have r: "g_rtree_root st2 (rtree_l1_idx p) = g_rtree_root st (rtree_l1_idx p)"
      by (simp add: st2_def root)
    moreover have "leaves st2 (g_rtree_root st (rtree_l1_idx p)) = leaves st (g_rtree_root st (rtree_l1_idx p))"
      if "g_rtree_root st (rtree_l1_idx p) \<noteq> 0"
      using keepsD(5) [OF k2] rtree_inv_leaf_base [OF inv rtree_idx_bounds(1) that] by blast
    ultimately show ?thesis by (simp add: rtree_get_eq [OF inv] rtree_get_eq [OF inv2])
  qed
qed

lemma rtree_set_spec:
  assumes ok: "mmap_ok env" and inv: "rtree_inv st"
  shows "\<exists>st'. lz_rtree_set env a m st = Some st' \<and> rtree_inv st' \<and>
    keeps {g_rtree_root st (rtree_l1_idx a)} st st' \<and>
    (\<forall>p. lz_rtree_get st' p =
       (if \<not> rtree_refuses env a m st \<and> block_of p = block_of a then Some m else lz_rtree_get st p))"
proof (cases "g_rtree_root st (rtree_l1_idx a) = 0")
  case False
  then show ?thesis
    using store_entry_spec [OF inv False, of m]
    by (auto simp: lz_rtree_set_def rtree_refuses_def)
next
  case none: True
  have root0: "lz_rtree_get st p = Some 0" if "block_of p = block_of a" for p
    using that none rtree_idx_eq_iff [of p a] by (simp add: rtree_get_eq [OF inv])
  show ?thesis
  proof (cases "m = 0")
    case True
    then show ?thesis using none root0 inv by (auto simp: lz_rtree_set_def)
  next
    case m: False
    obtain r st1 where map: "sys_mmap env sizeof_lz_rtree_leaf st = (r, st1)" by fastforce
    have root1: "g_rtree_root st1 = g_rtree_root st"
      using sys_mmap_globals [OF map] by (simp add: same_globals_def)
    note k1 = sys_mmap_keeps [OF ok map]
    show ?thesis
    proof (cases r)
      case None
      then have "rtree_refuses env a m st"
        using map none m by (auto simp: rtree_refuses_def sys_mmap_def split: option.splits)
      moreover have "lz_rtree_set env a m st = Some st1"
        using none m map None by (simp add: lz_rtree_set_def alloc_internal_node_def)
      ultimately show ?thesis
        using rtree_inv_keeps [OF inv k1 root1] rtree_get_keeps [OF inv k1 root1] k1
        by (auto intro: keeps_mono)
    next
      case (Some l)
      define st2 where "st2 = st1\<lparr>g_rtree_root := (g_rtree_root st1)(rtree_l1_idx a := l)\<rparr>"
      note new = sys_mmap_Some [OF ok map [unfolded Some]]
      note linked = link_leaf [OF ok inv none map [unfolded Some], folded st2_def]
      have acc: "\<not> rtree_refuses env a m st"
        using map Some by (auto simp: rtree_refuses_def sys_mmap_def split: option.splits)
      have l: "g_rtree_root st2 (rtree_l1_idx a) = l" by (simp add: st2_def)
      have set: "lz_rtree_set env a m st = store_entry l (rtree_l2_idx a) m st2"
        using none m map Some new(1)
        by (simp add: lz_rtree_set_def alloc_internal_node_def root1 st2_def)
      obtain st' where st': "store_entry l (rtree_l2_idx a) m st2 = Some st'" "rtree_inv st'"
        "keeps {l} st2 st'"
        "\<And>p. lz_rtree_get st' p = (if block_of p = block_of a then Some m else lz_rtree_get st2 p)"
        using store_entry_spec [OF linked(1), of a m] new(1) by (auto simp: l)
      have "\<not> valid st l" using new(5) [of l] by (simp add: within_def)
      then have "keeps {g_rtree_root st (rtree_l1_idx a)} st st'"
        using linked(2) st'(3) by (auto simp: keeps_def same_at_def)
      then show ?thesis using st' set acc linked(3) by simp
    qed
  qed
qed

lemma rtree_set_globals:
  assumes "lz_rtree_set env a m st = Some st'"
  shows "g_lz_global_secret st' = g_lz_global_secret st \<and> g_numa_node_count st' = g_numa_node_count st \<and>
    g_numa_pools st' = g_numa_pools st \<and> g_pool_locks st' = g_pool_locks st \<and>
    g_global_pool_lock st' = g_global_pool_lock st \<and> g_global_free_chunks st' = g_global_free_chunks st \<and>
    tls_tlh_ptr st' = tls_tlh_ptr st \<and> g_thread_counter st' = g_thread_counter st \<and>
    g_zombie_tlhs st' = g_zombie_tlhs st \<and> g_zombie_lock st' = g_zombie_lock st \<and>
    g_telemetry_matrix st' = g_telemetry_matrix st \<and> g_shm_name st' = g_shm_name st \<and>
    g_tlh_key st' = g_tlh_key st \<and> g_base_heap st' = g_base_heap st \<and>
    g_base_offset st' = g_base_offset st \<and> g_lz_ready st' = g_lz_ready st"
  using assms
  by (auto simp: lz_rtree_set_def Let_def alloc_internal_node_def store_entry_def sys_mmap_def sys_munmap_def
      zero_pages_def split: if_splits prod.splits option.splits)

text \<open>Of the memory that was mapped, only the entry of the leaf changes; a new leaf is new memory.\<close>

lemma rtree_set_views:
  assumes ok: "mmap_ok env" and run: "lz_rtree_set env a m st = Some st'" and x: "valid st x"
  shows "mem st' x = mem st x" "hdrs st' x = hdrs st x" "metas st' x = metas st x" "tlhs st' x = tlhs st x"
    "stats st' x = stats st x" "valid st' x"
proof -
  let ?i = "rtree_l1_idx a"
  obtain r st1 where map: "sys_mmap env sizeof_lz_rtree_leaf st = (r, st1)" by fastforce
  have root: "g_rtree_root st1 = g_rtree_root st"
    using sys_mmap_globals [OF map] by (simp add: same_globals_def)
  have k: "keeps {} st st1" by (rule sys_mmap_keeps [OF ok map])
  note k1 = keepsD [OF k x] keeps_valid [OF k x]
  have "mem st' x = mem st x \<and> hdrs st' x = hdrs st x \<and> metas st' x = metas st x \<and> tlhs st' x = tlhs st x \<and>
      stats st' x = stats st x \<and> valid st' x"
  proof (cases "g_rtree_root st ?i = 0 \<and> m \<noteq> 0")
    case True
    then show ?thesis
      using run map k1 root
      by (cases r) (auto simp: lz_rtree_set_def Let_def alloc_internal_node_def store_entry_def valid_def split: if_splits)
  next
    case False
    then show ?thesis
      using run x by (auto simp: lz_rtree_set_def Let_def store_entry_def valid_def split: if_splits)
  qed
  then show "mem st' x = mem st x" "hdrs st' x = hdrs st x" "metas st' x = metas st x" "tlhs st' x = tlhs st x"
    "stats st' x = stats st x" "valid st' x" by blast+
qed

lemma rtree_set_root:
  assumes ok: "mmap_ok env" and run: "lz_rtree_set env a m st = Some st'"
  shows "g_rtree_root st' j = g_rtree_root st j \<or>
    (\<forall>x. within (g_rtree_root st' j) sizeof_lz_rtree_leaf x \<longrightarrow> valid st' x \<and> \<not> valid st x)"
proof -
  let ?i = "rtree_l1_idx a"
  obtain r st1 where map: "sys_mmap env sizeof_lz_rtree_leaf st = (r, st1)" by fastforce
  have root: "g_rtree_root st1 = g_rtree_root st"
    using sys_mmap_globals [OF map] by (simp add: same_globals_def)
  show ?thesis
  proof (cases "g_rtree_root st ?i = 0 \<and> m \<noteq> 0 \<and> r \<noteq> None")
    case True
    then obtain l where l: "r = Some l" by blast
    note new = sys_mmap_Some [OF ok map [unfolded l]]
    have "st' = (let s = st1\<lparr>g_rtree_root := (g_rtree_root st1)(?i := l)\<rparr> in
        s\<lparr>leaves := (leaves s)(l := (leaves s l)(rtree_l2_idx a := m))\<rparr>)"
      using run True map l new(1) root
      by (auto simp: lz_rtree_set_def Let_def alloc_internal_node_def store_entry_def split: if_splits)
    then show ?thesis using new(5) root by (auto simp: Let_def valid_def)
  next
    case False
    then show ?thesis
      using run map root
      by (cases r) (auto simp: lz_rtree_set_def Let_def alloc_internal_node_def store_entry_def split: if_splits)
  qed
qed

lemma rtree_inv_init: "rtree_inv (lz_rtree_init st)"
  by (simp add: lz_rtree_init_def rtree_inv_def word_less_nat_alt)

section \<open>The index as an interface\<close>

text \<open>
  A loop over the 2 MB blocks of a mapping, as \<open>lz_malloc\<close>, \<open>lz_memalign\<close> and \<open>lz_free\<close> run it:
  \<open>for (offset = 0; offset < total; offset += LZ_HUGE_PAGE_SIZE)\<close>.
\<close>

partial_function (option) for_blocks ::
  "(u64 \<Rightarrow> 's \<Rightarrow> 's option) \<Rightarrow> u64 \<Rightarrow> u64 \<Rightarrow> 's \<Rightarrow> 's option" where
  "for_blocks body total_bytes offset s =
     (if offset < total_bytes
      then Option.bind (body offset s) (\<lambda>s. for_blocks body total_bytes (offset + LZ_HUGE_PAGE_SIZE) s)
      else Some s)"

lemma for_blocks_step:
  assumes "j < k" and "k * 2 ^ 21 < 2 ^ 64"
  shows "for_blocks body (of_nat (k * 2 ^ 21)) (of_nat (j * 2 ^ 21)) s =
    Option.bind (body (of_nat (j * 2 ^ 21)) s)
      (for_blocks body (of_nat (k * 2 ^ 21)) (of_nat (Suc j * 2 ^ 21)))"
proof -
  have "j * 2 ^ 21 < k * 2 ^ 21" using assms(1) by simp
  then have "(of_nat (j * 2 ^ 21) :: u64) < of_nat (k * 2 ^ 21)"
    using assms(2) by (simp only: word_less_nat_alt unsigned_of_nat) (simp add: take_bit_nat_eq_self)
  moreover have "of_nat (j * 2 ^ 21) + LZ_HUGE_PAGE_SIZE = of_nat (Suc j * 2 ^ 21)" by simp
  ultimately show ?thesis by (subst for_blocks.simps) (simp add: add.commute)
qed

lemma for_blocks_done: "for_blocks body n n s = Some s"
  by (subst for_blocks.simps) simp

locale chunk_index =
  fixes invar :: "'s \<Rightarrow> bool"
    and lookup :: "'s \<Rightarrow> addr \<Rightarrow> addr option"
    and record_chunk :: "addr \<Rightarrow> addr \<Rightarrow> 's \<Rightarrow> 's option"
    and refuses :: "addr \<Rightarrow> addr \<Rightarrow> 's \<Rightarrow> bool"
  assumes record_total: "invar s \<Longrightarrow> \<exists>s'. record_chunk a m s = Some s' \<and> invar s'"
    and record_lookup: "invar s \<Longrightarrow> record_chunk a m s = Some s' \<Longrightarrow>
      lookup s' p = (if \<not> refuses a m s \<and> block_of p = block_of a then Some m else lookup s p)"
    and clear_accepted: "\<not> refuses a 0 s"
begin

lemma record_get: "invar s \<Longrightarrow> record_chunk a m s = Some s' \<Longrightarrow> \<not> refuses a m s \<Longrightarrow> lookup s' a = Some m"
  by (simp add: record_lookup)

lemma clear_get: "invar s \<Longrightarrow> record_chunk a 0 s = Some s' \<Longrightarrow> lookup s' a = Some 0"
  by (simp add: record_lookup clear_accepted)

lemma record_range_from:
  assumes acc: "\<And>a s. invar s \<Longrightarrow> \<not> refuses a m s" and k: "k * 2 ^ 21 < 2 ^ 64"
  shows "j \<le> k \<Longrightarrow> invar s \<Longrightarrow>
    \<exists>s'. for_blocks (\<lambda>off. record_chunk (base + off) m) (of_nat (k * 2 ^ 21)) (of_nat (j * 2 ^ 21)) s = Some s' \<and>
      invar s' \<and>
      (\<forall>p. lookup s' p = (if \<exists>i. j \<le> i \<and> i < k \<and> block_of p = block_of (base + of_nat (i * 2 ^ 21))
                     then Some m else lookup s p))"
proof (induction "k - j" arbitrary: j s)
  case 0
  then have "j = k" by simp
  then show ?case using 0 by (auto simp: for_blocks_done)
next
  case (Suc n)
  then have j: "j < k" and n: "n = k - Suc j" by simp_all
  obtain s1 where s1: "record_chunk (base + of_nat (j * 2 ^ 21)) m s = Some s1" "invar s1"
    using record_total [OF Suc.prems(2)] by blast
  obtain s' where s': "for_blocks (\<lambda>off. record_chunk (base + off) m) (of_nat (k * 2 ^ 21))
      (of_nat (Suc j * 2 ^ 21)) s1 = Some s'" "invar s'"
    "\<And>p. lookup s' p = (if \<exists>i. Suc j \<le> i \<and> i < k \<and> block_of p = block_of (base + of_nat (i * 2 ^ 21))
                     then Some m else lookup s1 p)"
    using Suc.hyps(1) [OF n Suc_leI [OF j] s1(2)] by blast
  have "lookup s' p = (if \<exists>i. j \<le> i \<and> i < k \<and> block_of p = block_of (base + of_nat (i * 2 ^ 21))
                     then Some m else lookup s p)" for p
  proof -
    have "(\<exists>i. j \<le> i \<and> i < k \<and> block_of p = block_of (base + of_nat (i * 2 ^ 21))) \<longleftrightarrow>
      block_of p = block_of (base + of_nat (j * 2 ^ 21)) \<or>
      (\<exists>i. Suc j \<le> i \<and> i < k \<and> block_of p = block_of (base + of_nat (i * 2 ^ 21)))"
      by (rule ex_from_split [OF j])
    then show ?thesis
      using s'(3) [of p] record_lookup [OF Suc.prems(2) s1(1), of p] acc [OF Suc.prems(2)] by auto
  qed
  then show ?case using s' s1 by (subst for_blocks_step [OF j k]) simp
qed

lemma record_range:
  assumes "\<And>a s. invar s \<Longrightarrow> \<not> refuses a m s" and "k * 2 ^ 21 < 2 ^ 64" and "invar s"
  shows "\<exists>s'. for_blocks (\<lambda>off. record_chunk (base + off) m) (of_nat (k * 2 ^ 21)) 0 s = Some s' \<and> invar s' \<and>
      (\<forall>p. lookup s' p = (if \<exists>i<k. block_of p = block_of (base + of_nat (i * 2 ^ 21))
                     then Some m else lookup s p))"
  using record_range_from [OF assms(1,2), of 0 s base] assms(3) by simp

lemmas clear_range = record_range [where m = 0, OF clear_accepted]

end

interpretation rt: chunk_index
  "\<lambda>st. mmap_ok env \<and> rtree_inv st" lz_rtree_get "lz_rtree_set env" "rtree_refuses env" for env
proof (unfold_locales, goal_cases)
  case (1 s a m)
  then show ?case using rtree_set_spec [of env s a m] by auto
next
  case (2 s a m s' p)
  then show ?case using rtree_set_spec [of env s a m] by auto
next
  case (3 a s)
  then show ?case by (simp add: rtree_refuses_def)
qed

section \<open>Properties\<close>

text \<open>
  C17. What the index promises its clients. Recording a chunk always returns (no fault) and keeps
  the tree well formed; unless a leaf was missing and could not be mapped, every pointer into the
  same 2 MB block then resolves to the recorded header and every other pointer resolves as before.
\<close>

theorem rtree_lookup_after_set:
  assumes "mmap_ok env" and "rtree_inv st" and "\<not> rtree_refuses env a m st"
  shows "\<exists>st'. lz_rtree_set env a m st = Some st' \<and> rtree_inv st' \<and>
    (\<forall>p. lz_rtree_get st' p = (if block_of p = block_of a then Some m else lz_rtree_get st p))"
  using rt.record_total [of env st a m] rt.record_lookup [of env st a m] assms by auto

theorem rtree_lookup_after_set_witness:
  "mmap_ok bump_os \<and> rtree_inv (lz_rtree_init boot_state) \<and>
   \<not> rtree_refuses bump_os 0x7f0000200000 0x7f0000200000 (lz_rtree_init boot_state) \<and>
   (\<exists>st'. lz_rtree_set bump_os 0x7f0000200000 0x7f0000200000 (lz_rtree_init boot_state) = Some st' \<and>
     (\<forall>p. lz_rtree_get st' p =
        (if block_of p = block_of 0x7f0000200000 then Some 0x7f0000200000
         else lz_rtree_get (lz_rtree_init boot_state) p)))"
proof -
  have r: "\<not> rtree_refuses bump_os 0x7f0000200000 0x7f0000200000 (lz_rtree_init boot_state)"
    by (simp add: rtree_refuses_def bump_os_def lz_rtree_init_def boot_state_def)
  show ?thesis
    using rtree_lookup_after_set [OF bump_os_ok rtree_inv_init r] bump_os_ok rtree_inv_init r by blast
qed

text \<open>
  C18. Clearing undoes recording: after a chunk has been recorded and cleared again, every pointer
  resolves as it did before, provided the block had no entry; a pointer into the block resolves to
  NULL. Clearing never needs memory, so it cannot be refused.
\<close>

theorem rtree_clear_after_set:
  assumes "mmap_ok env" and "rtree_inv st" and "lz_rtree_get st a = Some 0"
  shows "\<exists>st' st''. lz_rtree_set env a m st = Some st' \<and> lz_rtree_clear env a st' = Some st'' \<and>
    rtree_inv st'' \<and> (\<forall>p. lz_rtree_get st'' p = lz_rtree_get st p)"
proof -
  obtain st' where st': "lz_rtree_set env a m st = Some st'" "rtree_inv st'"
    using rt.record_total [of env st a m] assms(1,2) by auto
  obtain st'' where st'': "lz_rtree_set env a 0 st' = Some st''" "rtree_inv st''"
    using rt.record_total [of env st' a 0] assms(1) st'(2) by auto
  have "lz_rtree_get st'' p = lz_rtree_get st p" for p
  proof -
    have "lz_rtree_get st p = Some 0" if "block_of p = block_of a"
      using that assms(3) rtree_idx_eq_iff [of p a] by (simp add: lz_rtree_get_def)
    then show ?thesis
      using rt.record_lookup [of env st' a 0 st'' p] rt.record_lookup [of env st a m st' p]
        rt.clear_accepted st' st'' assms(1,2) by auto
  qed
  then show ?thesis using st' st'' by (auto simp: lz_rtree_clear_def)
qed

theorem rtree_clear_after_set_witness:
  "mmap_ok bump_os \<and> rtree_inv (lz_rtree_init boot_state) \<and>
   lz_rtree_get (lz_rtree_init boot_state) 0x400000 = Some 0 \<and>
   (\<exists>st' st''. lz_rtree_set bump_os 0x400000 0x400000 (lz_rtree_init boot_state) = Some st' \<and>
     lz_rtree_clear bump_os 0x400000 st' = Some st'' \<and>
     (\<forall>p. lz_rtree_get st'' p = lz_rtree_get (lz_rtree_init boot_state) p))"
proof -
  have g: "lz_rtree_get (lz_rtree_init boot_state) 0x400000 = Some 0"
    by (simp add: rtree_get_eq [OF rtree_inv_init]) (simp add: lz_rtree_init_def boot_state_def)
  show ?thesis
    using rtree_clear_after_set [OF bump_os_ok rtree_inv_init g, of "0x400000"] bump_os_ok rtree_inv_init g
    by blast
qed

text \<open>
  C19. The index is exact on 48-bit addresses: two addresses below \<open>2 ^ 48\<close> have the same pair of
  indices, the root entry and the leaf entry, exactly when they lie in the same 2 MB block, both
  indices are inside their arrays of 8192 and 16384 entries, and masking the offset of a pointer
  never changes what it resolves to.
\<close>

theorem rtree_block_exact:
  assumes "unat p < 2 ^ 48" and "unat q < 2 ^ 48"
  shows "(rtree_l1_idx p = rtree_l1_idx q \<and> rtree_l2_idx p = rtree_l2_idx q \<longleftrightarrow>
      unat p div 2 ^ 21 = unat q div 2 ^ 21) \<and>
    unat (rtree_l1_idx p) < 8192 \<and> unat (rtree_l2_idx p) < 16384 \<and>
    lz_rtree_get st (p AND NOT (mask LZ_CHUNK_SHIFT)) = lz_rtree_get st p"
proof -
  have "block_of (p AND NOT (mask LZ_CHUNK_SHIFT)) = block_of p"
    by (rule bit_word_eqI) (auto simp: block_of_def bit_simps)
  then have get: "lz_rtree_get st (p AND NOT (mask LZ_CHUNK_SHIFT)) = lz_rtree_get st p"
    using rtree_idx_eq_iff [of "p AND NOT (mask LZ_CHUNK_SHIFT)" p] by (simp add: lz_rtree_get_def)
  have "p AND NOT (mask LZ_CHUNK_SHIFT) = q AND NOT (mask LZ_CHUNK_SHIFT) \<longleftrightarrow> drop_bit 21 p = drop_bit 21 q"
  proof
    assume eq: "p AND NOT (mask LZ_CHUNK_SHIFT) = q AND NOT (mask LZ_CHUNK_SHIFT)"
    have "drop_bit 21 (w AND NOT (mask LZ_CHUNK_SHIFT)) = drop_bit 21 w" for w :: u64
      by (rule bit_word_eqI) (auto simp: bit_simps dest: bit_imp_le_length)
    then show "drop_bit 21 p = drop_bit 21 q" using eq by metis
  next
    assume eq: "drop_bit 21 p = drop_bit 21 q"
    have "push_bit 21 (drop_bit 21 w) = w AND NOT (mask LZ_CHUNK_SHIFT)" for w :: u64
      by (rule bit_word_eqI) (auto simp: bit_simps)
    then show "p AND NOT (mask LZ_CHUNK_SHIFT) = q AND NOT (mask LZ_CHUNK_SHIFT)" using eq by metis
  qed
  moreover have "drop_bit 21 p = drop_bit 21 q \<longleftrightarrow> unat p div 2 ^ 21 = unat q div 2 ^ 21"
    by (simp only: word_unat_eq_iff unat_drop_bit_eq) (simp only: drop_bit_eq_div)
  ultimately show ?thesis
    using get rtree_idx_eq_iff [of p q] block_of_eq_iff [OF assms] rtree_idx_bounds [of p]
    by (simp add: word_less_nat_alt)
qed

theorem rtree_block_exact_witness:
  "unat (0x7f0000212345 :: addr) < 2 ^ 48 \<and> unat (0x7f0000400000 :: addr) < 2 ^ 48 \<and>
   \<not> (rtree_l1_idx 0x7f0000212345 = rtree_l1_idx 0x7f0000400000 \<and> rtree_l2_idx 0x7f0000212345 = rtree_l2_idx 0x7f0000400000)"
  using rtree_block_exact [of "0x7f0000212345" "0x7f0000400000"] by simp

end
