(* ===== verification/Chains.thy ===== *)
theory Chains
  imports LZ_Prelude
begin

text \<open>
  Linked lists in memory. A structure that holds a \<open>next\<close> pointer is read through a function from
  its address to the address of its successor; \<open>chain nx p xs\<close> says that following \<open>nx\<close> from \<open>p\<close>
  visits exactly \<open>xs\<close> and ends in NULL. Doubly linked lists add the \<open>prev\<close> pointers.
\<close>

section \<open>Singly linked lists\<close>

primrec chain :: "(addr \<Rightarrow> addr) \<Rightarrow> addr \<Rightarrow> addr list \<Rightarrow> bool" where
  "chain nx p [] \<longleftrightarrow> p = 0"
| "chain nx p (x # xs) \<longleftrightarrow> p = x \<and> x \<noteq> 0 \<and> chain nx (nx x) xs"

lemma chain_null [simp]: "chain nx 0 xs \<longleftrightarrow> xs = []"
  by (cases xs) auto

lemma chain_nonnull: "p \<noteq> 0 \<Longrightarrow> chain nx p xs \<longleftrightarrow> (\<exists>ys. xs = p # ys \<and> chain nx (nx p) ys)"
  by (cases xs) auto

lemma chain_cong: "(\<And>x. x \<in> set xs \<Longrightarrow> nx' x = nx x) \<Longrightarrow> chain nx' p xs \<longleftrightarrow> chain nx p xs"
  by (induction xs arbitrary: p) auto

lemma chain_upd [simp]: "a \<notin> set xs \<Longrightarrow> chain (nx(a := v)) p xs \<longleftrightarrow> chain nx p xs"
  by (rule chain_cong) auto

lemma chain_unique: "chain nx p xs \<Longrightarrow> chain nx p ys \<Longrightarrow> xs = ys"
proof (induction xs arbitrary: p ys)
  case (Cons x xs)
  then show ?case by (cases ys) auto
qed simp

lemma chain_append:
  "chain nx p (xs @ y # ys) \<Longrightarrow> chain nx y (y # ys)"
  by (induction xs arbitrary: p) auto

lemma chain_distinct: "chain nx p xs \<Longrightarrow> distinct xs"
proof (induction xs arbitrary: p)
  case (Cons x xs)
  have "x \<notin> set xs"
  proof
    assume "x \<in> set xs"
    then obtain us vs where xs: "xs = us @ x # vs" by (meson split_list)
    have "chain nx (nx x) xs" using Cons.prems by simp
    then have "chain nx x (x # vs)" unfolding xs by (rule chain_append)
    then have "x # vs = x # xs" using Cons.prems chain_unique by auto
    then show False using xs by simp
  qed
  then show ?case using Cons by auto
qed simp

lemma chain_not_null: "chain nx p xs \<Longrightarrow> x \<in> set xs \<Longrightarrow> x \<noteq> 0"
  by (induction xs arbitrary: p) auto

section \<open>Doubly linked lists\<close>

text \<open>\<open>dll nx pv q p xs\<close>: from \<open>p\<close>, whose predecessor is \<open>q\<close>, the list is \<open>xs\<close>.\<close>

primrec dll :: "(addr \<Rightarrow> addr) \<Rightarrow> (addr \<Rightarrow> addr) \<Rightarrow> addr \<Rightarrow> addr \<Rightarrow> addr list \<Rightarrow> bool" where
  "dll nx pv q p [] \<longleftrightarrow> p = 0"
| "dll nx pv q p (x # xs) \<longleftrightarrow> p = x \<and> x \<noteq> 0 \<and> pv x = q \<and> dll nx pv x (nx x) xs"

lemma dll_chain: "dll nx pv q p xs \<Longrightarrow> chain nx p xs"
  by (induction xs arbitrary: p q) auto

lemma dll_null [simp]: "dll nx pv q 0 xs \<longleftrightarrow> xs = []"
  by (cases xs) auto

lemma dll_cong:
  "(\<And>x. x \<in> set xs \<Longrightarrow> nx' x = nx x \<and> pv' x = pv x) \<Longrightarrow> dll nx' pv' q p xs \<longleftrightarrow> dll nx pv q p xs"
  by (induction xs arbitrary: p q) auto

lemma dll_distinct: "dll nx pv q p xs \<Longrightarrow> distinct xs"
  using dll_chain chain_distinct by blast

lemma dll_not_null: "dll nx pv q p xs \<Longrightarrow> x \<in> set xs \<Longrightarrow> x \<noteq> 0"
  using dll_chain chain_not_null by blast

end
