(* ===== verification/Vmm.thy ===== *)
theory Vmm
  imports LZ_Machine Chains
begin

text \<open>
  The NUMA pools and the virtual memory manager: \<open>src/src/internal/topology.c\<close> and
  \<open>src/src/engines/vmm.c\<close>.

  Idle 2 MB chunks live on sixteen per-node stacks (at most 32 chunks each) and one global stack,
  linked through \<open>ch_next\<close>. Allocation takes the top of the current node's stack, then of the global
  stack, then carves a new 64 MB extent out of the system. A spinlock taken twice in a row never
  returns, so an operation that forgot to release one would make the next one \<open>None\<close>.
\<close>

section \<open>Topology\<close>

definition lz_topology_init :: "lz_state \<Rightarrow> lz_state" where
  "lz_topology_init st = st\<lparr>g_numa_node_count := 1,
     g_numa_pools := (\<lambda>i. if i < LZ_MAX_NUMA_NODES then zero_pool else g_numa_pools st i)\<rparr>"

definition lz_topology_get_node_count :: "lz_state \<Rightarrow> u32" where
  "lz_topology_get_node_count st = g_numa_node_count st"

definition lz_get_current_node :: "os_env \<Rightarrow> lz_state \<Rightarrow> nat \<times> lz_state" where
  "lz_get_current_node env st =
     (case sys_getcpu env st of
        (Some (cpu, node), st) \<Rightarrow> (if unat node < LZ_MAX_NUMA_NODES then unat node else 0, st)
      | (None, st) \<Rightarrow> (0, st))"

text \<open>The pool of a node is identified by its index in \<open>g_numa_pools\<close>.\<close>

definition lz_topology_get_pool :: "nat \<Rightarrow> nat" where
  "lz_topology_get_pool node_id = (if node_id \<ge> LZ_MAX_NUMA_NODES then 0 else node_id)"

section \<open>Locks\<close>

text \<open>
  \<open>while (test_and_set) relax\<close>: run alone, the loop ends at once when the flag is clear and never
  when it is set. An index beyond the array of locks is a fault.
\<close>

definition pool_lock :: "nat \<Rightarrow> lz_state \<Rightarrow> lz_state option" where
  "pool_lock node_id st =
     (if node_id < LZ_MAX_NUMA_NODES \<and> \<not> g_pool_locks st node_id
      then Some (st\<lparr>g_pool_locks := (g_pool_locks st)(node_id := True)\<rparr>) else None)"

definition pool_unlock :: "nat \<Rightarrow> lz_state \<Rightarrow> lz_state option" where
  "pool_unlock node_id st =
     (if node_id < LZ_MAX_NUMA_NODES
      then Some (st\<lparr>g_pool_locks := (g_pool_locks st)(node_id := False)\<rparr>) else None)"

definition global_pool_lock :: "lz_state \<Rightarrow> lz_state option" where
  "global_pool_lock st =
     (if g_global_pool_lock st then None else Some (st\<lparr>g_global_pool_lock := True\<rparr>))"

definition global_pool_unlock :: "lz_state \<Rightarrow> lz_state option" where
  "global_pool_unlock st = Some (st\<lparr>g_global_pool_lock := False\<rparr>)"

section \<open>Extents\<close>

abbreviation (input) LZ_EXTENT_CHUNKS :: nat where "LZ_EXTENT_CHUNKS \<equiv> 32"
abbreviation (input) LZ_EXTENT_SIZE :: u64 where "LZ_EXTENT_SIZE \<equiv> 67108864"

definition global_push :: "addr \<Rightarrow> lz_state \<Rightarrow> lz_state option" where
  "global_push chunk st = do {
     st \<leftarrow> upd_hdr chunk (ch_next_update (\<lambda>_. g_global_free_chunks st)) st;
     Some (st\<lparr>g_global_free_chunks := chunk\<rparr>) }"

fun push_extent :: "addr \<Rightarrow> nat list \<Rightarrow> lz_state \<Rightarrow> lz_state option" where
  "push_extent aligned_addr [] st = Some st"
| "push_extent aligned_addr (i # is) st = do {
     st \<leftarrow> global_push (aligned_addr + of_nat i * LZ_HUGE_PAGE_SIZE) st;
     push_extent aligned_addr is st }"

definition trim_extent :: "addr \<Rightarrow> u64 \<Rightarrow> lz_state \<Rightarrow> addr \<times> lz_state" where
  "trim_extent raw_addr request_size st =
     (if raw_addr AND (LZ_HUGE_PAGE_SIZE - 1) \<noteq> 0 then
        let aligned_addr = LZ_ALIGN_UP raw_addr LZ_HUGE_PAGE_SIZE;
            prefix_size = aligned_addr - raw_addr;
            suffix_size = request_size - prefix_size - LZ_EXTENT_SIZE;
            st = (if prefix_size > 0 then sys_munmap raw_addr prefix_size st else st);
            st = (if suffix_size > 0 then sys_munmap (aligned_addr + LZ_EXTENT_SIZE) suffix_size st else st)
        in (aligned_addr, st)
      else (raw_addr, sys_munmap (raw_addr + LZ_EXTENT_SIZE) LZ_HUGE_PAGE_SIZE st))"

definition sys_alloc_extent :: "os_env \<Rightarrow> lz_state \<Rightarrow> lz_state option" where
  "sys_alloc_extent env st =
     (let request_size = LZ_EXTENT_SIZE + LZ_HUGE_PAGE_SIZE in
      case sys_mmap env request_size st of
        (None, st) \<Rightarrow> Some st
      | (Some raw_addr, st) \<Rightarrow>
         (let (aligned_addr, st) = trim_extent raw_addr request_size st;
              st = sys_madvise aligned_addr LZ_EXTENT_SIZE MADV_HUGEPAGE st
          in do {
            st \<leftarrow> global_pool_lock st;
            st \<leftarrow> push_extent aligned_addr [0..<LZ_EXTENT_CHUNKS] st;
            global_pool_unlock st }))"

section \<open>Chunks\<close>

definition lz_vmm_init :: "lz_state \<Rightarrow> lz_state" where
  "lz_vmm_init st =
     (let st = lz_topology_init st;
          st = st\<lparr>g_pool_locks := (\<lambda>i. if i < LZ_MAX_NUMA_NODES then False else g_pool_locks st i)\<rparr>
      in st\<lparr>g_global_pool_lock := False\<rparr>)"

definition pool_pop :: "nat \<Rightarrow> lz_state \<Rightarrow> (addr \<times> lz_state) option" where
  "pool_pop pool st =
     (let p = g_numa_pools st pool; top = free_chunks p in
      if top \<noteq> 0 then do {
        h \<leftarrow> get_hdr st top;
        Some (top, st\<lparr>g_numa_pools := (g_numa_pools st)(pool :=
                p\<lparr>free_chunks := ch_next h, available_count := available_count p - 1\<rparr>)\<rparr>) }
      else Some (0, st))"

definition global_pop :: "lz_state \<Rightarrow> (addr \<times> lz_state) option" where
  "global_pop st =
     (if g_global_free_chunks st \<noteq> 0 then do {
        h \<leftarrow> get_hdr st (g_global_free_chunks st);
        Some (g_global_free_chunks st, st\<lparr>g_global_free_chunks := ch_next h\<rparr>) }
      else Some (0, st))"

definition lz_vmm_alloc_chunk :: "os_env \<Rightarrow> lz_state \<Rightarrow> (addr \<times> lz_state) option" where
  "lz_vmm_alloc_chunk env st =
     (let (current_node, st) = lz_get_current_node env st;
          pool = lz_topology_get_pool current_node in do {
        st \<leftarrow> pool_lock current_node st;
        (chunk, st) \<leftarrow> pool_pop pool st;
        st \<leftarrow> pool_unlock current_node st;
        if chunk \<noteq> 0 then do {
          st \<leftarrow> upd_hdr chunk (ch_next_update (\<lambda>_. 0)) st;
          Some (chunk, st) }
        else do {
          st \<leftarrow> global_pool_lock st;
          st \<leftarrow> (if g_global_free_chunks st = 0 then do {
                    st \<leftarrow> global_pool_unlock st;
                    st \<leftarrow> sys_alloc_extent env st;
                    global_pool_lock st }
                 else Some st);
          (chunk, st) \<leftarrow> global_pop st;
          st \<leftarrow> global_pool_unlock st;
          if chunk = 0 then Some (0, st)
          else do {
            st \<leftarrow> upd_hdr chunk (\<lambda>h. h\<lparr>ch_next := 0, ch_owning_tlh := 0,
                     ch_node_id := of_nat current_node, ch_magic := LZ_CHUNK_MAGIC_V2,
                     ch_canary := 0, ch_checksum := 0\<rparr>) st;
            Some (chunk, st) } } })"

definition release_payload :: "addr \<Rightarrow> lz_state \<Rightarrow> lz_state" where
  "release_payload chunk st =
     (let payload_start = chunk + LZ_PAGE_SIZE; payload_size = LZ_HUGE_PAGE_SIZE - LZ_PAGE_SIZE
      in sys_madvise payload_start payload_size MADV_DONTNEED st)"

definition global_insert :: "addr \<Rightarrow> lz_state \<Rightarrow> lz_state option" where
  "global_insert chunk st = do {
     st \<leftarrow> global_pool_lock st;
     st \<leftarrow> global_push chunk st;
     global_pool_unlock st }"

definition lz_vmm_free_chunk :: "addr \<Rightarrow> lz_state \<Rightarrow> lz_state option" where
  "lz_vmm_free_chunk chunk st =
     (if chunk = 0 then Some st
      else do {
        h \<leftarrow> get_hdr st chunk;
        if ch_magic h \<noteq> LZ_CHUNK_MAGIC_V2 then Some st
        else let target_node = unat (ch_node_id h); pool = lz_topology_get_pool target_node in do {
          st \<leftarrow> pool_lock target_node st;
          (return_to_global, st) \<leftarrow>
            (let p = g_numa_pools st pool in
             if available_count p < LZ_VMM_MAX_CACHED_CHUNKS then do {
               st \<leftarrow> upd_hdr chunk (ch_next_update (\<lambda>_. free_chunks p)) st;
               Some (False, st\<lparr>g_numa_pools := (g_numa_pools st)(pool :=
                       p\<lparr>free_chunks := chunk, available_count := available_count p + 1\<rparr>)\<rparr>) }
             else Some (True, st));
          st \<leftarrow> pool_unlock target_node st;
          if return_to_global then global_insert chunk (release_payload chunk st) else Some st } })"

section \<open>Deflation\<close>

partial_function (option) purge_drain :: "addr \<Rightarrow> lz_state \<Rightarrow> lz_state option" where
  "purge_drain chunk st =
     (if chunk = 0 then Some st
      else do {
        h \<leftarrow> get_hdr st chunk;
        let nxt = ch_next h;
        st \<leftarrow> global_insert chunk (release_payload chunk st);
        purge_drain nxt st })"

fun purge_nodes :: "nat list \<Rightarrow> lz_state \<Rightarrow> lz_state option" where
  "purge_nodes [] st = Some st"
| "purge_nodes (i # is) st =
     (let pool = lz_topology_get_pool i in do {
        st \<leftarrow> pool_lock i st;
        let chunk = free_chunks (g_numa_pools st pool);
        st \<leftarrow> pool_unlock i (st\<lparr>g_numa_pools := (g_numa_pools st)(pool := zero_pool)\<rparr>);
        st \<leftarrow> purge_drain chunk st;
        purge_nodes is st })"

definition lz_vmm_purge_all_caches :: "lz_state \<Rightarrow> lz_state option" where
  "lz_vmm_purge_all_caches st = purge_nodes [0..<LZ_MAX_NUMA_NODES] st"

section \<open>The invariant of the pools\<close>

definition hnext :: "lz_state \<Rightarrow> addr \<Rightarrow> addr" where
  "hnext st a = ch_next (hdrs st a)"

text \<open>A 2 MB block of mapped memory, aligned to its size.\<close>

definition chunk_at :: "lz_state \<Rightarrow> addr \<Rightarrow> bool" where
  "chunk_at st c \<longleftrightarrow> c \<noteq> 0 \<and> c AND mask LZ_CHUNK_SHIFT = 0 \<and> unat c + 2 ^ 21 \<le> 2 ^ 47 \<and>
     (\<forall>a. within c LZ_HUGE_PAGE_SIZE a \<longrightarrow> valid st a)"

text \<open>
  The idle chunks: \<open>P n\<close> lists the stack of node \<open>n\<close>, \<open>G\<close> the global stack, top first.
\<close>

type_synonym pools = "(nat \<Rightarrow> addr list) \<times> addr list"

definition idle :: "pools \<Rightarrow> addr set" where
  "idle PG = (\<Union>n<LZ_MAX_NUMA_NODES. set (fst PG n)) \<union> set (snd PG)"

definition pool_inv :: "lz_state \<Rightarrow> nat \<Rightarrow> addr list \<Rightarrow> bool" where
  "pool_inv st n cs \<longleftrightarrow> chain (hnext st) (free_chunks (g_numa_pools st n)) cs \<and>
     available_count (g_numa_pools st n) = of_nat (length cs) \<and> length cs \<le> 32 \<and>
     (\<forall>c\<in>set cs. ch_magic (hdrs st c) = LZ_CHUNK_MAGIC_V2 \<and> ch_node_id (hdrs st c) = of_nat n)"

definition disjoint_pools :: "pools \<Rightarrow> bool" where
  "disjoint_pools PG \<longleftrightarrow>
     (\<forall>m<LZ_MAX_NUMA_NODES. \<forall>n<LZ_MAX_NUMA_NODES. m \<noteq> n \<longrightarrow> set (fst PG m) \<inter> set (fst PG n) = {}) \<and>
     (\<forall>n<LZ_MAX_NUMA_NODES. set (fst PG n) \<inter> set (snd PG) = {})"

definition locks_free :: "lz_state \<Rightarrow> bool" where
  "locks_free st \<longleftrightarrow> (\<forall>n<LZ_MAX_NUMA_NODES. \<not> g_pool_locks st n) \<and> \<not> g_global_pool_lock st"

definition vmm_inv :: "lz_state \<Rightarrow> pools \<Rightarrow> bool" where
  "vmm_inv st PG \<longleftrightarrow>
     (\<forall>n<LZ_MAX_NUMA_NODES. pool_inv st n (fst PG n)) \<and>
     chain (hnext st) (g_global_free_chunks st) (snd PG) \<and>
     disjoint_pools PG \<and> (\<forall>c\<in>idle PG. chunk_at st c) \<and> locks_free st"

lemma chunk_at_valid: "chunk_at st c \<Longrightarrow> valid st c"
  by (simp add: chunk_at_def within_def)

lemma chunk_at_keeps: "chunk_at st c \<Longrightarrow> keeps C st st' \<Longrightarrow> chunk_at st' c"
  by (auto simp: chunk_at_def intro: keeps_valid)

lemma idle_pool: "n < 16 \<Longrightarrow> c \<in> set (fst PG n) \<Longrightarrow> c \<in> idle PG"
  by (auto simp: idle_def)

lemma idle_global: "c \<in> set (snd PG) \<Longrightarrow> c \<in> idle PG"
  by (simp add: idle_def)

lemma vmm_invD:
  assumes "vmm_inv st PG"
  shows "n < 16 \<Longrightarrow> pool_inv st n (fst PG n)"
    and "chain (hnext st) (g_global_free_chunks st) (snd PG)"
    and "disjoint_pools PG" and "c \<in> idle PG \<Longrightarrow> chunk_at st c" and "locks_free st"
  using assms by (auto simp: vmm_inv_def)

text \<open>The part of the state the manager reads: the headers of the idle chunks, the pools, the locks.\<close>

lemma vmm_inv_frame:
  assumes inv: "vmm_inv st PG" and k: "keeps C st st'" and C: "C \<inter> idle PG = {}"
    and g: "g_numa_pools st' = g_numa_pools st" "g_global_free_chunks st' = g_global_free_chunks st"
      "locks_free st'"
  shows "vmm_inv st' PG"
proof -
  have h: "hdrs st' c = hdrs st c" if "c \<in> idle PG" for c
    using keepsD(2) [OF k chunk_at_valid [OF vmm_invD(4) [OF inv that]]] that C by blast
  have "pool_inv st' n (fst PG n)" if "n < 16" for n
  proof -
    have "chain (hnext st') q (fst PG n) = chain (hnext st) q (fst PG n)" for q
      by (rule chain_cong) (simp add: hnext_def h idle_pool [OF that])
    moreover have "hdrs st' c = hdrs st c" if "c \<in> set (fst PG n)" for c
      using h idle_pool [OF \<open>n < 16\<close> that] by blast
    ultimately show ?thesis using vmm_invD(1) [OF inv that] g(1) by (simp add: pool_inv_def)
  qed
  moreover have "chain (hnext st') q (snd PG) = chain (hnext st) q (snd PG)" for q
    by (rule chain_cong) (simp add: hnext_def h idle_global)
  ultimately show ?thesis
    using vmm_invD [OF inv] chunk_at_keeps [OF _ k] g by (auto simp: vmm_inv_def)
qed

lemma vmm_inv_init:
  "vmm_inv (lz_vmm_init st) ((\<lambda>_. []), [])" if "g_global_free_chunks st = 0"
  using that by (auto simp: vmm_inv_def lz_vmm_init_def lz_topology_init_def Let_def pool_inv_def
      zero_pool_def disjoint_pools_def idle_def locks_free_def)

section \<open>Taking a chunk off a stack\<close>

lemma upd_hdr_valid: "valid st a \<Longrightarrow> upd_hdr a f st = Some (st\<lparr>hdrs := (hdrs st)(a := f (hdrs st a))\<rparr>)"
  by (simp add: upd_hdr_def)

lemma keeps_hdr: "keeps {a} st (st\<lparr>hdrs := (hdrs st)(a := h)\<rparr>)"
  by (simp add: keeps_def same_at_def valid_def)

lemma pool_take:
  assumes inv: "vmm_inv st (P, G)" and n: "n < 16" and P: "P n = c # cs"
  defines "st' \<equiv> st\<lparr>g_numa_pools := (g_numa_pools st)(n := (g_numa_pools st n)
     \<lparr>free_chunks := ch_next (hdrs st c), available_count := available_count (g_numa_pools st n) - 1\<rparr>)\<rparr>"
  shows "vmm_inv st' (P(n := cs), G)" and "c \<notin> idle (P(n := cs), G)" and "chunk_at st c"
    and "free_chunks (g_numa_pools st n) = c" and "c \<noteq> 0"
    and "ch_magic (hdrs st c) = LZ_CHUNK_MAGIC_V2" and "ch_node_id (hdrs st c) = of_nat n"
proof -
  have pi: "pool_inv st n (c # cs)" using vmm_invD(1) [OF inv n] P by simp
  have d: "disjoint_pools (P, G)" by (rule vmm_invD(3) [OF inv])
  show c: "chunk_at st c" using vmm_invD(4) [OF inv, of c] idle_pool [OF n, of c "(P, G)"] P by simp
  show "free_chunks (g_numa_pools st n) = c" "c \<noteq> 0" "ch_magic (hdrs st c) = LZ_CHUNK_MAGIC_V2"
    "ch_node_id (hdrs st c) = of_nat n" using pi by (auto simp: pool_inv_def)
  have "chain (hnext st) (free_chunks (g_numa_pools st n)) (c # cs)" using pi by (simp only: pool_inv_def)
  from chain_distinct [OF this] have notin: "c \<notin> set cs" by simp
  have sub: "set ((P(n := cs)) m) \<subseteq> set (P m)" for m using P by auto
  show "c \<notin> idle (P(n := cs), G)"
    using notin d n P unfolding idle_def disjoint_pools_def by (auto split: if_splits)
  have "pool_inv st' m ((P(n := cs)) m)" if "m < 16" for m
  proof (cases "m = n")
    case True
    then show ?thesis using pi by (auto simp: pool_inv_def st'_def hnext_def [abs_def])
  next
    case False
    then show ?thesis using vmm_invD(1) [OF inv that] by (simp add: pool_inv_def st'_def hnext_def [abs_def])
  qed
  moreover have "disjoint_pools (P(n := cs), G)"
    using d sub unfolding disjoint_pools_def fst_conv snd_conv by blast
  moreover have "idle (P(n := cs), G) \<subseteq> idle (P, G)" using sub unfolding idle_def by fastforce
  ultimately show "vmm_inv st' (P(n := cs), G)"
    using vmm_invD [OF inv]
    by (auto simp: vmm_inv_def chunk_at_def locks_free_def st'_def hnext_def [abs_def] valid_def)
qed

lemma global_take:
  assumes inv: "vmm_inv st (P, c # G)"
  shows "vmm_inv (st\<lparr>g_global_free_chunks := ch_next (hdrs st c)\<rparr>) (P, G)" and "c \<notin> idle (P, G)"
    and "chunk_at st c" and "g_global_free_chunks st = c" and "c \<noteq> 0"
proof -
  have d: "disjoint_pools (P, c # G)" by (rule vmm_invD(3) [OF inv])
  have ch: "chain (hnext st) (g_global_free_chunks st) (c # G)" using vmm_invD(2) [OF inv] by simp
  show "chunk_at st c" using vmm_invD(4) [OF inv, of c] by (simp add: idle_def)
  show "g_global_free_chunks st = c" "c \<noteq> 0" using ch by auto
  have "c \<notin> set G" using chain_distinct [OF ch] by simp
  then show "c \<notin> idle (P, G)" using d by (auto simp: idle_def disjoint_pools_def)
  show "vmm_inv (st\<lparr>g_global_free_chunks := ch_next (hdrs st c)\<rparr>) (P, G)"
    using inv by (auto simp: vmm_inv_def pool_inv_def disjoint_pools_def idle_def chunk_at_def
        locks_free_def hnext_def [abs_def] valid_def)
qed

section \<open>Putting a chunk on a stack\<close>

lemma pool_put:
  assumes inv: "vmm_inv st (P, G)" and n: "n < 16" and c: "chunk_at st c" "c \<notin> idle (P, G)"
    and len: "length (P n) < 32"
    and h: "ch_magic (hdrs st c) = LZ_CHUNK_MAGIC_V2" "ch_node_id (hdrs st c) = of_nat n"
  defines "p \<equiv> g_numa_pools st n"
  defines "st' \<equiv> st\<lparr>hdrs := (hdrs st)(c := (hdrs st c)\<lparr>ch_next := free_chunks p\<rparr>),
     g_numa_pools := (g_numa_pools st)(n := p\<lparr>free_chunks := c, available_count := available_count p + 1\<rparr>)\<rparr>"
  shows "vmm_inv st' (P(n := c # P n), G)"
proof -
  have c0: "c \<noteq> 0" using c(1) by (simp add: chunk_at_def)
  have cP: "c \<notin> set (P m)" if "m < 16" for m using c(2) idle_pool [OF that, of c "(P, G)"] by auto
  have cG: "c \<notin> set G" using c(2) idle_global [of c "(P, G)"] by auto
  have nx: "hnext st' = (hnext st)(c := free_chunks p)" by (auto simp: hnext_def st'_def)
  have "pool_inv st' m ((P(n := c # P n)) m)" if "m < 16" for m
  proof (cases "m = n")
    case True
    have pi: "pool_inv st n (P n)" using vmm_invD(1) [OF inv n] by simp
    have "hdrs st' x = hdrs st x" if "x \<in> set (P n)" for x using cP [OF n] that by (auto simp: st'_def)
    then show ?thesis using True pi cP [OF n] c0 len h
      by (auto simp: pool_inv_def nx) (auto simp: st'_def p_def)
  next
    case False
    have "hdrs st' x = hdrs st x" if "x \<in> set (P m)" for x using cP [OF \<open>m < 16\<close>] that by (auto simp: st'_def)
    then show ?thesis using False vmm_invD(1) [OF inv that] cP [OF that]
      by (simp add: pool_inv_def nx) (simp add: st'_def)
  qed
  moreover have "chain (hnext st') (g_global_free_chunks st') G"
    using vmm_invD(2) [OF inv] cG by (simp add: nx) (simp add: st'_def)
  moreover have "disjoint_pools (P(n := c # P n), G)"
    using vmm_invD(3) [OF inv] cP cG unfolding disjoint_pools_def by (auto split: if_splits)
  moreover have "chunk_at st' x" if "x \<in> idle (P(n := c # P n), G)" for x
  proof -
    have "x \<in> insert c (idle (P, G))" using that by (auto simp: idle_def split: if_splits)
    then show ?thesis using vmm_invD(4) [OF inv] c(1) by (auto simp: chunk_at_def valid_def st'_def)
  qed
  moreover have "locks_free st'" using vmm_invD(5) [OF inv] by (simp add: locks_free_def st'_def)
  ultimately show ?thesis by (simp add: vmm_inv_def)
qed

lemma global_put:
  assumes inv: "vmm_inv st (P, G)" and c: "chunk_at st c" "c \<notin> idle (P, G)"
  shows "vmm_inv (st\<lparr>hdrs := (hdrs st)(c := (hdrs st c)\<lparr>ch_next := g_global_free_chunks st\<rparr>),
                   g_global_free_chunks := c\<rparr>) (P, c # G)" (is "vmm_inv ?st _")
proof -
  have c0: "c \<noteq> 0" using c(1) by (simp add: chunk_at_def)
  have cP: "c \<notin> set (P m)" if "m < 16" for m using c(2) idle_pool [OF that, of c "(P, G)"] by auto
  have cG: "c \<notin> set G" using c(2) idle_global [of c "(P, G)"] by auto
  have nx: "hnext ?st = (hnext st)(c := g_global_free_chunks st)" by (auto simp: hnext_def)
  have "pool_inv ?st m (P m)" if "m < 16" for m
  proof -
    have "hdrs ?st x = hdrs st x" if "x \<in> set (P m)" for x using cP [OF \<open>m < 16\<close>] that by auto
    then show ?thesis using vmm_invD(1) [OF inv that] cP [OF that] by (simp add: pool_inv_def nx)
  qed
  moreover have "disjoint_pools (P, c # G)"
    using vmm_invD(3) [OF inv] cP unfolding disjoint_pools_def by auto
  moreover have "chunk_at ?st x" if "x \<in> idle (P, c # G)" for x
  proof -
    have "x \<in> insert c (idle (P, G))" using that by (auto simp: idle_def)
    then show ?thesis using vmm_invD(4) [OF inv] c(1) by (auto simp: chunk_at_def valid_def)
  qed
  ultimately show ?thesis
    using vmm_invD(2,5) [OF inv] cG c0 by (simp add: vmm_inv_def nx locks_free_def)
qed

section \<open>Carving an extent\<close>

lemma round_up_ge: "0 < (d :: nat) \<Longrightarrow> n \<le> (n + d - 1) div d * d"
  using minus_mod_eq_div_mult [of "n + d - 1" d] mod_less_divisor [of d "n + d - 1"] by linarith

lemma round_up_less: "0 < (d :: nat) \<Longrightarrow> (n + d - 1) div d * d < n + d"
  using div_times_less_eq_dividend [of "n + d - 1" d] by linarith

lemma huge_mask: "LZ_HUGE_PAGE_SIZE - 1 = mask LZ_CHUNK_SHIFT"
  by (simp add: mask_eq_exp_minus_1)

lemma and_mask_0_iff: "(x :: addr) AND mask k = 0 \<longleftrightarrow> unat x mod 2 ^ k = 0"
  by (simp only: unat_eq_0 [symmetric] unat_and_mask)

lemma align_up_huge:
  assumes "unat r + 2 ^ 21 \<le> 2 ^ 64"
  shows "unat (LZ_ALIGN_UP r LZ_HUGE_PAGE_SIZE) = (unat r + 2 ^ 21 - 1) div 2 ^ 21 * 2 ^ 21"
  using unat_align_up [of 21 r] assms by simp

lemma trim_extent_spec:
  assumes b: "unat r + 69206016 \<le> 2 ^ 47" and tr: "trace st = Mmap r (LZ_EXTENT_SIZE + LZ_HUGE_PAGE_SIZE) # h"
    and t: "trim_extent r (LZ_EXTENT_SIZE + LZ_HUGE_PAGE_SIZE) st = (a, st')"
  shows "a AND mask LZ_CHUNK_SHIFT = 0" and "unat r \<le> unat a" and "unat a + 67108864 \<le> unat r + 69206016"
    and "valid st' x \<longleftrightarrow> (if within r (LZ_EXTENT_SIZE + LZ_HUGE_PAGE_SIZE) x then within a LZ_EXTENT_SIZE x else mapped h x)"
    and "st' = st\<lparr>trace := trace st'\<rparr>"
proof -
  show frame: "st' = st\<lparr>trace := trace st'\<rparr>"
    using t by (auto simp: trim_extent_def Let_def sys_munmap_def split: if_splits)
  have "(a AND mask 21 = 0 \<and> unat r \<le> unat a \<and> unat a + 67108864 \<le> unat r + 69206016) \<and>
    (valid st' x \<longleftrightarrow> (if within r 69206016 x then within a LZ_EXTENT_SIZE x else mapped h x))"
  proof (cases "r AND mask 21 = 0")
    case True
    then have a: "a = r" "st' = sys_munmap (r + LZ_EXTENT_SIZE) LZ_HUGE_PAGE_SIZE st"
      using t unfolding trim_extent_def huge_mask by auto
    have e: "unat (r + LZ_EXTENT_SIZE) = unat r + 67108864" using b by (simp add: unat_word_ariths)
    have "valid st' x \<longleftrightarrow> \<not> within (r + LZ_EXTENT_SIZE) LZ_HUGE_PAGE_SIZE x \<and> (within r 69206016 x \<or> mapped h x)"
      by (simp add: a valid_def sys_munmap_def tr)
    then show ?thesis using True b a(1)
      by (auto simp: within_iff e)
  next
    case False
    define n where "n = unat r"
    define m where "m = (n + 2 ^ 21 - 1) div 2 ^ 21 * 2 ^ 21"
    let ?a = "LZ_ALIGN_UP r LZ_HUGE_PAGE_SIZE"
    have ua: "unat ?a = m" using align_up_huge [of r] b by (simp add: m_def n_def)
    have nz: "n mod 2 ^ 21 \<noteq> 0" using False unfolding and_mask_0_iff n_def .
    have m3: "m mod 2 ^ 21 = 0" unfolding m_def by (rule mod_mult_self2_is_0)
    have m2: "n \<le> m" "m < n + 2 ^ 21" unfolding m_def by (rule round_up_ge, simp, rule round_up_less, simp)
    have "n \<noteq> m" using m3 nz by metis
    with m2 m3 have m: "n < m" "m < n + 2 ^ 21" "m mod 2 ^ 21 = 0" by linarith+
    have le: "r \<le> ?a" using m(1) by (simp add: word_le_nat_alt ua n_def)
    have pre: "unat (?a - r) = m - n" using le by (simp add: unat_sub ua n_def)
    have suf: "unat (LZ_EXTENT_SIZE + LZ_HUGE_PAGE_SIZE - (?a - r) - LZ_EXTENT_SIZE) = 2097152 - (m - n)"
    proof -
      have "LZ_EXTENT_SIZE + LZ_HUGE_PAGE_SIZE - (?a - r) - LZ_EXTENT_SIZE = LZ_HUGE_PAGE_SIZE - (?a - r)" by simp
      moreover have "?a - r \<le> LZ_HUGE_PAGE_SIZE" using m by (simp add: word_le_nat_alt pre)
      ultimately show ?thesis by (simp only: unat_sub pre) simp
    qed
    have e: "unat (?a + LZ_EXTENT_SIZE) = m + 67108864" using b m by (simp add: unat_word_ariths ua n_def)
    have a: "a = ?a" and st': "st' = sys_munmap (?a + LZ_EXTENT_SIZE) (LZ_EXTENT_SIZE + LZ_HUGE_PAGE_SIZE - (?a - r) - LZ_EXTENT_SIZE)
       (sys_munmap r (?a - r) st)"
      using t False m pre suf unfolding trim_extent_def huge_mask Let_def
      by (auto simp: word_less_nat_alt split: if_splits)
    have v: "valid st' x \<longleftrightarrow> \<not> within (?a + LZ_EXTENT_SIZE) (LZ_EXTENT_SIZE + LZ_HUGE_PAGE_SIZE - (?a - r) - LZ_EXTENT_SIZE) x \<and>
      \<not> within r (?a - r) x \<and> (within r 69206016 x \<or> mapped h x)"
      by (simp add: st' valid_def sys_munmap_def tr)
    have w: "within (?a + LZ_EXTENT_SIZE) (LZ_EXTENT_SIZE + LZ_HUGE_PAGE_SIZE - (?a - r) - LZ_EXTENT_SIZE) x \<longleftrightarrow>
        m + 67108864 \<le> unat x \<and> unat x < n + 69206016"
      using b m by (subst within_iff) (simp_all only: e suf, auto simp: n_def)
    have w2: "within r (?a - r) x \<longleftrightarrow> n \<le> unat x \<and> unat x < m"
      using b m by (subst within_iff) (simp_all only: pre, auto simp: n_def)
    have w3: "within r 69206016 x \<longleftrightarrow> n \<le> unat x \<and> unat x < n + 69206016"
      using b by (subst within_iff) (auto simp: n_def)
    have w4: "within ?a LZ_EXTENT_SIZE x \<longleftrightarrow> m \<le> unat x \<and> unat x < m + 67108864"
      using b m by (subst within_iff) (auto simp: ua n_def)
    show ?thesis
      using m unfolding v w w2 w3 a w4 ua and_mask_0_iff n_def [symmetric] by auto
  qed
  then show "a AND mask LZ_CHUNK_SHIFT = 0" and "unat r \<le> unat a" and "unat a + 67108864 \<le> unat r + 69206016"
    and "valid st' x \<longleftrightarrow> (if within r (LZ_EXTENT_SIZE + LZ_HUGE_PAGE_SIZE) x then within a LZ_EXTENT_SIZE x else mapped h x)"
    by simp_all
qed

text \<open>The chunks of an extent, in the order in which the loop leaves them on the global stack.\<close>

definition extent_chunk :: "addr \<Rightarrow> nat \<Rightarrow> addr" where
  "extent_chunk b i = b + of_nat i * LZ_HUGE_PAGE_SIZE"

definition extent_chunks :: "addr \<Rightarrow> addr list" where
  "extent_chunks b = map (extent_chunk b) (rev [0..<LZ_EXTENT_CHUNKS])"

lemma global_push_valid:
  "valid st c \<Longrightarrow> global_push c st = Some (st\<lparr>hdrs := (hdrs st)(c := (hdrs st c)
     \<lparr>ch_next := g_global_free_chunks st\<rparr>), g_global_free_chunks := c\<rparr>)"
  by (simp add: global_push_def upd_hdr_valid)

lemma global_push_locked:
  "global_push c (st\<lparr>g_global_pool_lock := b\<rparr>) =
     map_option (\<lambda>s. s\<lparr>g_global_pool_lock := b\<rparr>) (global_push c st)"
  by (simp add: global_push_def upd_hdr_def valid_def)

lemma push_extent_locked:
  "push_extent a is (st\<lparr>g_global_pool_lock := b\<rparr>) =
     map_option (\<lambda>s. s\<lparr>g_global_pool_lock := b\<rparr>) (push_extent a is st)"
proof (induction "is" arbitrary: st)
  case (Cons i "is")
  show ?case
    by (cases "global_push (a + of_nat i * LZ_HUGE_PAGE_SIZE) st")
       (simp_all add: global_push_locked Cons.IH)
qed simp

lemma global_insert_eq:
  assumes "\<not> g_global_pool_lock st" and "valid st c"
  shows "global_insert c st = global_push c st"
  using assms
  by (simp add: global_insert_def global_pool_lock_def global_pool_unlock_def global_push_locked
      global_push_valid)

lemma push_extent_spec:
  assumes "vmm_inv st (P, G)" and "distinct (map (extent_chunk b) is)"
    and "\<And>i. i \<in> set is \<Longrightarrow> chunk_at st (extent_chunk b i) \<and> extent_chunk b i \<notin> idle (P, G)"
  shows "\<exists>H g. push_extent b is st = Some (st\<lparr>hdrs := H, g_global_free_chunks := g\<rparr>) \<and>
    vmm_inv (st\<lparr>hdrs := H, g_global_free_chunks := g\<rparr>) (P, rev (map (extent_chunk b) is) @ G) \<and>
    (\<forall>a. a \<notin> extent_chunk b ` set is \<longrightarrow> H a = hdrs st a)"
  using assms
proof (induction "is" arbitrary: st G)
  case Nil
  have "st = st\<lparr>hdrs := hdrs st, g_global_free_chunks := g_global_free_chunks st\<rparr>" by simp
  then show ?case using Nil by (metis append_Nil list.simps(8) push_extent.simps(1) rev.simps(1))
next
  case (Cons i "is")
  let ?c = "extent_chunk b i"
  have c: "chunk_at st ?c" "?c \<notin> idle (P, G)" using Cons.prems(3) by auto
  define st1 where "st1 = st\<lparr>hdrs := (hdrs st)(?c := (hdrs st ?c)\<lparr>ch_next := g_global_free_chunks st\<rparr>),
     g_global_free_chunks := ?c\<rparr>"
  have push: "global_push (b + of_nat i * LZ_HUGE_PAGE_SIZE) st = Some st1"
    using global_push_valid [OF chunk_at_valid [OF c(1)]] by (simp add: st1_def extent_chunk_def)
  have inv1: "vmm_inv st1 (P, ?c # G)" unfolding st1_def by (rule global_put [OF Cons.prems(1) c])
  have rest: "chunk_at st1 (extent_chunk b j) \<and> extent_chunk b j \<notin> idle (P, ?c # G)" if "j \<in> set is" for j
  proof -
    have "extent_chunk b j \<noteq> ?c" using Cons.prems(2) that by (simp, metis imageI)
    moreover have "chunk_at st (extent_chunk b j)" "extent_chunk b j \<notin> idle (P, G)"
      using Cons.prems(3) [of j] that by auto
    ultimately show ?thesis by (auto simp: chunk_at_def valid_def st1_def idle_def)
  qed
  have dist: "distinct (map (extent_chunk b) is)" using Cons.prems(2) by simp
  obtain H g where H: "push_extent b is st1 = Some (st1\<lparr>hdrs := H, g_global_free_chunks := g\<rparr>)"
    "vmm_inv (st1\<lparr>hdrs := H, g_global_free_chunks := g\<rparr>) (P, rev (map (extent_chunk b) is) @ ?c # G)"
    "\<And>a. a \<notin> extent_chunk b ` set is \<Longrightarrow> H a = hdrs st1 a"
    using Cons.IH [OF inv1 dist rest] by blast
  have eq: "st1\<lparr>hdrs := H, g_global_free_chunks := g\<rparr> = st\<lparr>hdrs := H, g_global_free_chunks := g\<rparr>"
    by (simp add: st1_def)
  have "push_extent b (i # is) st = Some (st\<lparr>hdrs := H, g_global_free_chunks := g\<rparr>)"
    using push H(1) eq by simp
  moreover have "H a = hdrs st a" if "a \<notin> extent_chunk b ` set (i # is)" for a
    using H(3) [of a] that by (auto simp: st1_def)
  moreover have "vmm_inv (st\<lparr>hdrs := H, g_global_free_chunks := g\<rparr>) (P, rev (map (extent_chunk b) (i # is)) @ G)"
    using H(2) unfolding eq by simp
  ultimately show ?case by blast
qed

lemma unat_extent_chunk:
  assumes "unat b + 67108864 \<le> 2 ^ 47" and "i < 32"
  shows "unat (extent_chunk b i) = unat b + i * 2097152"
proof -
  have "unat (of_nat i * LZ_HUGE_PAGE_SIZE) = i * 2097152"
    using assms(2) by (simp add: unat_word_ariths unsigned_of_nat take_bit_nat_eq_self)
  then show ?thesis using assms by (simp add: extent_chunk_def unat_word_ariths)
qed

text \<open>The globals of the other components.\<close>

definition vmm_frame :: "lz_state \<Rightarrow> lz_state \<Rightarrow> bool" where
  "vmm_frame st st' \<longleftrightarrow>
     g_lz_global_secret st' = g_lz_global_secret st \<and> g_rtree_root st' = g_rtree_root st \<and>
     g_numa_node_count st' = g_numa_node_count st \<and> tls_tlh_ptr st' = tls_tlh_ptr st \<and>
     g_thread_counter st' = g_thread_counter st \<and> g_zombie_tlhs st' = g_zombie_tlhs st \<and>
     g_zombie_lock st' = g_zombie_lock st \<and> g_telemetry_matrix st' = g_telemetry_matrix st \<and>
     g_shm_name st' = g_shm_name st \<and> g_tlh_key st' = g_tlh_key st \<and> g_base_heap st' = g_base_heap st \<and>
     g_base_offset st' = g_base_offset st \<and> g_lz_ready st' = g_lz_ready st"

lemma vmm_frame_trans: "vmm_frame st st' \<Longrightarrow> vmm_frame st' st'' \<Longrightarrow> vmm_frame st st''"
  by (simp add: vmm_frame_def)

lemma sys_alloc_extent_spec:
  assumes ok: "mmap_ok env" and inv: "vmm_inv st (P, [])"
  shows "\<exists>st' G'. sys_alloc_extent env st = Some st' \<and> vmm_inv st' (P, G') \<and> keeps {} st st' \<and>
    vmm_frame st st' \<and>
    (case os_mmap env (trace st) (LZ_EXTENT_SIZE + LZ_HUGE_PAGE_SIZE) of
       None \<Rightarrow> G' = [] \<and> trace st' = MmapFailed (LZ_EXTENT_SIZE + LZ_HUGE_PAGE_SIZE) # trace st
     | Some r \<Rightarrow> \<exists>b. G' = extent_chunks b \<and> (\<forall>c \<in> set G'. \<forall>x. within c LZ_HUGE_PAGE_SIZE x \<longrightarrow> \<not> valid st x) \<and>
         (\<forall>x. valid st' x \<longleftrightarrow> within b LZ_EXTENT_SIZE x \<or> valid st x))"
proof -
  let ?n = "LZ_EXTENT_SIZE + LZ_HUGE_PAGE_SIZE"
  obtain m st1 where map: "sys_mmap env ?n st = (m, st1)" by fastforce
  have g1: "same_globals st st1" by (rule sys_mmap_globals [OF map])
  have k1: "keeps {} st st1" by (rule sys_mmap_keeps [OF ok map])
  have inv1: "vmm_inv st1 (P, [])"
    using vmm_inv_frame [OF inv k1] g1 vmm_invD(5) [OF inv] by (simp add: same_globals_def locks_free_def)
  show ?thesis
  proof (cases m)
    case None
    then have "os_mmap env (trace st) ?n = None" "trace st1 = MmapFailed ?n # trace st"
      using map by (auto simp: sys_mmap_def split: option.splits)
    then show ?thesis using map None inv1 k1 g1
      by (auto simp: sys_alloc_extent_def same_globals_def vmm_frame_def)
  next
    case (Some r)
    note new = sys_mmap_Some [OF ok map [unfolded Some]]
    have r: "os_mmap env (trace st) ?n = Some r"
      using map Some by (auto simp: sys_mmap_def split: option.splits)
    obtain b st2 where t: "trim_extent r ?n st1 = (b, st2)" by fastforce
    note trim = trim_extent_spec [OF _ new(7) t]
    have r47: "unat r + 69206016 \<le> 2 ^ 47" using new(3) by simp
    define st3 where "st3 = sys_madvise b LZ_EXTENT_SIZE MADV_HUGEPAGE st2"
    obtain t3 where st3: "st3 = st1\<lparr>trace := t3\<rparr>"
    proof -
      obtain t2 where "st2 = st1\<lparr>trace := t2\<rparr>" using trim(5) [OF r47] by blast
      then show ?thesis using that by (simp add: st3_def sys_madvise_def)
    qed
    have v3: "valid st3 x \<longleftrightarrow> within b LZ_EXTENT_SIZE x \<or> valid st x" for x
    proof -
      have "valid st3 x = valid st2 x" by (simp add: valid_def st3_def sys_madvise_def)
      moreover have "\<not> valid st x" if "within r ?n x" using new(5) [OF that] by blast
      moreover have "within r ?n x" if "within b LZ_EXTENT_SIZE x"
        using that trim(2,3) [OF r47] r47 by (simp add: within_iff)
      ultimately show ?thesis using trim(4) [OF r47, of x] by (auto simp: valid_def)
    qed
    have old: "valid st x \<Longrightarrow> \<not> within b LZ_EXTENT_SIZE x" for x
      using new(5) [of x] trim(2,3) [OF r47] r47 by (auto simp: within_iff)
    have k3: "keeps {} st st3"
      using k1 v3 by (auto simp: keeps_def same_at_def) (simp_all add: st3)
    have inv3: "vmm_inv st3 (P, [])"
      using vmm_inv_frame [OF inv k3] g1 vmm_invD(5) [OF inv] st3
      by (simp add: same_globals_def locks_free_def)
    have u: "unat (extent_chunk b i) = unat b + i * 2097152" if "i < 32" for i
      using unat_extent_chunk trim(3) [OF r47] r47 that by simp
    have b21: "unat b mod 2 ^ 21 = 0" using trim(1) [OF r47] by (simp only: and_mask_0_iff)
    have ch: "chunk_at st3 (extent_chunk b i)" if "i < 32" for i
    proof -
      have "0 < unat b" using new(1) trim(2) [OF r47] by (simp add: unat_gt_0) (metis gr_zeroI le_zero_eq unat_eq_0)
      then have "extent_chunk b i \<noteq> 0" using u [OF that] by force
      moreover have "unat (extent_chunk b i) mod 2 ^ 21 = 0" using b21 by (simp add: u [OF that])
      moreover have "valid st3 x" if "within (extent_chunk b i) LZ_HUGE_PAGE_SIZE x" for x
        using that \<open>i < 32\<close> trim(3) [OF r47] r47 by (simp add: v3 within_iff u)
      ultimately show ?thesis
        using that trim(3) [OF r47] r47 unfolding chunk_at_def and_mask_0_iff by (simp add: u)
    qed
    have new: "\<not> valid st x" if "i < 32" "within (extent_chunk b i) LZ_HUGE_PAGE_SIZE x" for i x
      using old [of x] trim(3) [OF r47] r47 that by (auto simp: within_iff u)
    have notold: "\<not> valid st (extent_chunk b i)" if "i < 32" for i
      using new [OF that] by (simp add: within_def)
    have inj: "inj_on (extent_chunk b) {0..<32}"
    proof (rule inj_onI)
      fix i j assume "i \<in> {0..<32}" "j \<in> {0..<32}" "extent_chunk b i = extent_chunk b j"
      then have "unat b + i * 2097152 = unat b + j * 2097152" by (metis atLeastLessThan_iff u)
      then show "i = j" by simp
    qed
    have fresh: "extent_chunk b i \<notin> idle (P, [])" if "i < 32" for i
      using notold [OF that] vmm_invD(4) [OF inv] chunk_at_valid by blast
    obtain H g where push: "push_extent b [0..<32] st3 = Some (st3\<lparr>hdrs := H, g_global_free_chunks := g\<rparr>)"
      "vmm_inv (st3\<lparr>hdrs := H, g_global_free_chunks := g\<rparr>) (P, rev (map (extent_chunk b) [0..<32]) @ [])"
      "\<And>a. a \<notin> extent_chunk b ` set [0..<32] \<Longrightarrow> H a = hdrs st3 a"
      using push_extent_spec [OF inv3, of b "[0..<32]"] inj ch fresh by (auto simp: distinct_map)
    let ?st = "st3\<lparr>hdrs := H, g_global_free_chunks := g\<rparr>"
    have lock: "\<not> g_global_pool_lock st3" using vmm_invD(5) [OF inv3] by (simp add: locks_free_def)
    have run: "sys_alloc_extent env st = Some ?st"
      using map Some t push(1) lock
      by (simp add: sys_alloc_extent_def Let_def global_pool_lock_def global_pool_unlock_def
          push_extent_locked flip: st3_def)
    have "keeps {} st ?st"
    proof -
      have "H a = hdrs st3 a" if "valid st a" for a
      proof (rule push(3), rule notI)
        assume "a \<in> extent_chunk b ` set [0..<32]"
        then obtain i where "i < 32" "a = extent_chunk b i" by auto
        then show False using notold that by blast
      qed
      then show ?thesis using k3 by (auto simp: keeps_def same_at_def valid_def)
    qed
    moreover have "(P, rev (map (extent_chunk b) [0..<32]) @ []) = (P, extent_chunks b)"
      by (simp only: extent_chunks_def rev_map append_Nil2)
    moreover have "\<not> valid st x" if "c \<in> set (extent_chunks b)" "within c LZ_HUGE_PAGE_SIZE x" for c x
      using that new by (auto simp: extent_chunks_def)
    moreover have "valid ?st x \<longleftrightarrow> within b LZ_EXTENT_SIZE x \<or> valid st x" for x
      using v3 by (simp add: valid_def)
    moreover have "vmm_frame st ?st" using g1 st3 by (simp add: same_globals_def vmm_frame_def)
    ultimately show ?thesis using run push(2) r by auto
  qed
qed

end
