(* ===== verification/Sizes.thy ===== *)
theory Sizes
  imports LZ_Prelude
begin

text \<open>
  Size classes: \<open>src/src/internal/sizes.h\<close>.

  \<open>lz_size_to_class\<close> maps a request to one of the classes of a logarithmic segregated fit (eight
  linear classes of 16 bytes, then four classes per power of two), \<open>lz_class_to_size\<close> maps a
  class to the size of its objects. Both are written at the widths the code uses; the lemmas read
  them as arithmetic and show that the class is the least one whose objects are large enough.
\<close>

abbreviation (input) LZ_MIN_ALLOC_SIZE :: u64 where "LZ_MIN_ALLOC_SIZE \<equiv> 16"
abbreviation (input) LZ_SMALL_LINEAR_MAX :: u64 where "LZ_SMALL_LINEAR_MAX \<equiv> 128"
abbreviation (input) LZ_MAX_SIZE_CLASSES :: u32 where "LZ_MAX_SIZE_CLASSES \<equiv> 88"

section \<open>Model\<close>

text \<open>The compiler's \<open>__builtin_clzll\<close>: the number of zero bits above the highest set bit.\<close>

definition builtin_clzll :: "u64 \<Rightarrow> nat" where
  "builtin_clzll x = length (takeWhile (\<lambda>i. \<not> bit x i) (rev [0..<64]))"

definition lz_fls :: "u64 \<Rightarrow> u32" where
  "lz_fls x = (if x = 0 then 0 else of_nat (63 - builtin_clzll x))"

definition lz_size_to_class :: "u64 \<Rightarrow> u32" where
  "lz_size_to_class sz =
     (if sz \<le> LZ_MIN_ALLOC_SIZE then 0
      else let s = sz - 1 in
        if s < LZ_SMALL_LINEAR_MAX then ucast (drop_bit 4 s)
        else let msb = lz_fls s;
                 shift = msb - 2;
                 base = push_bit 2 (msb - 7);
                 offset = ucast (drop_bit (unat shift) s AND 3)
             in 8 + base + offset)"

definition lz_class_to_size :: "u32 \<Rightarrow> u64" where
  "lz_class_to_size class_idx =
     (if class_idx < 8 then ucast (push_bit 4 (class_idx + 1))
      else let base_idx = class_idx - 8;
               group = drop_bit 2 base_idx;
               shift = group + 5;
               offset = base_idx AND 3
           in push_bit (unat shift) (ucast (5 + offset)))"

section \<open>The highest set bit\<close>

lemma builtin_clzll_eq:
  assumes "bit x m" and "\<And>i. m < i \<Longrightarrow> i < 64 \<Longrightarrow> \<not> bit x i" and "m < 64"
  shows "builtin_clzll x = 63 - m"
proof -
  have "[0..<64] = [0..<m] @ m # [Suc m..<64]"
    using upt_add_eq_append [of 0 m "64 - m"] assms(3) by (simp add: upt_conv_Cons)
  then have "rev [0..<64] = rev [Suc m..<64] @ m # rev [0..<m]" by simp
  then have "takeWhile (\<lambda>i. \<not> bit x i) (rev [0..<64]) = rev [Suc m..<64]"
    using assms(1,2) by (simp add: takeWhile_append)
  then show ?thesis by (simp add: builtin_clzll_def)
qed

lemma lz_fls_bounds:
  assumes "x \<noteq> 0"
  shows "unat (lz_fls x) < 64" and "2 ^ unat (lz_fls x) \<le> unat x"
    and "unat x < 2 ^ Suc (unat (lz_fls x))"
proof -
  let ?B = "{i. i < 64 \<and> bit x i}"
  have "?B \<noteq> {}"
  proof
    assume "?B = {}"
    then have "x = 0" by (intro bit_word_eqI) auto
    with assms show False ..
  qed
  define m where "m = Max ?B"
  have "m \<in> ?B" unfolding m_def using \<open>?B \<noteq> {}\<close> by (intro Max_in) auto
  then have m: "m < 64" "bit x m" by auto
  have above: "\<not> bit x i" if "m < i" "i < 64" for i
  proof
    assume "bit x i"
    with that have "i \<le> m" unfolding m_def by (intro Max_ge) auto
    with that show False by simp
  qed
  have fls: "unat (lz_fls x) = m"
    using assms m by (simp add: lz_fls_def builtin_clzll_eq [OF m(2) above m(1)] unsigned_of_nat
        take_bit_nat_eq_self)
  have "odd (unat x div 2 ^ m)"
    using m(2) by (simp add: bit_unsigned_iff flip: bit_iff_odd)
  then show "2 ^ unat (lz_fls x) \<le> unat x"
    unfolding fls by (metis div_less even_zero not_le)
  have "take_bit (Suc m) x = x"
    by (rule bit_word_eqI) (use above not_less_eq in \<open>auto simp: bit_simps\<close>)
  then show "unat x < 2 ^ Suc (unat (lz_fls x))"
    unfolding fls by (metis take_bit_nat_less_exp unsigned_take_bit_eq)
  show "unat (lz_fls x) < 64" using fls m(1) by simp
qed

section \<open>The classes as arithmetic\<close>

text \<open>The sizes of the classes on natural numbers, and the class of a request over 128 bytes.\<close>

definition class_bytes :: "nat \<Rightarrow> nat" where
  "class_bytes c = (if c < 8 then (c + 1) * 16 else (5 + (c - 8) mod 4) * 2 ^ ((c - 8) div 4 + 5))"

lemma and_3_mod [width_simps]: "unat ((x :: 'a::len word) AND 3) = unat x mod 4"
  using unat_and_mask [of x 2] by (simp add: mask_eq_exp_minus_1)

lemma unat_class_to_size:
  assumes "unat c < 88"
  shows "unat (lz_class_to_size c) = class_bytes (unat c)"
proof (cases "c < 8")
  case True
  then have c: "unat c < 8" by (simp add: word_less_nat_alt)
  then have "unat (c + 1) = unat c + 1" by (simp add: unat_word_ariths)
  then have "unat (push_bit 4 (c + 1)) = (unat c + 1) * 16"
    using c by (simp add: unat_push_bit)
  then show ?thesis using True c by (simp add: lz_class_to_size_def class_bytes_def unat_ucast)
next
  case False
  then have c: "\<not> unat c < 8" by (simp add: word_less_nat_alt)
  have b: "unat (c - 8) = unat c - 8" using False by (simp add: unat_sub not_less)
  have g: "unat (drop_bit 2 (c - 8) + 5) = (unat c - 8) div 4 + 5"
    using assms by (simp add: unat_word_ariths unat_drop_bit b)
  have o: "unat (5 + (c - 8 AND 3)) = 5 + (unat c - 8) mod 4"
    by (simp add: unat_word_ariths and_3_mod b)
  have "(unat c - 8) div 4 + 5 \<le> 24" using assms by simp
  then have "(2 :: nat) ^ ((unat c - 8) div 4 + 5) \<le> 2 ^ 24" by (intro power_increasing) auto
  moreover have "5 + (unat c - 8) mod 4 \<le> 8" by simp
  ultimately have "(5 + (unat c - 8) mod 4) * 2 ^ ((unat c - 8) div 4 + 5) \<le> 8 * 2 ^ 24"
    by (rule mult_le_mono [rotated])
  then show ?thesis using False c
    by (simp add: lz_class_to_size_def class_bytes_def Let_def unat_push_bit g o unat_ucast)
qed

lemma unat_size_to_class_linear:
  assumes "16 < unat sz" and "unat sz \<le> 128"
  shows "unat (lz_size_to_class sz) = (unat sz - 1) div 16"
proof -
  have "unat (sz - 1) = unat sz - 1" using assms by (simp add: unat_sub word_le_nat_alt)
  then show ?thesis using assms
    by (simp add: lz_size_to_class_def Let_def word_le_nat_alt word_less_nat_alt unat_drop_bit unat_ucast)
qed

lemma unat_size_to_class_log:
  assumes "128 < unat sz"
  obtains m q where "7 \<le> m" and "m < 64" and "q < 4"
    and "(4 + q) * 2 ^ (m - 2) < unat sz" and "unat sz \<le> (5 + q) * 2 ^ (m - 2)"
    and "unat (lz_size_to_class sz) = 8 + 4 * (m - 7) + q"
proof -
  let ?s = "unat sz - 1" and ?m = "unat (lz_fls (sz - 1))"
  have s: "unat (sz - 1) = ?s" using assms by (simp add: unat_sub word_le_nat_alt)
  have "sz - 1 \<noteq> 0" using assms s by force
  note fls = lz_fls_bounds [OF this, unfolded s]
  have m7: "7 \<le> ?m"
  proof (rule ccontr)
    assume "\<not> 7 \<le> ?m"
    then have "(2 :: nat) ^ Suc ?m \<le> 2 ^ 7" by (intro power_increasing) auto
    with fls(3) assms show False by simp
  qed
  define q where "q = ?s div 2 ^ (?m - 2)"
  have p: "(2 :: nat) ^ ?m = 4 * 2 ^ (?m - 2)"

  proof -
    have "?m = 2 + (?m - 2)" using m7 by simp
    then have "(2 :: nat) ^ ?m = 2 ^ (2 + (?m - 2))" by (rule arg_cong)
    also have "\<dots> = 4 * 2 ^ (?m - 2)" by (simp only: power_add) simp
    finally show ?thesis .
  qed
  have q4: "4 \<le> q" unfolding q_def using fls(2) p by (metis div_le_mono nonzero_mult_div_cancel_right
        power_eq_0_iff zero_neq_numeral)
  have q8: "q < 8" unfolding q_def using fls(3) p by (simp add: less_mult_imp_div_less)
  have lo: "q * 2 ^ (?m - 2) \<le> ?s" by (simp add: q_def)
  have hi: "?s < (q + 1) * 2 ^ (?m - 2)" unfolding q_def
    by (metis add.commute dividend_less_div_times mult.commute mult_Suc_right plus_1_eq_Suc
        zero_less_numeral zero_less_power)
  have sh: "unat (lz_fls (sz - 1) - 2) = ?m - 2" using m7 by (simp add: unat_sub word_le_nat_alt)
  have b7: "unat (lz_fls (sz - 1) - 7) = ?m - 7" using m7 by (simp add: unat_sub word_le_nat_alt)
  have base: "unat (push_bit 2 (lz_fls (sz - 1) - 7)) = (?m - 7) * 4"
    using fls(1) by (simp add: unat_push_bit b7)
  have off: "unat (ucast (drop_bit (?m - 2) (sz - 1) AND 3) :: u32) = q - 4"
  proof -
    have "q mod 4 = q - 4" using q4 q8 by presburger
    then show ?thesis by (simp add: unat_ucast and_3_mod unat_drop_bit s q_def)
  qed
  have "unat (lz_size_to_class sz) = 8 + (?m - 7) * 4 + (q - 4)"
    using assms fls(1) q8
    by (simp add: lz_size_to_class_def word_le_nat_alt word_less_nat_alt s sh Let_def
        unat_word_ariths base off)
  then show ?thesis
    using that [of ?m "q - 4"] m7 fls(1) q4 q8 lo hi assms by (simp add: mult.commute)
qed

section \<open>The class of a request is the least one that fits\<close>

lemma class_bytes_log: "7 \<le> m \<Longrightarrow> q < 4 \<Longrightarrow> class_bytes (8 + 4 * (m - 7) + q) = (5 + q) * 2 ^ (m - 2)"
  by (simp add: class_bytes_def)

lemma class_bytes_log_pred:
  assumes "7 \<le> m" and "q < 4"
  shows "class_bytes (7 + (4 * (m - 7) + q)) = (4 + q) * 2 ^ (m - 2)"
proof (cases "q = 0")
  case False
  then show ?thesis using assms class_bytes_log [of m "q - 1"] by simp
next
  case True
  show ?thesis
  proof (cases "m = 7")
    case False
    then have "7 + (4 * (m - 7) + q) = 8 + 4 * (m - 1 - 7) + 3" and "7 \<le> m - 1"
      using assms True by auto
    then have "class_bytes (7 + (4 * (m - 7) + q)) = 8 * 2 ^ (m - 1 - 2)"
      using class_bytes_log [of "m - 1" 3] by simp
    moreover have "m - 2 = Suc (m - 1 - 2)" using assms False by simp
    ultimately show ?thesis using True by simp
  qed (simp add: True class_bytes_def)
qed

lemma class_bytes_step: "class_bytes c < class_bytes (Suc c)"
proof (cases "c < 7")
  case False
  define m where "m = 7 + (Suc c - 8) div 4"
  define q where "q = (Suc c - 8) mod 4"
  have c: "c = 7 + (4 * (m - 7) + q)" "Suc c = 8 + 4 * (m - 7) + q" "7 \<le> m" "q < 4"
    using False by (auto simp: m_def q_def)
  have "class_bytes c = (4 + q) * 2 ^ (m - 2)" unfolding c(1) by (rule class_bytes_log_pred [OF c(3,4)])
  moreover have "class_bytes (Suc c) = (5 + q) * 2 ^ (m - 2)"
    unfolding c(2) by (rule class_bytes_log [OF c(3,4)])
  ultimately show ?thesis by simp
qed (simp add: class_bytes_def)

lemma class_bytes_strict_mono: "strict_mono class_bytes"
  by (rule strict_mono_Suc_iff [THEN iffD2]) (simp add: class_bytes_step)

lemma size_to_class_between:
  assumes "0 < unat sz"
  shows "unat sz \<le> class_bytes (unat (lz_size_to_class sz))"
    and "0 < unat (lz_size_to_class sz) \<Longrightarrow> class_bytes (unat (lz_size_to_class sz) - 1) < unat sz"
proof -
  let ?c = "unat (lz_size_to_class sz)"
  have "unat sz \<le> class_bytes ?c \<and> (0 < ?c \<longrightarrow> class_bytes (?c - 1) < unat sz)"
  proof -
    consider "unat sz \<le> 16" | "16 < unat sz" "unat sz \<le> 128" | "128 < unat sz" by linarith
    then show ?thesis
    proof cases
      case 1
      then show ?thesis by (simp add: lz_size_to_class_def word_le_nat_alt class_bytes_def)
    next
      case 2
      then show ?thesis by (simp add: unat_size_to_class_linear class_bytes_def) linarith
    next
      case 3
      then show ?thesis
        by (rule unat_size_to_class_log) (simp add: class_bytes_log class_bytes_log_pred)
    qed
  qed
  then show "unat sz \<le> class_bytes ?c" and "0 < ?c \<Longrightarrow> class_bytes (?c - 1) < unat sz" by auto
qed

text \<open>
  C16. The class of a request is the least one whose objects hold it: for every request and every
  class of the thread-local heap, the request is mapped to that class or a smaller one exactly
  when an object of the class is large enough. (The mapping to classes and the size of a class are
  the two halves of a Galois connection.)
\<close>

theorem size_class_galois:
  assumes "c < LZ_MAX_SIZE_CLASSES"
  shows "lz_size_to_class sz \<le> c \<longleftrightarrow> sz \<le> lz_class_to_size c"
proof -
  have c: "unat c < 88" using assms by (simp add: word_less_nat_alt)
  note mono = strict_mono_less_eq [OF class_bytes_strict_mono]
  show ?thesis
  proof (cases "unat sz = 0")
    case True
    then show ?thesis by (simp add: word_le_nat_alt lz_size_to_class_def)
  next
    case False
    then have sz: "0 < unat sz" by simp
    have "unat (lz_size_to_class sz) \<le> unat c \<longleftrightarrow> unat sz \<le> class_bytes (unat c)"
    proof
      assume "unat (lz_size_to_class sz) \<le> unat c"
      then have "class_bytes (unat (lz_size_to_class sz)) \<le> class_bytes (unat c)"
        by (simp add: mono)
      with size_to_class_between(1) [OF sz] show "unat sz \<le> class_bytes (unat c)" by simp
    next
      assume fits: "unat sz \<le> class_bytes (unat c)"
      show "unat (lz_size_to_class sz) \<le> unat c"
      proof (rule ccontr)
        assume "\<not> unat (lz_size_to_class sz) \<le> unat c"
        then have "class_bytes (unat c) \<le> class_bytes (unat (lz_size_to_class sz) - 1)"
          and "0 < unat (lz_size_to_class sz)" by (auto simp: mono)
        with size_to_class_between(2) [OF sz] fits show False by simp
      qed
    qed
    then show ?thesis by (simp add: word_le_nat_alt unat_class_to_size [OF c])
  qed
qed

theorem size_class_galois_witness:
  "(39 :: u32) < LZ_MAX_SIZE_CLASSES \<and>
   (lz_size_to_class 30000 \<le> 39 \<longleftrightarrow> 30000 \<le> lz_class_to_size 39) \<and> lz_class_to_size 39 = 32768"
  using size_class_galois [of 39 30000] by (simp add: lz_class_to_size_def)

lemma size_to_class_fits:
  "lz_size_to_class sz < LZ_MAX_SIZE_CLASSES \<Longrightarrow> unat sz \<le> unat (lz_class_to_size (lz_size_to_class sz))"
  using size_to_class_between(1) [of sz]
  by (cases "unat sz = 0") (auto simp: unat_class_to_size word_less_nat_alt)

lemma size_to_class_range:
  assumes "sz \<le> lz_class_to_size c" and "unat c < 88"
  shows "unat (lz_size_to_class sz) \<le> unat c"
proof (cases "unat sz = 0")
  case True
  then show ?thesis by (simp add: word_le_nat_alt lz_size_to_class_def)
next
  case False
  have "unat sz \<le> class_bytes (unat c)"
    using assms by (simp add: word_le_nat_alt unat_class_to_size)
  moreover have "class_bytes (unat (lz_size_to_class sz) - 1) < unat sz"
    if "0 < unat (lz_size_to_class sz)" using size_to_class_between(2) [of sz] False that by simp
  ultimately show ?thesis
    using strict_mono_less [OF class_bytes_strict_mono, of "unat (lz_size_to_class sz) - 1" "unat c"]
    by fastforce
qed

text \<open>
  C21. The class index survives the round trip through its size: asking for exactly the size of a
  class gives that class back, so no size of a class is served by a larger one.
\<close>

theorem class_size_roundtrip:
  assumes "c < LZ_MAX_SIZE_CLASSES"
  shows "lz_size_to_class (lz_class_to_size c) = c"
proof -
  have c: "unat c < 88" using assms by (simp add: word_less_nat_alt)
  let ?k = "lz_size_to_class (lz_class_to_size c)"
  have le: "unat ?k \<le> unat c" using c by (intro size_to_class_range) auto
  have "0 < class_bytes (unat c)" by (simp add: class_bytes_def)
  then have "class_bytes (unat c) \<le> class_bytes (unat ?k)"
    using size_to_class_between(1) [of "lz_class_to_size c"] c by (simp add: unat_class_to_size)
  then have "unat c \<le> unat ?k" by (simp add: strict_mono_less_eq [OF class_bytes_strict_mono])
  with le show ?thesis by (simp add: word_unat_eq_iff)
qed

theorem class_size_roundtrip_witness:
  "(20 :: u32) < LZ_MAX_SIZE_CLASSES \<and> lz_size_to_class (lz_class_to_size 20) = 20"
  using class_size_roundtrip [of 20] by simp

text \<open>
  C20. Internal fragmentation is bounded: above 128 bytes the object handed out is less than a
  quarter larger than the request, and up to 128 bytes it is at most 15 bytes larger.
\<close>

theorem size_class_waste:
  assumes "0 < sz" and "sz \<le> 134217728"
  shows "if sz \<le> LZ_SMALL_LINEAR_MAX
         then unat (lz_class_to_size (lz_size_to_class sz)) \<le> unat sz + 15
         else 4 * (unat (lz_class_to_size (lz_size_to_class sz)) - unat sz) < unat sz"
proof -
  have c: "unat (lz_size_to_class sz) < 88"
    using size_to_class_range [of sz 87] assms(2) by (simp add: lz_class_to_size_def Let_def)
  have pos: "0 < unat sz" using assms(1) by (simp add: word_less_nat_alt)
  consider "unat sz \<le> 16" | "16 < unat sz" "unat sz \<le> 128" | "128 < unat sz" by linarith
  then show ?thesis
  proof cases
    case 1
    then show ?thesis using pos
      by (simp add: word_le_nat_alt unat_class_to_size [OF c])
         (simp add: lz_size_to_class_def word_le_nat_alt class_bytes_def)
  next
    case 2
    then show ?thesis
      by (simp add: word_le_nat_alt unat_class_to_size [OF c] unat_size_to_class_linear class_bytes_def)
         linarith
  next
    case 3
    then obtain m q where mq: "7 \<le> m" "q < 4" "(4 + q) * 2 ^ (m - 2) < unat sz"
      "unat (lz_size_to_class sz) = 8 + 4 * (m - 7) + q" by (rule unat_size_to_class_log) blast
    define P :: nat where "P = 2 ^ (m - 2)"
    have "4 * P + q * P < unat sz" using mq(3) by (simp add: P_def algebra_simps)
    moreover have "unat (lz_class_to_size (lz_size_to_class sz)) = 5 * P + q * P"
      unfolding unat_class_to_size [OF c] mq(4) class_bytes_log [OF mq(1,2)] P_def
      by (simp add: distrib_right)
    ultimately show ?thesis using 3 by (simp add: word_le_nat_alt)
  qed
qed

theorem size_class_waste_witness:
  "(0 :: u64) < 1000 \<and> (1000 :: u64) \<le> 134217728 \<and>
   4 * (unat (lz_class_to_size (lz_size_to_class 1000)) - 1000) < 1000"
  using size_class_waste [of 1000] by simp

section \<open>Alignment of the classes\<close>

lemma class_bytes_dvd_16: "16 dvd class_bytes c"
  by (auto simp: class_bytes_def power_add)

text \<open>
  A request that is a positive multiple of a power of two up to 64 is served by a class whose
  objects are multiples of it too; this is what the aligned allocation of small objects relies on.
\<close>

lemma class_bytes_aligned:
  assumes "k \<le> 6" and "2 ^ k dvd unat sz" and "0 < unat sz"
  shows "2 ^ k dvd class_bytes (unat (lz_size_to_class sz))"
proof (cases "k \<le> 4")
  case True
  then have "(2 :: nat) ^ k dvd 16" using le_imp_power_dvd [of k 4 "2 :: nat"] by simp
  then show ?thesis using class_bytes_dvd_16 dvd_trans by blast
next
  case False
  have d16: "16 dvd unat sz" using le_imp_power_dvd [of 4 k "2 :: nat"] False assms(2) by (simp add: dvd_trans)
  then have "16 \<le> unat sz" using assms(3) by (simp add: dvd_imp_le)
  show ?thesis
  proof (cases "unat sz \<le> 128")
    case True
    obtain t where t: "unat sz = 16 * t" using d16 by blast
    have "class_bytes (unat (lz_size_to_class sz)) = unat sz"
    proof (cases "unat sz = 16")
      case True
      then show ?thesis by (simp add: lz_size_to_class_def word_le_nat_alt class_bytes_def)
    next
      case False
      with True \<open>16 \<le> unat sz\<close> have "unat (lz_size_to_class sz) = (unat sz - 1) div 16"
        by (intro unat_size_to_class_linear) auto
      also have "\<dots> = t - 1" using t assms(3) by simp
      finally show ?thesis using t assms(3) True by (simp add: class_bytes_def)
    qed
    then show ?thesis using assms(2) by simp
  next
    case False
    then have "128 < unat sz" by simp
    then obtain m q where mq: "7 \<le> m" "q < 4" "(4 + q) * 2 ^ (m - 2) < unat sz"
      "unat sz \<le> (5 + q) * 2 ^ (m - 2)" "unat (lz_size_to_class sz) = 8 + 4 * (m - 7) + q"
      by (rule unat_size_to_class_log) blast
    have bytes: "class_bytes (unat (lz_size_to_class sz)) = (5 + q) * 2 ^ (m - 2)"
      using mq by (simp add: class_bytes_log)
    show ?thesis
    proof (cases "k \<le> m - 2")
      case True
      then show ?thesis unfolding bytes by (intro dvd_mult le_imp_power_dvd)
    next
      case False
      then have "k = 6" "m = 7" using assms(1) mq(1) by auto
      moreover obtain t where "unat sz = 64 * t" using assms(2) \<open>k = 6\<close> by auto
      ultimately have "5 + q = 2 * t" using mq(3,4) by simp
      then show ?thesis unfolding bytes by (simp add: \<open>k = 6\<close> \<open>m = 7\<close>)
    qed
  qed
qed

end
