(* ===== verification/Engines.thy ===== *)
theory Engines
  imports Bitmap Telemetry Security Rtree Vmm Sizes
begin

text \<open>
  The engines that format chunks: \<open>src/src/engines/slab.c\<close> (objects of one size class) and
  \<open>src/src/engines/span.c\<close> (runs of pages). Both take a chunk from the memory manager, write its
  header and their own metadata behind it, and record it in the radix tree.
\<close>

section \<open>Slabs\<close>

abbreviation (input) sizeof_lz_slab :: u64 where "sizeof_lz_slab \<equiv> 64"

text \<open>The header of a chunk taken for an engine; the checksum is computed last.\<close>

definition shield_chunk :: "addr \<Rightarrow> addr \<Rightarrow> u32 \<Rightarrow> lz_state \<Rightarrow> lz_state option" where
  "shield_chunk chunk tlh chunk_type st = do {
     st \<leftarrow> upd_hdr chunk (\<lambda>h. h\<lparr>ch_owning_tlh := tlh\<rparr>) st;
     st \<leftarrow> upd_hdr chunk (\<lambda>h. h\<lparr>ch_chunk_type := chunk_type\<rparr>) st;
     upd_hdr chunk (\<lambda>h. h\<lparr>ch_checksum := lz_calc_checksum h\<rparr>) st }"

definition lz_slab_create :: "os_env \<Rightarrow> addr \<Rightarrow> u32 \<Rightarrow> lz_state \<Rightarrow> (addr \<times> lz_state) option" where
  "lz_slab_create env tlh class_idx st = do {
     (chunk, st) \<leftarrow> lz_vmm_alloc_chunk env st;
     if chunk = 0 then Some (0, st)
     else do {
       st \<leftarrow> shield_chunk chunk tlh LZ_CHUNK_TYPE_SLAB st;
       st \<leftarrow> lz_rtree_set env chunk chunk st;
       let slab = chunk + LZ_CACHE_LINE_SIZE;
       let data_start = LZ_ALIGN_UP (slab + sizeof_lz_slab) LZ_CACHE_LINE_SIZE;
       let data_end = chunk + LZ_HUGE_PAGE_SIZE;
       let block_size = (ucast (lz_class_to_size class_idx) :: u32);
       st \<leftarrow> set_meta slab (MSlab \<lparr>sl_next = 0, sl_prev = 0,
               sl_memory_base = data_start, sl_memory_end = data_end,
               sl_bump_ptr = data_start, sl_free_list_head = 0,
               sl_size_class = class_idx, sl_block_size = block_size,
               sl_max_objects = ucast ((data_end - data_start) div ucast block_size),
               sl_used_objects = 0\<rparr>) st;
       Some (slab, st) } }"

definition chunk_of :: "addr \<Rightarrow> addr" where
  "chunk_of p = p AND NOT (push_bit LZ_CHUNK_SHIFT 1 - 1)"

definition lz_slab_destroy :: "os_env \<Rightarrow> addr \<Rightarrow> lz_state \<Rightarrow> lz_state option" where
  "lz_slab_destroy env slab st =
     (let chunk = chunk_of slab in do {
        h \<leftarrow> get_hdr st chunk;
        if ch_checksum h \<noteq> lz_calc_checksum h
        then Some (LZ_FATAL ''Slab destruction blocked: Chunk metadata corruption detected.'' st)
        else do {
          st \<leftarrow> lz_rtree_clear env chunk st;
          lz_vmm_free_chunk chunk st } })"

section \<open>Spans\<close>

partial_function (option) search_spans :: "u32 \<Rightarrow> addr \<Rightarrow> lz_state \<Rightarrow> (addr \<times> int \<times> lz_state) option" where
  "search_spans required_pages current st =
     (if current = 0 then Some (0, -1, st)
      else do {
        span \<leftarrow> get_span st current;
        if 512 - sp_used_pages span \<ge> required_pages then do {
          let (page_idx, span) = find_contiguous_pages span required_pages;
          st \<leftarrow> set_meta current (MSpan span) st;
          if page_idx \<noteq> -1 then Some (current, page_idx, st)
          else search_spans required_pages (sp_next span) st }
        else search_spans required_pages (sp_next span) st })"

definition new_span :: "os_env \<Rightarrow> addr \<Rightarrow> addr \<Rightarrow> lz_state \<Rightarrow> (addr \<times> lz_state) option" where
  "new_span env tlh chunk st = do {
     st \<leftarrow> shield_chunk chunk tlh LZ_CHUNK_TYPE_SPAN st;
     st \<leftarrow> lz_rtree_set env chunk chunk st;
     let current = chunk + LZ_CACHE_LINE_SIZE;
     h \<leftarrow> get_tlh st tlh;
     st \<leftarrow> set_meta current (MSpan \<lparr>sp_next = tl_active_spans h, sp_prev = 0,
             sp_free_bitmap = NOT 1 # replicate (LZ_SPAN_BITMAP_WORDS - 1) (NOT 0),
             sp_used_pages = 1, sp_alloc_size_pages = replicate LZ_SPAN_TOTAL_PAGES 0\<rparr>) st;
     st \<leftarrow> (if tl_active_spans h \<noteq> 0
            then upd_span (tl_active_spans h) (sp_prev_update (\<lambda>_. current)) st else Some st);
     st \<leftarrow> upd_tlh tlh (tl_active_spans_update (\<lambda>_. current)) st;
     Some (current, st) }"

definition finish_span :: "addr \<Rightarrow> int \<Rightarrow> u32 \<Rightarrow> lz_state \<Rightarrow> (addr \<times> lz_state) option" where
  "finish_span current page_idx required_pages st = do {
     span \<leftarrow> get_span st current;
     if nat page_idx < length (sp_alloc_size_pages span) then do {
       st \<leftarrow> set_meta current (MSpan (span\<lparr>sp_used_pages := sp_used_pages span + required_pages,
               sp_alloc_size_pages := (sp_alloc_size_pages span)[nat page_idx := ucast required_pages]\<rparr>)) st;
       Some (chunk_of current + of_int page_idx * LZ_PAGE_SIZE, st) }
     else None }"

definition lz_span_alloc :: "os_env \<Rightarrow> addr \<Rightarrow> u64 \<Rightarrow> lz_state \<Rightarrow> (addr \<times> lz_state) option" where
  "lz_span_alloc env tlh sz st =
     (let required_pages = ucast (LZ_ALIGN_UP sz LZ_PAGE_SIZE div LZ_PAGE_SIZE) :: u32 in
      if required_pages \<ge> 512 then Some (0, st)
      else do {
        h \<leftarrow> get_tlh st tlh;
        (current, page_idx, st) \<leftarrow> search_spans required_pages (tl_active_spans h) st;
        if page_idx = -1 then do {
          (chunk, st) \<leftarrow> lz_vmm_alloc_chunk env st;
          if chunk = 0 then Some (0, st)
          else do {
            (current, st) \<leftarrow> new_span env tlh chunk st;
            span \<leftarrow> get_span st current;
            let (page_idx, span) = find_contiguous_pages span required_pages;
            st \<leftarrow> set_meta current (MSpan span) st;
            if page_idx = -1
            then Some (0, LZ_FATAL ''Span engine failed to map contiguous pages in pristine chunk.'' st)
            else finish_span current page_idx required_pages st } }
        else finish_span current page_idx required_pages st })"

definition span_unlink :: "addr \<Rightarrow> addr \<Rightarrow> lz_state \<Rightarrow> lz_state option" where
  "span_unlink tlh span st = do {
     s \<leftarrow> get_span st span;
     st \<leftarrow> (if sp_prev s \<noteq> 0 then upd_span (sp_prev s) (sp_next_update (\<lambda>_. sp_next s)) st
            else upd_tlh tlh (tl_active_spans_update (\<lambda>_. sp_next s)) st);
     s \<leftarrow> get_span st span;
     if sp_next s \<noteq> 0 then upd_span (sp_next s) (sp_prev_update (\<lambda>_. sp_prev s)) st else Some st }"

definition lz_span_free_local :: "os_env \<Rightarrow> addr \<Rightarrow> addr \<Rightarrow> addr \<Rightarrow> lz_state \<Rightarrow> lz_state option" where
  "lz_span_free_local env tlh chunk p st =
     (let span = chunk + LZ_CACHE_LINE_SIZE;
          offset = p - chunk;
          start_page = unat (ucast (offset div LZ_PAGE_SIZE) :: u32) in
      if start_page = 0 \<or> start_page \<ge> LZ_SPAN_TOTAL_PAGES then Some st
      else do {
        s \<leftarrow> get_span st span;
        let required_pages = (ucast (sp_alloc_size_pages s ! start_page) :: u32);
        if required_pages = 0 then Some st
        else do {
          st \<leftarrow> set_meta span (MSpan (s\<lparr>
                  sp_free_bitmap := set_pages [start_page..<start_page + unat required_pages] (sp_free_bitmap s),
                  sp_alloc_size_pages := (sp_alloc_size_pages s)[start_page := 0],
                  sp_used_pages := sp_used_pages s - required_pages\<rparr>)) st;
          st \<leftarrow> telemetry_free_batch tlh (required_pages * ucast LZ_PAGE_SIZE) st;
          s \<leftarrow> get_span st span;
          if sp_used_pages s = 1 then do {
            st \<leftarrow> span_unlink tlh span st;
            st \<leftarrow> lz_rtree_clear env chunk st;
            lz_vmm_free_chunk chunk st }
          else Some st } })"

definition lz_span_free_remote :: "os_env \<Rightarrow> addr \<Rightarrow> addr \<Rightarrow> addr \<Rightarrow> lz_state \<Rightarrow> lz_state option" where
  "lz_span_free_remote env tlh chunk p st = lz_span_free_local env tlh chunk p st"

end
