(* ===== verification/Tlh.thy ===== *)
theory Tlh
  imports Engines
begin

text \<open>
  The thread-local heap: \<open>src/src/tlh/tlh.h\<close> and \<open>tlh.c\<close>. A heap has 88 bins of slabs, a list of
  spans, a mailbox other threads push freed blocks into, and a batch of blocks it frees on behalf
  of another heap. The operations run alone: the loop around the compare-and-swap of
  \<open>lz_tlh_flush_outgoing_batch\<close> succeeds at its first attempt.
\<close>

section \<open>Bins and lists of slabs\<close>

abbreviation (input) LZ_MAX_SIZE_CLASSES :: nat where "LZ_MAX_SIZE_CLASSES \<equiv> 88"

definition get_bin :: "lz_state \<Rightarrow> addr \<Rightarrow> nat \<Rightarrow> lz_bin option" where
  "get_bin st tlh i = do {
     h \<leftarrow> get_tlh st tlh;
     if i < length (tl_bins h) then Some (tl_bins h ! i) else None }"

definition upd_bin :: "addr \<Rightarrow> nat \<Rightarrow> (lz_bin \<Rightarrow> lz_bin) \<Rightarrow> lz_state \<Rightarrow> lz_state option" where
  "upd_bin tlh i f st = do {
     b \<leftarrow> get_bin st tlh i;
     upd_tlh tlh (\<lambda>h. h\<lparr>tl_bins := (tl_bins h)[i := f b]\<rparr>) st }"

text \<open>
  \<open>if (slab->prev) slab->prev->next = slab->next; else <head> = slab->next;\<close>
  \<open>if (slab->next) slab->next->prev = slab->prev;\<close>
\<close>

definition slab_unlink :: "(addr \<Rightarrow> lz_state \<Rightarrow> lz_state option) \<Rightarrow> addr \<Rightarrow> lz_state \<Rightarrow> lz_state option" where
  "slab_unlink set_head slab st = do {
     s \<leftarrow> get_slab st slab;
     st \<leftarrow> (if sl_prev s \<noteq> 0 then upd_slab (sl_prev s) (sl_next_update (\<lambda>_. sl_next s)) st
            else set_head (sl_next s) st);
     s \<leftarrow> get_slab st slab;
     if sl_next s \<noteq> 0 then upd_slab (sl_next s) (sl_prev_update (\<lambda>_. sl_prev s)) st else Some st }"

text \<open>\<open>slab->next = <head>; slab->prev = NULL; if (<head>) <head>->prev = slab; <head> = slab;\<close>\<close>

definition slab_push :: "addr \<Rightarrow> (addr \<Rightarrow> lz_state \<Rightarrow> lz_state option) \<Rightarrow> addr \<Rightarrow> lz_state \<Rightarrow> lz_state option" where
  "slab_push head set_head slab st = do {
     st \<leftarrow> upd_slab slab (\<lambda>s. s\<lparr>sl_next := head, sl_prev := 0\<rparr>) st;
     st \<leftarrow> (if head \<noteq> 0 then upd_slab head (sl_prev_update (\<lambda>_. slab)) st else Some st);
     set_head slab st }"

text \<open>The head of the partial list becomes the current slab.\<close>

definition promote_partial :: "addr \<Rightarrow> nat \<Rightarrow> lz_state \<Rightarrow> (addr \<times> lz_state) option" where
  "promote_partial tlh i st = do {
     b \<leftarrow> get_bin st tlh i;
     let slab = partial_list b;
     st \<leftarrow> upd_bin tlh i (current_slab_update (\<lambda>_. slab)) st;
     s \<leftarrow> get_slab st slab;
     st \<leftarrow> upd_bin tlh i (partial_list_update (\<lambda>_. sl_next s)) st;
     st \<leftarrow> (if sl_next s \<noteq> 0 then upd_slab (sl_next s) (sl_prev_update (\<lambda>_. 0)) st else Some st);
     st \<leftarrow> upd_slab slab (\<lambda>s. s\<lparr>sl_next := 0, sl_prev := 0\<rparr>) st;
     Some (slab, st) }"

section \<open>Slab lifecycle\<close>

definition lz_tlh_rescue_from_full :: "addr \<Rightarrow> addr \<Rightarrow> lz_state \<Rightarrow> lz_state option" where
  "lz_tlh_rescue_from_full tlh slab st = do {
     s \<leftarrow> get_slab st slab;
     let i = unat (sl_size_class s);
     b \<leftarrow> get_bin st tlh i;
     if slab = current_slab b then Some st
     else do {
       st \<leftarrow> slab_unlink (\<lambda>v. upd_bin tlh i (full_list_update (\<lambda>_. v))) slab st;
       b \<leftarrow> get_bin st tlh i;
       slab_push (partial_list b) (\<lambda>v. upd_bin tlh i (partial_list_update (\<lambda>_. v))) slab st } }"

definition lz_tlh_recycle_empty_slab :: "os_env \<Rightarrow> addr \<Rightarrow> addr \<Rightarrow> lz_state \<Rightarrow> lz_state option" where
  "lz_tlh_recycle_empty_slab env tlh slab st = do {
     s \<leftarrow> get_slab st slab;
     let i = unat (sl_size_class s);
     b \<leftarrow> get_bin st tlh i;
     if slab = current_slab b then
       (if partial_list b = 0 then Some st
        else do {
          (_, st) \<leftarrow> promote_partial tlh i st;
          lz_slab_destroy env slab st })
     else do {
       st \<leftarrow> slab_unlink (\<lambda>v st. do {
               b \<leftarrow> get_bin st tlh i;
               if partial_list b = slab then upd_bin tlh i (partial_list_update (\<lambda>_. v)) st
               else if full_list b = slab then upd_bin tlh i (full_list_update (\<lambda>_. v)) st
               else Some st }) slab st;
       lz_slab_destroy env slab st } }"

section \<open>Remote frees\<close>

definition lz_tlh_flush_outgoing_batch :: "addr \<Rightarrow> lz_state \<Rightarrow> lz_state option" where
  "lz_tlh_flush_outgoing_batch tlh st = do {
     h \<leftarrow> get_tlh st tlh;
     let batch = tl_outgoing_batch h;
     if bt_count batch = 0 \<or> bt_target_tlh batch = 0 then Some st
     else do {
       let target = bt_target_tlh batch;
       t \<leftarrow> get_tlh st target;
       let old_head = tl_remote_free_head t;
       st \<leftarrow> write_ptr (bt_tail batch) old_head st;
       st \<leftarrow> upd_tlh target (tl_remote_free_head_update (\<lambda>_. bt_head batch)) st;
       upd_tlh tlh (\<lambda>h. h\<lparr>tl_outgoing_batch :=
         \<lparr>bt_target_tlh = 0, bt_head = 0, bt_tail = 0, bt_count = 0\<rparr>\<rparr>) st } }"

text \<open>A freed object goes on the free list of its slab, its link obfuscated, and the slab moves.\<close>

definition slab_release :: "os_env \<Rightarrow> addr \<Rightarrow> addr \<Rightarrow> addr \<Rightarrow> lz_state \<Rightarrow> lz_state option" where
  "slab_release env tlh slab node st = do {
     s \<leftarrow> get_slab st slab;
     st \<leftarrow> write_ptr node (lz_ptr_obfuscate st (sl_free_list_head s) node) st;
     st \<leftarrow> upd_slab slab (sl_free_list_head_update (\<lambda>_. node)) st;
     st \<leftarrow> upd_slab slab (\<lambda>s. s\<lparr>sl_used_objects := sl_used_objects s - 1\<rparr>) st;
     s \<leftarrow> get_slab st slab;
     st \<leftarrow> (if sl_used_objects s = sl_max_objects s - 1 then lz_tlh_rescue_from_full tlh slab st else Some st);
     s \<leftarrow> get_slab st slab;
     st \<leftarrow> (if sl_used_objects s = 0 then lz_tlh_recycle_empty_slab env tlh slab st else Some st);
     h \<leftarrow> get_tlh st tlh;
     if tl_stat_slot h \<noteq> 0 then do {
       s \<leftarrow> get_slab st slab;
       telemetry_free_batch tlh (sl_block_size s) st }
     else Some st }"

partial_function (option) reap_list :: "os_env \<Rightarrow> addr \<Rightarrow> addr \<Rightarrow> lz_state \<Rightarrow> lz_state option" where
  "reap_list env tlh head st =
     (if head = 0 then Some st
      else do {
        next_clear \<leftarrow> read_ptr st head;
        let chunk = chunk_of head;
        h \<leftarrow> get_hdr st chunk;
        st \<leftarrow> (if ch_chunk_type h = LZ_CHUNK_TYPE_SLAB
               then slab_release env tlh (chunk + LZ_CACHE_LINE_SIZE) head st
               else if ch_chunk_type h = LZ_CHUNK_TYPE_SPAN
               then lz_span_free_remote env tlh chunk head st
               else Some st);
        reap_list env tlh next_clear st })"

definition lz_tlh_reap :: "os_env \<Rightarrow> addr \<Rightarrow> lz_state \<Rightarrow> lz_state option" where
  "lz_tlh_reap env tlh st = do {
     h \<leftarrow> get_tlh st tlh;
     st \<leftarrow> upd_tlh tlh (tl_remote_free_head_update (\<lambda>_. 0)) st;
     reap_list env tlh (tl_remote_free_head h) st }"

section \<open>Allocation\<close>

text \<open>Take the head of the free list of a slab.\<close>

definition pop_free :: "addr \<Rightarrow> lz_state \<Rightarrow> (addr \<times> lz_state) option" where
  "pop_free slab st = do {
     s \<leftarrow> get_slab st slab;
     let node = sl_free_list_head s;
     obfuscated_next \<leftarrow> read_ptr st node;
     st \<leftarrow> upd_slab slab (sl_free_list_head_update (\<lambda>_. lz_ptr_obfuscate st obfuscated_next node)) st;
     st \<leftarrow> upd_slab slab (\<lambda>s. s\<lparr>sl_used_objects := sl_used_objects s + 1\<rparr>) st;
     Some (node, st) }"

definition retire_current :: "addr \<Rightarrow> nat \<Rightarrow> addr \<Rightarrow> lz_state \<Rightarrow> lz_state option" where
  "retire_current tlh i slab st =
     (if slab \<noteq> 0 then do {
        b \<leftarrow> get_bin st tlh i;
        slab_push (full_list b) (\<lambda>v. upd_bin tlh i (full_list_update (\<lambda>_. v))) slab st }
      else Some st)"

definition lz_tlh_alloc_slow :: "os_env \<Rightarrow> addr \<Rightarrow> u32 \<Rightarrow> lz_state \<Rightarrow> (addr \<times> lz_state) option" where
  "lz_tlh_alloc_slow env tlh sc_idx st =
     (let i = unat sc_idx in do {
        b \<leftarrow> get_bin st tlh i;
        let slab = current_slab b;
        if partial_list b \<noteq> 0 then do {
          st \<leftarrow> retire_current tlh i slab st;
          (slab, st) \<leftarrow> promote_partial tlh i st;
          pop_free slab st }
        else do {
          (new_slab, st) \<leftarrow> lz_slab_create env tlh sc_idx st;
          if new_slab = 0 then Some (0, st)
          else do {
            st \<leftarrow> retire_current tlh i slab st;
            st \<leftarrow> upd_bin tlh i (current_slab_update (\<lambda>_. new_slab)) st;
            s \<leftarrow> get_slab st new_slab;
            let p = sl_bump_ptr s;
            st \<leftarrow> upd_slab new_slab (\<lambda>s. s\<lparr>sl_bump_ptr := p + ucast (sl_block_size s)\<rparr>) st;
            st \<leftarrow> upd_slab new_slab (\<lambda>s. s\<lparr>sl_used_objects := sl_used_objects s + 1\<rparr>) st;
            Some (p, st) } } })"

definition lz_tlh_init :: "addr \<Rightarrow> u32 \<Rightarrow> lz_state \<Rightarrow> lz_state option" where
  "lz_tlh_init tlh tid st = upd_tlh tlh (\<lambda>h. h\<lparr>tl_thread_id := tid, tl_is_zombie := 0, tl_bytes_allocated := 0,
     tl_local_bytes_alloc_batch := 0, tl_local_bytes_free_batch := 0, tl_stat_slot := 0, tl_active_spans := 0,
     tl_remote_free_head := 0,
     tl_outgoing_batch := \<lparr>bt_target_tlh = 0, bt_head = 0, bt_tail = 0, bt_count = 0\<rparr>,
     tl_bins := replicate LZ_MAX_SIZE_CLASSES \<lparr>current_slab = 0, partial_list = 0, full_list = 0\<rparr>\<rparr>) st"

text \<open>The bump pointer of the current slab, or the end of its bumping.\<close>

definition bump_alloc :: "addr \<Rightarrow> lz_state \<Rightarrow> (addr \<times> lz_state) option" where
  "bump_alloc slab st = do {
     s \<leftarrow> get_slab st slab;
     let p = sl_bump_ptr s;
     let next_bump = p + ucast (sl_block_size s);
     if next_bump \<le> sl_memory_end s then do {
       st \<leftarrow> upd_slab slab (\<lambda>s. s\<lparr>sl_bump_ptr := next_bump\<rparr>) st;
       st \<leftarrow> upd_slab slab (\<lambda>s. s\<lparr>sl_used_objects := sl_used_objects s + 1\<rparr>) st;
       Some (p, st) }
     else do {
       st \<leftarrow> upd_slab slab (\<lambda>s. s\<lparr>sl_bump_ptr := 0\<rparr>) st;
       Some (0, st) } }"

text \<open>
  The attempts that stay within the current slab, before and after reaping the mailbox; the second
  component is \<open>allocated_size\<close>.
\<close>

definition alloc_current :: "os_env \<Rightarrow> addr \<Rightarrow> nat \<Rightarrow> lz_state \<Rightarrow> (addr \<times> u64 \<times> lz_state) option" where
  "alloc_current env tlh i st = do {
     b \<leftarrow> get_bin st tlh i;
     let slab = current_slab b;
     hot \<leftarrow> (if slab = 0 then Some False
            else do { s \<leftarrow> get_slab st slab; Some (sl_free_list_head s \<noteq> 0) });
     if hot then do {
       (p, st) \<leftarrow> pop_free slab st;
       s \<leftarrow> get_slab st slab;
       Some (p, ucast (sl_block_size s), st) }
     else do {
       st \<leftarrow> lz_tlh_reap env tlh st;
       b \<leftarrow> get_bin st tlh i;
       let slab = current_slab b;
       if slab = 0 then Some (0, 0, st)
       else do {
         s \<leftarrow> get_slab st slab;
         if sl_free_list_head s \<noteq> 0 then do {
           (p, st) \<leftarrow> pop_free slab st;
           Some (p, ucast (sl_block_size s), st) }
         else if sl_bump_ptr s \<noteq> 0 then do {
           (p, st) \<leftarrow> bump_alloc slab st;
           Some (p, if p = 0 then 0 else ucast (sl_block_size s), st) }
         else Some (0, 0, st) } } }"

definition lz_tlh_alloc :: "os_env \<Rightarrow> addr \<Rightarrow> u64 \<Rightarrow> lz_state \<Rightarrow> (addr \<times> lz_state) option" where
  "lz_tlh_alloc env tlh sz st =
     (if sz > LZ_MAX_SLAB_OBJ_SIZE then lz_span_alloc env tlh sz st
      else let sc_idx = lz_size_to_class sz; i = unat sc_idx in do {
        (p, allocated_size, st) \<leftarrow> alloc_current env tlh i st;
        if p \<noteq> 0 then do {
          st \<leftarrow> telemetry_alloc_batch tlh allocated_size st;
          Some (p, st) }
        else do {
          (p, st) \<leftarrow> lz_tlh_alloc_slow env tlh sc_idx st;
          if p = 0 then Some (0, st)
          else do {
            b \<leftarrow> get_bin st tlh i;
            s \<leftarrow> get_slab st (current_slab b);
            st \<leftarrow> telemetry_alloc_batch tlh (ucast (sl_block_size s)) st;
            Some (p, st) } } })"

section \<open>Deallocation\<close>

definition batch_free :: "addr \<Rightarrow> addr \<Rightarrow> addr \<Rightarrow> lz_state \<Rightarrow> lz_state option" where
  "batch_free tlh owner node st = do {
     st \<leftarrow> write_ptr node 0 st;
     h \<leftarrow> get_tlh st tlh;
     let batch = tl_outgoing_batch h;
     st \<leftarrow> (if bt_target_tlh batch \<noteq> owner \<or> bt_count batch \<ge> LZ_BATCH_MAX_SIZE then do {
              st \<leftarrow> lz_tlh_flush_outgoing_batch tlh st;
              upd_tlh tlh (\<lambda>h. h\<lparr>tl_outgoing_batch := (tl_outgoing_batch h)\<lparr>bt_target_tlh := owner\<rparr>\<rparr>) st }
            else Some st);
     h \<leftarrow> get_tlh st tlh;
     let batch = tl_outgoing_batch h;
     st \<leftarrow> write_ptr node (bt_head batch) st;
     upd_tlh tlh (\<lambda>h. h\<lparr>tl_outgoing_batch := batch\<lparr>bt_head := node,
       bt_tail := (if bt_count batch = 0 then node else bt_tail batch),
       bt_count := bt_count batch + 1\<rparr>\<rparr>) st }"

definition lz_tlh_free :: "os_env \<Rightarrow> addr \<Rightarrow> addr \<Rightarrow> lz_state \<Rightarrow> lz_state option" where
  "lz_tlh_free env tlh p st =
     (if p = 0 then Some st
      else do {
        let chunk = chunk_of p;
        h \<leftarrow> get_hdr st chunk;
        chunk \<leftarrow> (if ch_magic h \<noteq> LZ_CHUNK_MAGIC_V2 then lz_rtree_get st p else Some chunk);
        if chunk = 0 then Some st
        else do {
          h \<leftarrow> get_hdr st chunk;
          if ch_owning_tlh h = tlh then
            (if ch_chunk_type h = LZ_CHUNK_TYPE_SLAB then slab_release env tlh (chunk + LZ_CACHE_LINE_SIZE) p st
             else if ch_chunk_type h = LZ_CHUNK_TYPE_SPAN then lz_span_free_local env tlh chunk p st
             else Some st)
          else batch_free tlh (ch_owning_tlh h) p st } })"

end
