(* ===== verification/Lzmalloc.thy ===== *)
theory Lzmalloc
  imports Tlh
begin

text \<open>
  The allocation interface: \<open>src/src/hooks/lzmalloc.c\<close>. Every function takes the number of the
  calling thread, which selects its thread-local variables. Trapping (\<open>__builtin_trap\<close>) is \<open>None\<close>.
\<close>

section \<open>Huge mappings\<close>

definition lz_sys_alloc_huge_aligned :: "os_env \<Rightarrow> u64 \<Rightarrow> lz_state \<Rightarrow> addr \<times> lz_state" where
  "lz_sys_alloc_huge_aligned env total_size st =
     (let request_size = total_size + LZ_HUGE_PAGE_SIZE in
      case sys_mmap env request_size st of
        (None, st) \<Rightarrow> (0, st)
      | (Some raw_addr, st) \<Rightarrow>
         (if raw_addr AND (LZ_HUGE_PAGE_SIZE - 1) = 0 then
            let st = sys_munmap (raw_addr + total_size) LZ_HUGE_PAGE_SIZE st;
                st = sys_madvise raw_addr total_size MADV_HUGEPAGE st
            in (raw_addr, st)
          else
            let aligned_addr = LZ_ALIGN_UP raw_addr LZ_HUGE_PAGE_SIZE;
                prefix_size = aligned_addr - raw_addr;
                suffix_size = request_size - prefix_size - total_size;
                st = (if prefix_size > 0 then sys_munmap raw_addr prefix_size st else st);
                st = (if suffix_size > 0 then sys_munmap (aligned_addr + total_size) suffix_size st else st);
                st = sys_madvise aligned_addr total_size MADV_HUGEPAGE st
            in (aligned_addr, st)))"

text \<open>The header and the two size words of a direct mapping, and its 2 MB blocks in the tree.\<close>

definition format_direct :: "os_env \<Rightarrow> addr \<Rightarrow> u64 \<Rightarrow> u64 \<Rightarrow> lz_state \<Rightarrow> lz_state option" where
  "format_direct env p total_bytes sz st = do {
     st \<leftarrow> upd_hdr p (\<lambda>h. h\<lparr>ch_magic := LZ_CHUNK_MAGIC_V2, ch_owning_tlh := 0,
             ch_chunk_type := LZ_CHUNK_TYPE_DIRECT, ch_node_id := 0, ch_canary := 0, ch_next := 0\<rparr>) st;
     st \<leftarrow> upd_hdr p (\<lambda>h. h\<lparr>ch_checksum := lz_calc_checksum h\<rparr>) st;
     st \<leftarrow> set_meta (p + LZ_CACHE_LINE_SIZE) (MDirect total_bytes sz) st;
     for_blocks (\<lambda>offset. lz_rtree_set env (p + offset) p) total_bytes 0 st }"

section \<open>Zombies\<close>

definition zombie_lock :: "lz_state \<Rightarrow> lz_state option" where
  "zombie_lock st = (if g_zombie_lock st then None else Some (st\<lparr>g_zombie_lock := True\<rparr>))"

definition zombie_unlock :: "lz_state \<Rightarrow> lz_state" where
  "zombie_unlock st = st\<lparr>g_zombie_lock := False\<rparr>"

definition lz_resurrect_zombie :: "lz_state \<Rightarrow> (addr \<times> lz_state) option" where
  "lz_resurrect_zombie st = do {
     st \<leftarrow> zombie_lock st;
     let head = g_zombie_tlhs st;
     st \<leftarrow> (if head \<noteq> 0 then do {
              h \<leftarrow> get_tlh st head;
              let st = st\<lparr>g_zombie_tlhs := tl_next_zombie h\<rparr>;
              upd_tlh head (tl_next_zombie_update (\<lambda>_. 0)) st }
            else Some st);
     Some (head, zombie_unlock st) }"

partial_function (option) reap_zombies :: "os_env \<Rightarrow> addr \<Rightarrow> lz_state \<Rightarrow> lz_state option" where
  "reap_zombies env current st =
     (if current = 0 then Some st
      else do {
        st \<leftarrow> lz_tlh_reap env current st;
        h \<leftarrow> get_tlh st current;
        reap_zombies env (tl_next_zombie h) st })"

definition lzmalloc_gc :: "os_env \<Rightarrow> nat \<Rightarrow> lz_state \<Rightarrow> lz_state option" where
  "lzmalloc_gc env t st = do {
     st \<leftarrow> (if tls_tlh_ptr st t \<noteq> 0 then lz_tlh_reap env (tls_tlh_ptr st t) st else Some st);
     st \<leftarrow> zombie_lock st;
     let current = g_zombie_tlhs st;
     let st = zombie_unlock st;
     st \<leftarrow> reap_zombies env current st;
     lz_vmm_purge_all_caches st }"

section \<open>Lifecycle\<close>

definition lz_tlh_destructor :: "addr \<Rightarrow> lz_state \<Rightarrow> lz_state option" where
  "lz_tlh_destructor tlh st =
     (if tlh = 0 then Some st
      else do {
        st \<leftarrow> lz_tlh_flush_outgoing_batch tlh st;
        h \<leftarrow> get_tlh st tlh;
        st \<leftarrow> (if tl_stat_slot h \<noteq> 0 then do {
                 st \<leftarrow> (if tl_local_bytes_alloc_batch h > 0
                        then upd_stat (tl_stat_slot h) (\<lambda>c. c\<lparr>bytes_allocated :=
                               bytes_allocated c + ucast (tl_local_bytes_alloc_batch h)\<rparr>) st
                        else Some st);
                 st \<leftarrow> (if tl_local_bytes_free_batch h > 0
                        then upd_stat (tl_stat_slot h) (\<lambda>c. c\<lparr>bytes_allocated :=
                               bytes_allocated c - ucast (tl_local_bytes_free_batch h)\<rparr>) st
                        else Some st);
                 upd_tlh tlh (\<lambda>h. h\<lparr>tl_local_bytes_alloc_batch := 0, tl_local_bytes_free_batch := 0\<rparr>) st }
               else Some st);
        st \<leftarrow> upd_tlh tlh (tl_is_zombie_update (\<lambda>_. 1)) st;
        st \<leftarrow> zombie_lock st;
        st \<leftarrow> upd_tlh tlh (tl_next_zombie_update (\<lambda>_. g_zombie_tlhs st)) st;
        Some (zombie_unlock (st\<lparr>g_zombie_tlhs := tlh\<rparr>)) })"

text \<open>The loop over the environment of \<open>lz_system_init\<close>, which stops at the first match.\<close>

fun telemetry_scan :: "os_env \<Rightarrow> proc_env \<Rightarrow> string list \<Rightarrow> lz_state \<Rightarrow> lz_state" where
  "telemetry_scan env pe [] st = st"
| "telemetry_scan env pe (e # es) st =
     (if strncmp_eq e ''LZMALLOC_TELEMETRY='' 19 then lz_telemetry_init env pe st
      else telemetry_scan env pe es st)"

definition lz_system_init :: "os_env \<Rightarrow> proc_env \<Rightarrow> entropy \<Rightarrow> lz_state \<Rightarrow> lz_state" where
  "lz_system_init env pe ent st =
     (let st = lz_security_init ent st;
          st = lz_vmm_init st;
          st = lz_rtree_init st
      in case pe_environ pe of None \<Rightarrow> st | Some es \<Rightarrow> telemetry_scan env pe es st)"

abbreviation (input) sizeof_lz_tlh :: u64 where "sizeof_lz_tlh \<equiv> 2240"

definition next_thread_id :: "lz_state \<Rightarrow> u32 \<times> lz_state" where
  "next_thread_id st = (g_thread_counter st, st\<lparr>g_thread_counter := g_thread_counter st + 1\<rparr>)"

definition ensure_tls_init :: "os_env \<Rightarrow> nat \<Rightarrow> lz_state \<Rightarrow> lz_state option" where
  "ensure_tls_init env t st =
     (if tls_tlh_ptr st t \<noteq> 0 then Some st
      else do {
        (tlh, st) \<leftarrow> lz_resurrect_zombie st;
        (tlh, st) \<leftarrow>
          (if tlh \<noteq> 0 then do {
             st \<leftarrow> upd_tlh tlh (tl_is_zombie_update (\<lambda>_. 0)) st;
             let (tid, st) = next_thread_id st;
             st \<leftarrow> upd_tlh tlh (tl_thread_id_update (\<lambda>_. tid)) st;
             Some (tlh, st) }
           else (case sys_mmap env sizeof_lz_tlh st of
                   (None, st) \<Rightarrow> None
                 | (Some tlh, st) \<Rightarrow> do {
                     let (tid, st) = next_thread_id st;
                     st \<leftarrow> lz_tlh_init tlh tid st;
                     st \<leftarrow> upd_tlh tlh (\<lambda>h. h\<lparr>tl_is_zombie := 0, tl_next_zombie := 0\<rparr>) st;
                     Some (tlh, st) }));
        let st = st\<lparr>tls_tlh_ptr := (tls_tlh_ptr st)(t := tlh)\<rparr>;
        st \<leftarrow> upd_tlh tlh (\<lambda>h. h\<lparr>tl_local_bytes_alloc_batch := 0, tl_local_bytes_free_batch := 0\<rparr>) st;
        h \<leftarrow> get_tlh st tlh;
        let max_thread_slots = LZ_MAX_TELEMETRY_SLOTS - LZ_THREAD_SLOT_BASE_IDX;
        let safe_idx = tl_thread_id h mod max_thread_slots;
        st \<leftarrow> upd_tlh tlh (tl_stat_slot_update (\<lambda>_. lz_telemetry_get_slot (LZ_THREAD_SLOT_BASE_IDX + safe_idx) st)) st;
        Some (st\<lparr>g_tlh_key := (g_tlh_key st)(t := tlh)\<rparr>) })"

section \<open>malloc and free\<close>

definition lz_malloc :: "os_env \<Rightarrow> nat \<Rightarrow> u64 \<Rightarrow> lz_state \<Rightarrow> (addr \<times> lz_state) option" where
  "lz_malloc env t sz st =
     (let sz = (if sz = 0 then 1 else sz) in
      if sz \<le> LZ_MAX_SLAB_OBJ_SIZE then do {
        st \<leftarrow> ensure_tls_init env t st;
        lz_tlh_alloc env (tls_tlh_ptr st t) sz st }
      else if sz \<le> 1048576 then do {
        st \<leftarrow> ensure_tls_init env t st;
        lz_span_alloc env (tls_tlh_ptr st t) sz st }
      else
        let payload_offset = 128;
            required_bytes = payload_offset + sz;
            total_bytes = LZ_ALIGN_UP required_bytes LZ_HUGE_PAGE_SIZE;
            (p, st) = lz_sys_alloc_huge_aligned env total_bytes st
        in if p = 0 then Some (0, st)
           else do {
             st \<leftarrow> format_direct env p total_bytes sz st;
             Some (p + payload_offset, st) })"

text \<open>The header of the block a pointer lies in, by the tree.\<close>

definition find_chunk :: "addr \<Rightarrow> lz_state \<Rightarrow> addr option" where
  "find_chunk p st = do {
     chunk \<leftarrow> lz_rtree_get st p;
     if chunk = 0 then lz_rtree_get st (chunk_of p) else Some chunk }"

definition lz_free :: "os_env \<Rightarrow> nat \<Rightarrow> addr \<Rightarrow> lz_state \<Rightarrow> lz_state option" where
  "lz_free env t p st =
     (if p = 0 then Some st
      else do {
        chunk \<leftarrow> find_chunk p st;
        if chunk = 0 then Some st
        else do {
          h \<leftarrow> get_hdr st chunk;
          if ch_magic h \<noteq> LZ_CHUNK_MAGIC_V2 then Some st
          else if ch_chunk_type h = LZ_CHUNK_TYPE_DIRECT then do {
            (total_bytes, _) \<leftarrow> get_direct st (chunk + LZ_CACHE_LINE_SIZE);
            st \<leftarrow> for_blocks (\<lambda>offset. lz_rtree_clear env (chunk + offset)) total_bytes 0 st;
            Some (sys_munmap chunk total_bytes st) }
          else do {
            st \<leftarrow> ensure_tls_init env t st;
            lz_tlh_free env (tls_tlh_ptr st t) p st } } })"

section \<open>The other entry points\<close>

definition SIZE_MAX :: u64 where
  "SIZE_MAX = 0xFFFFFFFFFFFFFFFF"

definition lz_calloc :: "os_env \<Rightarrow> nat \<Rightarrow> u64 \<Rightarrow> u64 \<Rightarrow> lz_state \<Rightarrow> (addr \<times> lz_state) option" where
  "lz_calloc env t num sz st =
     (let (num, sz) = (if num = 0 \<or> sz = 0 then (1, 1) else (num, sz)) in
      if SIZE_MAX div num < sz then Some (0, st)
      else let total_size = num * sz in do {
        (p, st) \<leftarrow> lz_malloc env t total_size st;
        if p = 0 then Some (0, st)
        else do {
          st \<leftarrow> (if total_size \<le> 1048576 then memset_zero p total_size st else Some st);
          Some (p, st) } })"

definition lz_malloc_usable_size :: "addr \<Rightarrow> lz_state \<Rightarrow> u64 option" where
  "lz_malloc_usable_size p st =
     (if p = 0 then Some 0
      else do {
        chunk \<leftarrow> find_chunk p st;
        if chunk = 0 then Some 0
        else do {
          h \<leftarrow> get_hdr st chunk;
          if ch_magic h \<noteq> LZ_CHUNK_MAGIC_V2 then Some 0
          else if ch_chunk_type h = LZ_CHUNK_TYPE_DIRECT then do {
            (_, sz) \<leftarrow> get_direct st (chunk + LZ_CACHE_LINE_SIZE);
            Some sz }
          else if ch_chunk_type h = LZ_CHUNK_TYPE_SLAB then do {
            s \<leftarrow> get_slab st (chunk + LZ_CACHE_LINE_SIZE);
            Some (ucast (sl_block_size s)) }
          else if ch_chunk_type h = LZ_CHUNK_TYPE_SPAN then do {
            s \<leftarrow> get_span st (chunk + LZ_CACHE_LINE_SIZE);
            let start_page = unat (ucast ((p - chunk) div LZ_PAGE_SIZE) :: u32);
            if start_page < length (sp_alloc_size_pages s)
            then Some (ucast (sp_alloc_size_pages s ! start_page) * LZ_PAGE_SIZE) else None }
          else Some 0 } })"

definition lz_realloc :: "os_env \<Rightarrow> nat \<Rightarrow> addr \<Rightarrow> u64 \<Rightarrow> lz_state \<Rightarrow> (addr \<times> lz_state) option" where
  "lz_realloc env t p new_size st =
     (if p = 0 then lz_malloc env t new_size st
      else if new_size = 0 then do { st \<leftarrow> lz_free env t p st; Some (0, st) }
      else do {
        old_size \<leftarrow> lz_malloc_usable_size p st;
        if old_size = 0 then Some (0, st)
        else if new_size \<le> old_size then Some (p, st)
        else do {
          (new_ptr, st) \<leftarrow> lz_malloc env t new_size st;
          if new_ptr = 0 then Some (0, st)
          else do {
            st \<leftarrow> memcpy new_ptr p old_size st;
            st \<leftarrow> lz_free env t p st;
            Some (new_ptr, st) } } })"

definition is_power_of_two :: "u64 \<Rightarrow> bool" where
  "is_power_of_two x \<longleftrightarrow> x \<noteq> 0 \<and> x AND (x - 1) = 0"

definition lz_memalign :: "os_env \<Rightarrow> nat \<Rightarrow> u64 \<Rightarrow> u64 \<Rightarrow> lz_state \<Rightarrow> (addr \<times> lz_state) option" where
  "lz_memalign env t alignment sz st =
     (if alignment = 0 \<or> \<not> is_power_of_two alignment then Some (0, st)
      else if alignment \<le> 64 \<and> sz \<le> LZ_MAX_SLAB_OBJ_SIZE then lz_malloc env t (LZ_ALIGN_UP sz alignment) st
      else if alignment \<le> LZ_PAGE_SIZE \<and> sz \<le> 1048576 then do {
        st \<leftarrow> ensure_tls_init env t st;
        lz_span_alloc env (tls_tlh_ptr st t) sz st }
      else
        let base_offset = 128;
            dynamic_offset = LZ_ALIGN_UP base_offset alignment;
            required_bytes = dynamic_offset + sz;
            total_bytes = LZ_ALIGN_UP required_bytes LZ_HUGE_PAGE_SIZE;
            (p, st) = lz_sys_alloc_huge_aligned env total_bytes st
        in if p = 0 then Some (0, st)
           else do {
             st \<leftarrow> format_direct env p total_bytes sz st;
             Some (p + dynamic_offset, st) })"

datatype errno = EOK | EINVAL | ENOMEM

text \<open>\<open>posix_memalign\<close> stores through \<open>memptr\<close>, a variable of the caller: the new value is returned.\<close>

definition lz_posix_memalign ::
  "os_env \<Rightarrow> nat \<Rightarrow> addr option \<Rightarrow> u64 \<Rightarrow> u64 \<Rightarrow> lz_state \<Rightarrow> (errno \<times> addr option \<times> lz_state) option" where
  "lz_posix_memalign env t memptr alignment sz st =
     (case memptr of
        None \<Rightarrow> Some (EINVAL, memptr, st)
      | Some _ \<Rightarrow>
         (if alignment mod 8 \<noteq> 0 \<or> \<not> is_power_of_two alignment then Some (EINVAL, memptr, st)
          else do {
            (p, st) \<leftarrow> lz_memalign env t alignment sz st;
            if p = 0 then Some (ENOMEM, memptr, st) else Some (EOK, Some p, st) }))"

definition lz_aligned_alloc :: "os_env \<Rightarrow> nat \<Rightarrow> u64 \<Rightarrow> u64 \<Rightarrow> lz_state \<Rightarrow> (addr \<times> lz_state) option" where
  "lz_aligned_alloc env t alignment sz st =
     (if alignment = 0 \<or> \<not> is_power_of_two alignment then Some (0, st)
      else if sz mod alignment \<noteq> 0 then Some (0, st)
      else lz_memalign env t alignment sz st)"

definition page_size :: "os_env \<Rightarrow> u64" where
  "page_size env = (if os_pagesize env \<le> 0 then 4096 else of_int (os_pagesize env))"

definition lz_valloc :: "os_env \<Rightarrow> nat \<Rightarrow> u64 \<Rightarrow> lz_state \<Rightarrow> (addr \<times> lz_state) option" where
  "lz_valloc env t sz st = lz_memalign env t (page_size env) sz st"

definition lz_pvalloc :: "os_env \<Rightarrow> nat \<Rightarrow> u64 \<Rightarrow> lz_state \<Rightarrow> (addr \<times> lz_state) option" where
  "lz_pvalloc env t sz st =
     (let rounded_size = LZ_ALIGN_UP sz (page_size env) in lz_memalign env t (page_size env) rounded_size st)"

end
