(* ===== verification/Posix_Hooks.thy ===== *)
theory Posix_Hooks
  imports Lzmalloc
begin

text \<open>
  The public symbols: \<open>src/src/hooks/posix_hooks.c\<close>. Until the constructor has run, requests go to a
  bump allocator over a static array of 4 MB whose address is \<open>g_base_heap\<close>; afterwards to
  \<open>lzmalloc.c\<close>. Pointers into the array are recognised by their address and never freed.
\<close>

section \<open>The base allocator\<close>

abbreviation (input) LZ_BASE_HEAP_SIZE :: u64 where "LZ_BASE_HEAP_SIZE \<equiv> 4194304"
abbreviation (input) LZ_ABI_ALIGNMENT :: u64 where "LZ_ABI_ALIGNMENT \<equiv> 16"
abbreviation (input) sizeof_lz_base_header :: u64 where "sizeof_lz_base_header \<equiv> 16"

definition is_base_ptr :: "lz_state \<Rightarrow> addr \<Rightarrow> bool" where
  "is_base_ptr st p \<longleftrightarrow> p \<ge> g_base_heap st \<and> p < g_base_heap st + LZ_BASE_HEAP_SIZE"

text \<open>The body of the loop: where the block goes when the offset read is \<open>current_offset\<close>.\<close>

definition base_place :: "addr \<Rightarrow> u64 \<Rightarrow> u64 \<Rightarrow> u64 \<Rightarrow> u64 \<times> u64" where
  "base_place heap alignment sz current_offset =
     (let base_addr = heap + current_offset;
          payload_addr = LZ_ALIGN_UP (base_addr + sizeof_lz_base_header) alignment;
          aligned_offset = payload_addr - sizeof_lz_base_header - heap;
          total_size = LZ_ALIGN_UP sz LZ_ABI_ALIGNMENT
      in (aligned_offset, total_size))"

definition lz_base_malloc_aligned :: "u64 \<Rightarrow> u64 \<Rightarrow> lz_state \<Rightarrow> (addr \<times> lz_state) option" where
  "lz_base_malloc_aligned alignment sz st =
     (let alignment = (if alignment < LZ_ABI_ALIGNMENT then LZ_ABI_ALIGNMENT else alignment);
          sz = (if sz = 0 then LZ_ABI_ALIGNMENT else sz);
          (aligned_offset, total_size) = base_place (g_base_heap st) alignment sz (g_base_offset st);
          st = st\<lparr>g_base_offset := aligned_offset + sizeof_lz_base_header + total_size\<rparr>
      in if aligned_offset + sizeof_lz_base_header + total_size > LZ_BASE_HEAP_SIZE then None
         else let header = g_base_heap st + aligned_offset in do {
           st \<leftarrow> write_ptr header sz st;
           Some (header + sizeof_lz_base_header, st) })"

definition lz_base_malloc :: "u64 \<Rightarrow> lz_state \<Rightarrow> (addr \<times> lz_state) option" where
  "lz_base_malloc sz st = lz_base_malloc_aligned LZ_ABI_ALIGNMENT sz st"

definition base_exact_size :: "addr \<Rightarrow> lz_state \<Rightarrow> u64 option" where
  "base_exact_size p st = read_ptr st (p - sizeof_lz_base_header)"

section \<open>Bootstrap and routing\<close>

definition lz_bootstrap_system :: "os_env \<Rightarrow> proc_env \<Rightarrow> entropy \<Rightarrow> lz_state \<Rightarrow> lz_state" where
  "lz_bootstrap_system env pe ent st = (lz_system_init env pe ent st)\<lparr>g_lz_ready := True\<rparr>"

definition lz_malloc_routed :: "os_env \<Rightarrow> nat \<Rightarrow> u64 \<Rightarrow> lz_state \<Rightarrow> (addr \<times> lz_state) option" where
  "lz_malloc_routed env t sz st = (if g_lz_ready st then lz_malloc env t sz st else lz_base_malloc sz st)"

definition lz_free_routed :: "os_env \<Rightarrow> nat \<Rightarrow> addr \<Rightarrow> lz_state \<Rightarrow> lz_state option" where
  "lz_free_routed env t p st =
     (if p = 0 then Some st
      else if is_base_ptr st p then Some st
      else if g_lz_ready st then lz_free env t p st
      else Some st)"

section \<open>Public hooks\<close>

definition hook_malloc :: "os_env \<Rightarrow> nat \<Rightarrow> u64 \<Rightarrow> lz_state \<Rightarrow> (addr \<times> lz_state) option" where
  "hook_malloc env t sz st = lz_malloc_routed env t sz st"

definition hook_free :: "os_env \<Rightarrow> nat \<Rightarrow> addr \<Rightarrow> lz_state \<Rightarrow> lz_state option" where
  "hook_free env t p st = lz_free_routed env t p st"

text \<open>\<open>__builtin_mul_overflow\<close>: the product, or \<open>None\<close> when it does not fit.\<close>

definition mul_overflow :: "u64 \<Rightarrow> u64 \<Rightarrow> u64 option" where
  "mul_overflow a b = (if unat a * unat b \<ge> 2 ^ 64 then None else Some (a * b))"

definition hook_calloc :: "os_env \<Rightarrow> nat \<Rightarrow> u64 \<Rightarrow> u64 \<Rightarrow> lz_state \<Rightarrow> (addr \<times> lz_state) option" where
  "hook_calloc env t num sz st =
     (case mul_overflow num sz of
        None \<Rightarrow> Some (0, st)
      | Some total_bytes \<Rightarrow>
         (if g_lz_ready st then lz_calloc env t num sz st
          else do {
            (p, st) \<leftarrow> lz_base_malloc total_bytes st;
            st \<leftarrow> (if p \<noteq> 0 then memset_zero p total_bytes st else Some st);
            Some (p, st) }))"

definition hook_realloc :: "os_env \<Rightarrow> nat \<Rightarrow> addr \<Rightarrow> u64 \<Rightarrow> lz_state \<Rightarrow> (addr \<times> lz_state) option" where
  "hook_realloc env t p new_size st =
     (if p = 0 then lz_malloc_routed env t new_size st
      else if new_size = 0 then do { st \<leftarrow> lz_free_routed env t p st; Some (0, st) }
      else if is_base_ptr st p then do {
        old_size \<leftarrow> base_exact_size p st;
        if new_size \<le> old_size then Some (p, st)
        else do {
          (new_ptr, st) \<leftarrow> lz_malloc_routed env t new_size st;
          st \<leftarrow> (if new_ptr \<noteq> 0 then memcpy new_ptr p old_size st else Some st);
          Some (new_ptr, st) } }
      else if \<not> g_lz_ready st then Some (0, st)
      else lz_realloc env t p new_size st)"

definition hook_posix_memalign ::
  "os_env \<Rightarrow> nat \<Rightarrow> addr option \<Rightarrow> u64 \<Rightarrow> u64 \<Rightarrow> lz_state \<Rightarrow> (errno \<times> addr option \<times> lz_state) option" where
  "hook_posix_memalign env t memptr alignment sz st =
     (if g_lz_ready st then lz_posix_memalign env t memptr alignment sz st
      else do {
        (p, st) \<leftarrow> lz_base_malloc_aligned alignment sz st;
        case memptr of None \<Rightarrow> None | Some _ \<Rightarrow> Some (EOK, Some p, st) })"

definition hook_memalign :: "os_env \<Rightarrow> nat \<Rightarrow> u64 \<Rightarrow> u64 \<Rightarrow> lz_state \<Rightarrow> (addr \<times> lz_state) option" where
  "hook_memalign env t alignment sz st =
     (if g_lz_ready st then lz_memalign env t alignment sz st else lz_base_malloc_aligned alignment sz st)"

definition hook_aligned_alloc :: "os_env \<Rightarrow> nat \<Rightarrow> u64 \<Rightarrow> u64 \<Rightarrow> lz_state \<Rightarrow> (addr \<times> lz_state) option" where
  "hook_aligned_alloc env t alignment sz st =
     (if g_lz_ready st then lz_aligned_alloc env t alignment sz st else lz_base_malloc_aligned alignment sz st)"

definition hook_valloc :: "os_env \<Rightarrow> nat \<Rightarrow> u64 \<Rightarrow> lz_state \<Rightarrow> (addr \<times> lz_state) option" where
  "hook_valloc env t sz st =
     (if g_lz_ready st then lz_valloc env t sz st else lz_base_malloc_aligned (page_size env) sz st)"

definition hook_pvalloc :: "os_env \<Rightarrow> nat \<Rightarrow> u64 \<Rightarrow> lz_state \<Rightarrow> (addr \<times> lz_state) option" where
  "hook_pvalloc env t sz st = hook_valloc env t sz st"

definition hook_malloc_usable_size :: "addr \<Rightarrow> lz_state \<Rightarrow> u64 option" where
  "hook_malloc_usable_size p st =
     (if p = 0 then Some 0
      else if is_base_ptr st p then base_exact_size p st
      else if g_lz_ready st then lz_malloc_usable_size p st
      else Some 0)"

definition libc_malloc :: "os_env \<Rightarrow> nat \<Rightarrow> u64 \<Rightarrow> lz_state \<Rightarrow> (addr \<times> lz_state) option" where
  "libc_malloc env t sz st = hook_malloc env t sz st"

definition libc_free :: "os_env \<Rightarrow> nat \<Rightarrow> addr \<Rightarrow> lz_state \<Rightarrow> lz_state option" where
  "libc_free env t p st = hook_free env t p st"

definition libc_realloc :: "os_env \<Rightarrow> nat \<Rightarrow> addr \<Rightarrow> u64 \<Rightarrow> lz_state \<Rightarrow> (addr \<times> lz_state) option" where
  "libc_realloc env t p sz st = hook_realloc env t p sz st"

definition libc_calloc :: "os_env \<Rightarrow> nat \<Rightarrow> u64 \<Rightarrow> u64 \<Rightarrow> lz_state \<Rightarrow> (addr \<times> lz_state) option" where
  "libc_calloc env t n sz st = hook_calloc env t n sz st"

definition libc_cfree :: "os_env \<Rightarrow> nat \<Rightarrow> addr \<Rightarrow> lz_state \<Rightarrow> lz_state option" where
  "libc_cfree env t p st = hook_free env t p st"

definition libc_memalign :: "os_env \<Rightarrow> nat \<Rightarrow> u64 \<Rightarrow> u64 \<Rightarrow> lz_state \<Rightarrow> (addr \<times> lz_state) option" where
  "libc_memalign env t align sz st = hook_memalign env t align sz st"

definition hook_reallocarray :: "os_env \<Rightarrow> nat \<Rightarrow> addr \<Rightarrow> u64 \<Rightarrow> u64 \<Rightarrow> lz_state \<Rightarrow> (addr \<times> lz_state) option" where
  "hook_reallocarray env t p nmemb sz st =
     (case mul_overflow nmemb sz of None \<Rightarrow> Some (0, st) | Some total_bytes \<Rightarrow> hook_realloc env t p total_bytes st)"

definition hook_cfree :: "os_env \<Rightarrow> nat \<Rightarrow> addr \<Rightarrow> lz_state \<Rightarrow> lz_state option" where
  "hook_cfree env t p st = hook_free env t p st"

end
