(* ===== verification/Vmm_Spec.thy ===== *)
theory Vmm_Spec
  imports Vmm
begin

text \<open>
  What the virtual memory manager promises: allocation, return and purge of chunks refine three
  functions on lists of chunks, never fault, never leave a lock held, and touch no memory but the
  chunk they are about.
\<close>

section \<open>Allocating a chunk\<close>

text \<open>
  The contract of the manager on lists: take the top of the node's stack, else of the global stack,
  which is first refilled with the chunks \<open>ext\<close> of a new extent when it is empty.
\<close>

definition vmm_alloc_abs :: "nat \<Rightarrow> addr list \<Rightarrow> pools \<Rightarrow> addr \<times> pools" where
  "vmm_alloc_abs n ext PG =
     (case fst PG n of
        c # cs \<Rightarrow> (c, (fst PG)(n := cs), snd PG)
      | [] \<Rightarrow> (case if snd PG = [] then ext else snd PG of
                c # gs \<Rightarrow> (c, fst PG, gs)
              | [] \<Rightarrow> (0, fst PG, [])))"

definition current_node :: "os_env \<Rightarrow> lz_state \<Rightarrow> nat" where
  "current_node env st = fst (lz_get_current_node env st)"

lemma lz_get_current_node_eq:
  "lz_get_current_node env st = (current_node env st, st\<lparr>trace := Getcpu # trace st\<rparr>)"
  by (auto simp: current_node_def lz_get_current_node_def sys_getcpu_def split: option.splits)

lemma current_node_less: "current_node env st < 16"
  by (auto simp: current_node_def lz_get_current_node_def sys_getcpu_def split: option.splits)

lemma vmm_inv_trace:
  assumes "vmm_inv st PG" and "\<And>a. mapped t a = mapped (trace st) a"
  shows "vmm_inv (st\<lparr>trace := t\<rparr>) PG"
  by (rule vmm_inv_frame [OF assms(1), of "{}"])
     (use vmm_invD(5) [OF assms(1)] assms(2) in \<open>auto simp: keeps_def same_at_def valid_def locks_free_def\<close>)

lemma locks_idle: "locks_free st \<Longrightarrow> n < 16 \<Longrightarrow> (g_pool_locks st)(n := False) = g_pool_locks st"
  by (rule ext) (auto simp: locks_free_def)

lemma unlocked_pool:
  "locks_free st \<Longrightarrow> n < 16 \<Longrightarrow> st\<lparr>g_pool_locks := (g_pool_locks st)(n := False)\<rparr> = st"
  by (simp add: locks_idle)

lemma unlocked_global: "locks_free st \<Longrightarrow> st\<lparr>g_global_pool_lock := False\<rparr> = st"
  by (simp add: locks_free_def)

text \<open>Run alone, a critical section is its body: the lock is found free and left free.\<close>

lemma pool_section:
  assumes "locks_free st" "n < 16" "pool_pop n st = Some (c, s)"
  shows "pool_lock n st \<bind> (\<lambda>st. pool_pop n st \<bind> (\<lambda>(c, st). pool_unlock n st \<bind> f c)) = f c s"
proof -
  define L where "L = (g_pool_locks st)(n := True)"
  have "pool_pop n (st\<lparr>g_pool_locks := L\<rparr>) = Some (c, s\<lparr>g_pool_locks := L\<rparr>)" and eq: "g_pool_locks st = g_pool_locks s"
    using assms(3) by (auto simp: pool_pop_def Let_def get_hdr_def valid_def split: if_splits)
  then show ?thesis
    using assms locks_idle [OF assms(1,2)] unfolding eq [symmetric]
    by (simp add: pool_lock_def pool_unlock_def locks_free_def flip: L_def) (simp add: L_def eq)
qed

lemma global_section:
  assumes "locks_free st" "global_pop st = Some (c, s)"
  shows "global_pop (st\<lparr>g_global_pool_lock := True\<rparr>) \<bind> (\<lambda>(c, st). global_pool_unlock st \<bind> f c) = f c s"
  using assms
  by (auto simp: global_pop_def get_hdr_def valid_def global_pool_unlock_def locks_free_def
      split: if_splits intro!: arg_cong [of _ _ "f _"] lz_state.equality)

lemma refill_section:
  assumes "locks_free st" "locks_free s"
    and "if g_global_free_chunks st = 0 then sys_alloc_extent env st = Some s else s = st"
  shows "global_pool_lock st \<bind> (\<lambda>st. (if g_global_free_chunks st = 0
      then global_pool_unlock st \<bind> (\<lambda>st. sys_alloc_extent env st \<bind> global_pool_lock) else Some st) \<bind> f)
    = f (s\<lparr>g_global_pool_lock := True\<rparr>)"
  using assms
  by (auto simp: unlocked_global [OF assms(1)] global_pool_lock_def global_pool_unlock_def locks_free_def split: if_splits)

text \<open>What a client knows of the chunk it was given.\<close>

definition fresh_chunk :: "lz_state \<Rightarrow> addr \<Rightarrow> bool" where
  "fresh_chunk st c \<longleftrightarrow> chunk_at st c \<and> ch_next (hdrs st c) = 0 \<and>
     ch_magic (hdrs st c) = LZ_CHUNK_MAGIC_V2 \<and> unat (ch_node_id (hdrs st c)) < LZ_MAX_NUMA_NODES"

lemma alloc_from_pool:
  assumes inv: "vmm_inv st (P, G)" and P: "P (current_node env st) = c # cs"
  shows "\<exists>st'. lz_vmm_alloc_chunk env st = Some (c, st') \<and>
    vmm_inv st' (P(current_node env st := cs), G) \<and> keeps {c} st st' \<and> vmm_frame st st' \<and>
    fresh_chunk st' c \<and> c \<notin> idle (P(current_node env st := cs), G)"
proof -
  define n where "n = current_node env st"
  have n: "n < 16" by (simp add: n_def current_node_less)
  define st0 where "st0 = st\<lparr>trace := Getcpu # trace st\<rparr>"
  have inv0: "vmm_inv st0 (P, G)" unfolding st0_def by (rule vmm_inv_trace [OF inv]) simp
  note take = pool_take [OF inv0 n P [folded n_def]]
  define st1 where "st1 = st0\<lparr>g_numa_pools := (g_numa_pools st0)(n := (g_numa_pools st0 n)
     \<lparr>free_chunks := ch_next (hdrs st0 c), available_count := available_count (g_numa_pools st0 n) - 1\<rparr>)\<rparr>"
  define st2 where "st2 = st1\<lparr>hdrs := (hdrs st1)(c := (hdrs st1 c)\<lparr>ch_next := 0\<rparr>)\<rparr>"
  have locks: "locks_free st0" by (rule vmm_invD(5) [OF inv0])
  have "valid st0 c" by (rule chunk_at_valid [OF take(3)])
  then have "pool_pop n st0 = Some (c, st1)"
    using take(4,5) by (simp add: pool_pop_def get_hdr_def Let_def st1_def)
  moreover have "valid st1 c" using \<open>valid st0 c\<close> by (simp add: valid_def st1_def)
  ultimately have run: "lz_vmm_alloc_chunk env st = Some (c, st2)"
    using n take(5) unfolding lz_vmm_alloc_chunk_def lz_get_current_node_eq
    by (simp add: pool_section [OF locks n] lz_topology_get_pool_def upd_hdr_valid st2_def
        flip: n_def st0_def)
  have "keeps {c} st1 st2" unfolding st2_def by (rule keeps_hdr)
  then have inv2: "vmm_inv st2 (P(n := cs), G)"
    by (rule vmm_inv_frame [OF take(1) [folded st1_def]])
       (use take(2) locks in \<open>auto simp: st2_def st1_def locks_free_def\<close>)
  have "keeps {c} st st2" by (simp add: keeps_def same_at_def valid_def st2_def st1_def st0_def)
  moreover have "fresh_chunk st2 c"
    using take(3,6,7) n
    by (simp add: fresh_chunk_def chunk_at_def valid_def st2_def st1_def unsigned_of_nat take_bit_nat_eq_self)
  moreover have "vmm_frame st st2" by (simp add: vmm_frame_def st2_def st1_def st0_def)
  ultimately show ?thesis using run inv2 take(2) by (auto simp: n_def)
qed

lemma alloc_from_global:
  assumes inv: "vmm_inv st (P, G)" and P: "P (current_node env st) = []"
    and G: "G \<noteq> [] \<and> st0 = st\<lparr>trace := Getcpu # trace st\<rparr> \<or>
            G = [] \<and> sys_alloc_extent env (st\<lparr>trace := Getcpu # trace st\<rparr>) = Some st0"
    and inv0: "vmm_inv st0 (P, c # G')" and GG: "G \<noteq> [] \<Longrightarrow> G = c # G'"
  shows "\<exists>st'. lz_vmm_alloc_chunk env st = Some (c, st') \<and> vmm_inv st' (P, G') \<and> keeps {c} st0 st' \<and>
    vmm_frame st0 st' \<and> fresh_chunk st' c \<and> c \<notin> idle (P, G')"
proof -
  define n where "n = current_node env st"
  have n: "n < 16" by (simp add: n_def current_node_less)
  define s where "s = st\<lparr>trace := Getcpu # trace st\<rparr>"
  have invs: "vmm_inv s (P, G)" unfolding s_def by (rule vmm_inv_trace [OF inv]) simp
  note take = global_take [OF inv0]
  define st1 where "st1 = st0\<lparr>g_global_free_chunks := ch_next (hdrs st0 c)\<rparr>"
  define st2 where "st2 = st1\<lparr>hdrs := (hdrs st1)(c := (hdrs st1 c)\<lparr>ch_next := 0, ch_owning_tlh := 0,
     ch_node_id := of_nat n, ch_magic := LZ_CHUNK_MAGIC_V2, ch_canary := 0, ch_checksum := 0\<rparr>)\<rparr>"
  have locks: "locks_free s" "locks_free st0" using vmm_invD(5) [OF invs] vmm_invD(5) [OF inv0] by auto
  have none: "pool_pop n s = Some (0, s)"
    using vmm_invD(1) [OF invs n] P by (simp add: pool_inv_def n_def pool_pop_def)
  have gl: "g_global_free_chunks s = 0 \<longleftrightarrow> G = []"
  proof -
    have "chain (hnext s) (g_global_free_chunks s) G" using vmm_invD(2) [OF invs] by simp
    then show ?thesis by (cases G) auto
  qed
  with G have refill: "if g_global_free_chunks s = 0 then sys_alloc_extent env s = Some st0 else st0 = s"
    by (auto simp: s_def)
  have "valid st0 c" by (rule chunk_at_valid [OF take(3)])
  then have pop: "global_pop st0 = Some (c, st1)"
    using take(4,5) by (simp add: global_pop_def get_hdr_def st1_def)
  have "valid st1 c" using \<open>valid st0 c\<close> by (simp add: valid_def st1_def)
  then have run: "lz_vmm_alloc_chunk env st = Some (c, st2)"
    using n take(5) unfolding lz_vmm_alloc_chunk_def lz_get_current_node_eq
    by (simp add: pool_section [OF locks(1) n none] refill_section [OF locks refill]
        global_section [OF locks(2) pop] lz_topology_get_pool_def upd_hdr_valid st2_def
        flip: n_def s_def)
  have "keeps {c} st1 st2" unfolding st2_def by (rule keeps_hdr)
  then have inv2: "vmm_inv st2 (P, G')"
    by (rule vmm_inv_frame [OF take(1) [folded st1_def]])
       (use take(2) locks in \<open>auto simp: st2_def st1_def locks_free_def\<close>)
  have "keeps {c} st0 st2" by (simp add: keeps_def same_at_def valid_def st2_def st1_def)
  moreover have "fresh_chunk st2 c"
    using take(3) n
    by (simp add: fresh_chunk_def chunk_at_def valid_def st2_def st1_def unsigned_of_nat take_bit_nat_eq_self)
  moreover have "vmm_frame st0 st2" by (simp add: vmm_frame_def st2_def st1_def)
  ultimately show ?thesis using run inv2 take(2) by auto
qed

lemma alloc_exhausted:
  assumes inv: "vmm_inv st (P, [])" and P: "P (current_node env st) = []"
    and ext: "sys_alloc_extent env (st\<lparr>trace := Getcpu # trace st\<rparr>) = Some st0" and inv0: "vmm_inv st0 (P, [])"
  shows "lz_vmm_alloc_chunk env st = Some (0, st0)"
proof -
  define n where "n = current_node env st"
  have n: "n < 16" by (simp add: n_def current_node_less)
  define s where "s = st\<lparr>trace := Getcpu # trace st\<rparr>"
  have invs: "vmm_inv s (P, [])" unfolding s_def by (rule vmm_inv_trace [OF inv]) simp
  have locks: "locks_free s" "locks_free st0" using vmm_invD(5) [OF invs] vmm_invD(5) [OF inv0] by auto
  have none: "pool_pop n s = Some (0, s)"
    using vmm_invD(1) [OF invs n] P by (simp add: pool_inv_def n_def pool_pop_def)
  have refill: "if g_global_free_chunks s = 0 then sys_alloc_extent env s = Some st0 else st0 = s"
    using vmm_invD(2) [OF invs] ext by (simp add: s_def)
  have pop: "global_pop st0 = Some (0, st0)" using vmm_invD(2) [OF inv0] by (simp add: global_pop_def)
  show ?thesis
    using n unfolding lz_vmm_alloc_chunk_def lz_get_current_node_eq
    by (simp add: pool_section [OF locks(1) n none] refill_section [OF locks refill]
        global_section [OF locks(2) pop] lz_topology_get_pool_def flip: n_def s_def)
qed

text \<open>The chunks an extent brings in, when the system has one to give.\<close>

definition new_chunks :: "lz_state \<Rightarrow> addr list \<Rightarrow> bool" where
  "new_chunks st ext \<longleftrightarrow> ext = [] \<or> (\<exists>b. ext = extent_chunks b \<and>
     (\<forall>c \<in> set ext. \<forall>x. within c LZ_HUGE_PAGE_SIZE x \<longrightarrow> \<not> valid st x))"

lemma refill_chunks:
  assumes "mmap_ok env" and "vmm_inv st (P, [])"
  shows "\<exists>st' G. sys_alloc_extent env st = Some st' \<and> vmm_inv st' (P, G) \<and> keeps {} st st' \<and>
    vmm_frame st st' \<and> new_chunks st G \<and>
    (G = [] \<longrightarrow> os_mmap env (trace st) (LZ_EXTENT_SIZE + LZ_HUGE_PAGE_SIZE) = None)"
proof -
  obtain st' G where e: "sys_alloc_extent env st = Some st'" "vmm_inv st' (P, G)" "keeps {} st st'"
    "vmm_frame st st'"
    and c: "case os_mmap env (trace st) (LZ_EXTENT_SIZE + LZ_HUGE_PAGE_SIZE) of
       None \<Rightarrow> G = [] \<and> trace st' = MmapFailed (LZ_EXTENT_SIZE + LZ_HUGE_PAGE_SIZE) # trace st
     | Some r \<Rightarrow> \<exists>b. G = extent_chunks b \<and>
         (\<forall>c \<in> set G. \<forall>x. within c LZ_HUGE_PAGE_SIZE x \<longrightarrow> \<not> valid st x) \<and>
         (\<forall>x. valid st' x \<longleftrightarrow> within b LZ_EXTENT_SIZE x \<or> valid st x)"
    using sys_alloc_extent_spec [OF assms] by blast
  have ne: "extent_chunks b \<noteq> []" for b by (simp add: extent_chunks_def)
  show ?thesis
  proof (cases "os_mmap env (trace st) (LZ_EXTENT_SIZE + LZ_HUGE_PAGE_SIZE)")
    case None
    then have "G = []" using c by simp
    then show ?thesis using e None by (auto simp: new_chunks_def)
  next
    case (Some r)
    then have "new_chunks st G \<and> G \<noteq> []" using c ne unfolding new_chunks_def by (simp only: option.case) metis
    then show ?thesis using e by blast
  qed
qed

lemma alloc_chunk_refines:
  assumes ok: "mmap_ok env" and inv: "vmm_inv st PG"
  shows "\<exists>ext c PG' st'. lz_vmm_alloc_chunk env st = Some (c, st') \<and>
    vmm_alloc_abs (current_node env st) ext PG = (c, PG') \<and> new_chunks st ext \<and>
    vmm_inv st' PG' \<and> keeps {c} st st' \<and> vmm_frame st st' \<and>
    (c \<noteq> 0 \<longrightarrow> fresh_chunk st' c \<and> c \<notin> idle PG') \<and>
    (c = 0 \<longrightarrow> os_mmap env (Getcpu # trace st) (LZ_EXTENT_SIZE + LZ_HUGE_PAGE_SIZE) = None)"
proof -
  obtain P G where PG: "PG = (P, G)" by fastforce
  note inv = inv [unfolded PG]
  let ?n = "current_node env st"
  define s where "s = st\<lparr>trace := Getcpu # trace st\<rparr>"
  have invs: "vmm_inv s (P, G)" unfolding s_def by (rule vmm_inv_trace [OF inv]) simp
  have ks: "keeps C st s" "vmm_frame st s" "valid s = valid st" for C
    by (auto simp: s_def keeps_def same_at_def valid_def vmm_frame_def)
  have none: "new_chunks st []" by (simp add: new_chunks_def)
  consider (pool) c cs where "P ?n = c # cs" | (global) c G' where "P ?n = []" "G = c # G'"
    | (extent) "P ?n = []" "G = []" by (meson list.exhaust)
  then show ?thesis
  proof cases
    case pool
    from alloc_from_pool [OF inv this] obtain st' where "lz_vmm_alloc_chunk env st = Some (c, st')"
      "vmm_inv st' (P(?n := cs), G)" "keeps {c} st st'" "vmm_frame st st'" "fresh_chunk st' c"
      "c \<notin> idle (P(?n := cs), G)" by blast
    moreover from this have "c \<noteq> 0" by (auto simp: fresh_chunk_def chunk_at_def)
    moreover have "vmm_alloc_abs ?n [] PG = (c, P(?n := cs), G)" by (simp add: vmm_alloc_abs_def pool PG)
    ultimately show ?thesis using none by blast
  next
    case global
    have "G \<noteq> [] \<and> s = st\<lparr>trace := Getcpu # trace st\<rparr>" using global(2) by (simp add: s_def)
    from alloc_from_global [OF inv global(1) disjI1 [OF this] invs [unfolded global(2)] global(2)]
    obtain st' where "lz_vmm_alloc_chunk env st = Some (c, st')" "vmm_inv st' (P, G')" "keeps {c} s st'"
      "vmm_frame s st'" "fresh_chunk st' c" "c \<notin> idle (P, G')" by blast
    moreover from this have "c \<noteq> 0" by (auto simp: fresh_chunk_def chunk_at_def)
    moreover have "vmm_alloc_abs ?n [] PG = (c, P, G')" by (simp add: vmm_alloc_abs_def global PG)
    ultimately show ?thesis
      using keeps_trans [OF ks(1)] vmm_frame_trans [OF ks(2)] none by blast
  next
    case extent
    obtain st0 G0 where ext: "sys_alloc_extent env s = Some st0" "vmm_inv st0 (P, G0)" "keeps {} s st0"
      "vmm_frame s st0" and new: "new_chunks s G0"
      and fail: "G0 = [] \<Longrightarrow> os_mmap env (trace s) (LZ_EXTENT_SIZE + LZ_HUGE_PAGE_SIZE) = None"
      using refill_chunks [OF ok invs [unfolded extent]] by blast
    have k0: "keeps C st st0" "vmm_frame st st0" for C
      using keeps_trans [OF ks(1) keeps_mono [OF ext(3)]] vmm_frame_trans [OF ks(2) ext(4)] by auto
    have new: "new_chunks st G0" using new unfolding new_chunks_def ks(3) .
    show ?thesis
    proof (cases G0)
      case Nil
      have "lz_vmm_alloc_chunk env st = Some (0, st0)"
        using alloc_exhausted [OF inv [unfolded extent] extent(1)] ext Nil by (simp add: s_def)
      moreover have "vmm_alloc_abs ?n [] PG = (0, P, [])" by (simp add: vmm_alloc_abs_def extent PG)
      ultimately show ?thesis using k0 new fail [OF Nil] ext(2)
        by (intro exI [of _ "[]"] exI [of _ 0] exI [of _ "(P, [])"] exI [of _ st0]) (simp add: Nil s_def)
    next
      case (Cons c G')
      have "G = [] \<and> sys_alloc_extent env (st\<lparr>trace := Getcpu # trace st\<rparr>) = Some st0"
        using ext(1) extent(2) by (simp add: s_def)
      from alloc_from_global [OF inv extent(1) disjI2 [OF this] ext(2) [unfolded Cons]] extent(2)
      obtain st' where "lz_vmm_alloc_chunk env st = Some (c, st')" "vmm_inv st' (P, G')" "keeps {c} st0 st'"
        "vmm_frame st0 st'" "fresh_chunk st' c" "c \<notin> idle (P, G')" by blast
      moreover from this have "c \<noteq> 0" by (auto simp: fresh_chunk_def chunk_at_def)
      moreover have "vmm_alloc_abs ?n G0 PG = (c, P, G')" by (simp add: vmm_alloc_abs_def extent PG Cons)
      ultimately show ?thesis
        using keeps_trans [OF k0(1)] vmm_frame_trans [OF k0(2)] new by blast
    qed
  qed
qed

section \<open>Returning a chunk\<close>

definition chunk_block :: "addr \<Rightarrow> addr set" where
  "chunk_block c = {x. within c LZ_HUGE_PAGE_SIZE x}"

text \<open>All of a chunk but its first page, which holds the header.\<close>

definition payload_block :: "addr \<Rightarrow> addr set" where
  "payload_block c = {x. within (c + LZ_PAGE_SIZE) (LZ_HUGE_PAGE_SIZE - LZ_PAGE_SIZE) x}"

lemma chunk_at_aligned: "chunk_at st c \<Longrightarrow> unat c mod 2 ^ 21 = 0"
  by (simp only: chunk_at_def and_mask_0_iff)

lemma chunk_block_iff: "chunk_at st c \<Longrightarrow> x \<in> chunk_block c \<longleftrightarrow> unat c \<le> unat x \<and> unat x < unat c + 2097152"
  by (subst chunk_block_def, simp, subst within_iff) (auto simp: chunk_at_def)

lemma payload_block_iff:
  assumes "chunk_at st c"
  shows "x \<in> payload_block c \<longleftrightarrow> unat c + 4096 \<le> unat x \<and> unat x < unat c + 2097152"
proof -
  have "unat (c + LZ_PAGE_SIZE) = unat c + 4096" using assms by (simp add: chunk_at_def unat_word_ariths)
  then show ?thesis
    using assms by (subst payload_block_def, simp, subst within_iff) (auto simp: chunk_at_def)
qed

lemma multiples_apart: "(m :: nat) mod d = 0 \<Longrightarrow> n mod d = 0 \<Longrightarrow> m \<le> n \<Longrightarrow> n < m + d \<Longrightarrow> n = m"
proof -
  assume a: "m mod d = 0" "n mod d = 0" "m \<le> n" "n < m + d"
  then have "(n - m) mod d = 0" by (metis mod_0_imp_dvd dvd_diff_nat dvd_imp_mod_0)
  then show ?thesis using a by simp
qed

lemma payload_no_chunk: "chunk_at st c \<Longrightarrow> chunk_at st' d \<Longrightarrow> d \<notin> payload_block c"
  using multiples_apart [of "unat c" 2097152 "unat d"] chunk_at_aligned [of st c] chunk_at_aligned [of st' d]
  by (auto simp: payload_block_iff)

lemma chunk_blocks_disjoint:
  assumes "chunk_at st c" "chunk_at st' d" "c \<noteq> d"
  shows "chunk_block c \<inter> chunk_block d = {}"
proof (rule ccontr)
  assume "\<not> ?thesis"
  then obtain x where "x \<in> chunk_block c" "x \<in> chunk_block d" by blast
  then have x: "unat c \<le> unat x" "unat x < unat c + 2097152" "unat d \<le> unat x" "unat x < unat d + 2097152"
    using chunk_block_iff [OF assms(1)] chunk_block_iff [OF assms(2)] by auto
  have "unat c mod 2097152 = 0" "unat d mod 2097152 = 0"
    using chunk_at_aligned [OF assms(1)] chunk_at_aligned [OF assms(2)] by simp_all
  then have "unat c = unat d"
    using multiples_apart [of "unat c" 2097152 "unat d"] multiples_apart [of "unat d" 2097152 "unat c"] x
    by linarith
  then show False using assms(3) word_unat_eq_iff by blast
qed

lemma payload_in_chunk: "chunk_at st c \<Longrightarrow> payload_block c \<subseteq> chunk_block c"
  by (auto simp: payload_block_iff chunk_block_iff)

lemma release_payload_frame:
  "keeps (payload_block c) st (release_payload c st)" "same_globals st (release_payload c st)"
  "x \<in> payload_block c \<Longrightarrow> mem (release_payload c st) x = 0"
  "valid (release_payload c st) x = valid st x"
  by (auto simp: release_payload_def Let_def sys_madvise_def zero_pages_def fill_def keeps_def same_at_def
      valid_def payload_block_def same_globals_def)

lemma release_payload_hdr:
  "chunk_at st c \<Longrightarrow> chunk_at st' d \<Longrightarrow> hdrs (release_payload c st) d = hdrs st d"
  using payload_no_chunk [of st c st' d]
  by (simp add: release_payload_def Let_def sys_madvise_def zero_pages_def fill_def payload_block_def)

lemma release_payload_inv:
  assumes "vmm_inv st PG" and "chunk_at st c"
  shows "vmm_inv (release_payload c st) PG" "chunk_at st d \<Longrightarrow> chunk_at (release_payload c st) d"
proof -
  have "payload_block c \<inter> idle PG = {}"
    using payload_no_chunk [OF assms(2)] vmm_invD(4) [OF assms(1)] by blast
  then show "vmm_inv (release_payload c st) PG"
    by (rule vmm_inv_frame [OF assms(1) release_payload_frame(1)])
       (use release_payload_frame(2) [of st c] vmm_invD(5) [OF assms(1)] in
         \<open>auto simp: same_globals_def locks_free_def\<close>)
  show "chunk_at st d \<Longrightarrow> chunk_at (release_payload c st) d"
    by (erule chunk_at_keeps) (rule release_payload_frame(1))
qed

text \<open>Handing a chunk back to the global stack after its payload is released.\<close>

lemma return_to_global:
  assumes inv: "vmm_inv st (P, G)" and c: "chunk_at st c" "c \<notin> idle (P, G)"
  shows "\<exists>st'. global_insert c (release_payload c st) = Some st' \<and> vmm_inv st' (P, c # G) \<and>
    keeps (chunk_block c) st st' \<and> vmm_frame st st' \<and> g_numa_pools st' = g_numa_pools st \<and>
    (\<exists>g. hdrs st' c = (hdrs st c)\<lparr>ch_next := g\<rparr>) \<and>
    (\<forall>d. chunk_at st d \<longrightarrow> d \<noteq> c \<longrightarrow> hdrs st' d = hdrs st d) \<and> (\<forall>x\<in>payload_block c. mem st' x = 0)"
proof -
  define s where "s = release_payload c st"
  have invs: "vmm_inv s (P, G)" and cs: "chunk_at s c"
    using release_payload_inv [OF inv c(1)] c(1) by (auto simp: s_def)
  define st' where "st' = s\<lparr>hdrs := (hdrs s)(c := (hdrs s c)\<lparr>ch_next := g_global_free_chunks s\<rparr>),
     g_global_free_chunks := c\<rparr>"
  have run: "global_insert c s = Some st'"
    using global_insert_eq [of s c] global_push_valid [of s c] vmm_invD(5) [OF invs] chunk_at_valid [OF cs]
    by (simp add: locks_free_def st'_def)
  have inv': "vmm_inv st' (P, c # G)" unfolding st'_def by (rule global_put [OF invs cs c(2)])
  have h: "hdrs s d = hdrs st d" if "chunk_at st d" for d
    unfolding s_def by (rule release_payload_hdr [OF c(1) that])
  have "keeps (chunk_block c) st s"
    unfolding s_def by (rule keeps_mono [OF release_payload_frame(1) payload_in_chunk [OF c(1)]])
  moreover have "keeps (chunk_block c) s st'"
    by (auto simp: keeps_def same_at_def valid_def st'_def chunk_block_def within_def)
  moreover have "same_globals st s" "mem st' = mem s"
    using release_payload_frame(2) by (simp_all add: s_def st'_def)
  ultimately show ?thesis
    using run inv' h [OF c(1)] h keeps_trans release_payload_frame(3) [of _ c st]
    by (auto simp: st'_def vmm_frame_def same_globals_def simp flip: s_def)
qed

definition vmm_free_abs :: "nat \<Rightarrow> addr \<Rightarrow> pools \<Rightarrow> pools" where
  "vmm_free_abs n c PG =
     (if length (fst PG n) < 32 then ((fst PG)(n := c # fst PG n), snd PG)
      else (fst PG, c # snd PG))"

lemma upd_hdr_locked:
  "upd_hdr c f (st\<lparr>g_pool_locks := L\<rparr>) = map_option (\<lambda>s. s\<lparr>g_pool_locks := L\<rparr>) (upd_hdr c f st)"
  by (simp add: upd_hdr_def valid_def)

lemma free_chunk_refines:
  assumes inv: "vmm_inv st PG" and c: "chunk_at st c" "c \<notin> idle PG"
    and h: "ch_magic (hdrs st c) = LZ_CHUNK_MAGIC_V2" and n: "n < 16" "ch_node_id (hdrs st c) = of_nat n"
  shows "\<exists>st'. lz_vmm_free_chunk c st = Some st' \<and> vmm_inv st' (vmm_free_abs n c PG) \<and>
    keeps (chunk_block c) st st' \<and> vmm_frame st st' \<and>
    (length (fst PG n) \<ge> 32 \<longrightarrow> (\<forall>x\<in>payload_block c. mem st' x = 0))"
proof -
  obtain P G where PG: "PG = (P, G)" by fastforce
  note inv = inv [unfolded PG] and c = c [unfolded PG]
  have locks: "locks_free st" by (rule vmm_invD(5) [OF inv])
  have v: "valid st c" by (rule chunk_at_valid [OF c(1)])
  have c0: "c \<noteq> 0" using c(1) by (simp add: chunk_at_def)
  have node: "unat (ch_node_id (hdrs st c)) = n" using n by (simp add: unsigned_of_nat take_bit_nat_eq_self)
  have len: "available_count (g_numa_pools st n) = of_nat (length (P n))" "length (P n) \<le> 32"
    using vmm_invD(1) [OF inv n(1)] by (auto simp: pool_inv_def)
  then have cnt: "available_count (g_numa_pools st n) < 32 \<longleftrightarrow> length (P n) < 32"
    by (simp add: word_less_nat_alt unsigned_of_nat take_bit_nat_eq_self)
  have unl: "st\<lparr>g_pool_locks := (g_pool_locks st)(n := False)\<rparr> = st" by (rule unlocked_pool [OF locks n(1)])
  show ?thesis
  proof (cases "length (P n) < 32")
    case True
    define p where "p = g_numa_pools st n"
    define st' where "st' = st\<lparr>hdrs := (hdrs st)(c := (hdrs st c)\<lparr>ch_next := free_chunks p\<rparr>),
       g_numa_pools := (g_numa_pools st)(n := p\<lparr>free_chunks := c, available_count := available_count p + 1\<rparr>)\<rparr>"
    have "vmm_inv st' (P(n := c # P n), G)"
      unfolding st'_def p_def by (rule pool_put [OF inv n(1) c True h n(2)])
    moreover have "lz_vmm_free_chunk c st = Some st'"
      using c0 v h node n(1) locks True cnt locks_idle [OF locks n(1)]
      by (simp add: lz_vmm_free_chunk_def get_hdr_def lz_topology_get_pool_def pool_lock_def pool_unlock_def
          upd_hdr_locked upd_hdr_valid locks_free_def st'_def p_def Let_def)
    moreover have "keeps (chunk_block c) st st'" "vmm_frame st st'"
      by (auto simp: keeps_def same_at_def valid_def st'_def chunk_block_def within_def vmm_frame_def)
    ultimately show ?thesis using True by (simp add: vmm_free_abs_def PG)
  next
    case False
    from return_to_global [OF inv c] obtain st' where st': "global_insert c (release_payload c st) = Some st'"
      "vmm_inv st' (P, c # G)" "keeps (chunk_block c) st st'" "vmm_frame st st'"
      "\<forall>x\<in>payload_block c. mem st' x = 0" by blast
    have "lz_vmm_free_chunk c st = Some st'"
      using c0 v h node n(1) locks False cnt st'(1) locks_idle [OF locks n(1)]
      by (simp add: lz_vmm_free_chunk_def get_hdr_def lz_topology_get_pool_def pool_lock_def pool_unlock_def
          locks_free_def Let_def)
    then show ?thesis using st' False by (simp add: vmm_free_abs_def PG)
  qed
qed

lemma free_chunk_ignores:
  "lz_vmm_free_chunk 0 st = Some st"
  "valid st c \<Longrightarrow> ch_magic (hdrs st c) \<noteq> LZ_CHUNK_MAGIC_V2 \<Longrightarrow> lz_vmm_free_chunk c st = Some st"
  by (simp_all add: lz_vmm_free_chunk_def get_hdr_def)

section \<open>Purging the caches\<close>

lemma zero_stays:
  assumes k: "keeps (\<Union>d\<in>D. chunk_block d) st st'" and c: "chunk_at st c" and x: "x \<in> payload_block c"
    and D: "\<And>d. d \<in> D \<Longrightarrow> chunk_at st d" and cD: "c \<notin> D" and z: "mem st x = 0"
  shows "mem st' x = 0"
proof -
  have x: "x \<in> chunk_block c" using payload_in_chunk [OF c] x by blast
  then have "valid st x" using c by (simp add: chunk_at_def chunk_block_def)
  moreover have "x \<notin> (\<Union>d\<in>D. chunk_block d)"
  proof
    assume "x \<in> (\<Union>d\<in>D. chunk_block d)"
    then obtain d where "d \<in> D" "x \<in> chunk_block d" by blast
    then show False using chunk_blocks_disjoint [OF c D] cD x by blast
  qed
  ultimately show ?thesis using keepsD(1) [OF k] z by simp
qed

lemma purge_drain_spec:
  assumes "vmm_inv st (P, G)" and "chain (hnext st) p cs"
    and "\<And>c. c \<in> set cs \<Longrightarrow> chunk_at st c \<and> c \<notin> idle (P, G)"
  shows "\<exists>st'. purge_drain p st = Some st' \<and> vmm_inv st' (P, rev cs @ G) \<and>
    keeps (\<Union>c\<in>set cs. chunk_block c) st st' \<and> vmm_frame st st' \<and> g_numa_pools st' = g_numa_pools st \<and>
    (\<forall>c\<in>set cs. \<forall>x\<in>payload_block c. mem st' x = 0)"
  using assms
proof (induction cs arbitrary: p st G)
  case Nil
  then show ?case by (simp add: purge_drain.simps vmm_frame_def)
next
  case (Cons c cs)
  have p: "p = c" "c \<noteq> 0" and rest: "chain (hnext st) (ch_next (hdrs st c)) cs"
    using Cons.prems(2) by (auto simp: hnext_def [of st c])
  have cc: "c \<notin> set cs" using chain_distinct [OF Cons.prems(2)] by simp
  have c: "chunk_at st c" "c \<notin> idle (P, G)" using Cons.prems(3) by auto
  from return_to_global [OF Cons.prems(1) c] obtain s where
    run: "global_insert c (release_payload c st) = Some s" and invs: "vmm_inv s (P, c # G)"
    and ks: "keeps (chunk_block c) st s" and fs: "vmm_frame st s" "g_numa_pools s = g_numa_pools st"
    and hs: "\<And>d. chunk_at st d \<Longrightarrow> d \<noteq> c \<Longrightarrow> hdrs s d = hdrs st d"
    and ms: "\<And>x. x \<in> payload_block c \<Longrightarrow> mem s x = 0" by blast
  have in_st: "chunk_at st d" "d \<notin> idle (P, G)" if "d \<in> set cs" for d using Cons.prems(3) that by auto
  have chain: "chain (hnext s) (ch_next (hdrs st c)) cs"
  proof (subst chain_cong [where nx = "hnext st"])
    show "hnext s x = hnext st x" if "x \<in> set cs" for x
      using hs [OF in_st(1) [OF that]] cc that unfolding hnext_def by metis
  qed (rule rest)
  have ok: "chunk_at s d \<and> d \<notin> idle (P, c # G)" if "d \<in> set cs" for d
    using in_st [OF that] chunk_at_keeps [OF _ ks] cc that by (auto simp: idle_def)
  from Cons.IH [OF invs chain ok] obtain st' where
    st': "purge_drain (ch_next (hdrs st c)) s = Some st'" "vmm_inv st' (P, rev cs @ c # G)"
    "keeps (\<Union>c\<in>set cs. chunk_block c) s st'" "vmm_frame s st'" "g_numa_pools st' = g_numa_pools s"
    "\<forall>c\<in>set cs. \<forall>x\<in>payload_block c. mem st' x = 0" by blast
  have "keeps (\<Union>c\<in>set (c # cs). chunk_block c) st st'"
    by (rule keeps_trans [OF keeps_mono [OF ks] keeps_mono [OF st'(3)]]) auto
  moreover have "mem st' x = 0" if "x \<in> payload_block c" for x
    using zero_stays [OF st'(3) chunk_at_keeps [OF c(1) ks] that _ cc ms [OF that]] ok by blast
  moreover have "purge_drain p st = Some st'"
    using p run st'(1) chunk_at_valid [OF c(1)] by (subst purge_drain.simps) (simp add: get_hdr_def)
  ultimately show ?case using st' fs vmm_frame_trans by auto
qed

lemma pool_clear:
  assumes inv: "vmm_inv st (P, G)" and n: "n < 16"
  shows "vmm_inv (st\<lparr>g_numa_pools := (g_numa_pools st)(n := zero_pool)\<rparr>) (P(n := []), G)" (is ?inv)
    and "c \<in> set (P n) \<Longrightarrow> chunk_at st c \<and> c \<notin> idle (P(n := []), G)"
    and "chain (hnext st) (free_chunks (g_numa_pools st n)) (P n)"
proof -
  show "chain (hnext st) (free_chunks (g_numa_pools st n)) (P n)"
    using vmm_invD(1) [OF inv n] by (simp add: pool_inv_def)
  have d: "disjoint_pools (P, G)" by (rule vmm_invD(3) [OF inv])
  have sub: "set ((P(n := [])) m) \<subseteq> set (P m)" for m by auto
  have "idle (P(n := []), G) \<subseteq> idle (P, G)" using sub unfolding idle_def by fastforce
  moreover have "disjoint_pools (P(n := []), G)"
    using d sub unfolding disjoint_pools_def fst_conv snd_conv by blast
  ultimately show ?inv
    using vmm_invD [OF inv]
    by (auto simp: vmm_inv_def pool_inv_def chunk_at_def locks_free_def hnext_def [abs_def] valid_def zero_pool_def)
  assume c: "c \<in> set (P n)"
  have "chunk_at st c" using vmm_invD(4) [OF inv] idle_pool [OF n, of c "(P, G)"] c by simp
  moreover have "c \<notin> idle (P(n := []), G)"
    using d n c unfolding idle_def disjoint_pools_def by (auto split: if_splits)
  ultimately show "chunk_at st c \<and> c \<notin> idle (P(n := []), G)" ..
qed

text \<open>The chunks of a list of nodes.\<close>

definition cached :: "(nat \<Rightarrow> addr list) \<Rightarrow> nat list \<Rightarrow> addr set" where
  "cached P is = (\<Union>n\<in>set is. set (P n))"

lemma purge_nodes_spec:
  assumes "vmm_inv st (P, G)" and "distinct is" and "\<And>i. i \<in> set is \<Longrightarrow> i < 16"
  shows "\<exists>st'. purge_nodes is st = Some st' \<and>
    vmm_inv st' (\<lambda>n. if n \<in> set is then [] else P n, rev (concat (map P is)) @ G) \<and>
    keeps (\<Union>c\<in>cached P is. chunk_block c) st st' \<and> vmm_frame st st' \<and>
    (\<forall>c\<in>cached P is. \<forall>x\<in>payload_block c. mem st' x = 0)"
  using assms
proof (induction "is" arbitrary: st P G)
  case Nil
  then show ?case by (simp add: vmm_frame_def cached_def)
next
  case (Cons i "is")
  have i: "i < 16" "i \<notin> set is" using Cons.prems by auto
  note inv = Cons.prems(1)
  have locks: "locks_free st" by (rule vmm_invD(5) [OF inv])
  let ?P = "P(i := [])"
  define s where "s = st\<lparr>g_numa_pools := (g_numa_pools st)(i := zero_pool)\<rparr>"
  note clear = pool_clear [OF inv i(1)]
  have invs: "vmm_inv s (?P, G)" using clear(1) by (simp add: s_def)
  have cs: "chunk_at s c \<and> c \<notin> idle (?P, G)" if "c \<in> set (P i)" for c
    using clear(2) [OF that] by (simp add: s_def chunk_at_def valid_def)
  have ch: "chain (hnext s) (free_chunks (g_numa_pools st i)) (P i)"
    using clear(3) by (simp add: s_def hnext_def [abs_def])
  have ks: "keeps C st s" "vmm_frame st s" for C
    by (auto simp: s_def keeps_def same_at_def valid_def vmm_frame_def)
  from purge_drain_spec [OF invs ch cs] obtain s' where
    s': "purge_drain (free_chunks (g_numa_pools st i)) s = Some s'" "vmm_inv s' (?P, rev (P i) @ G)"
    "keeps (\<Union>c\<in>set (P i). chunk_block c) s s'" "vmm_frame s s'"
    "\<And>c x. c \<in> set (P i) \<Longrightarrow> x \<in> payload_block c \<Longrightarrow> mem s' x = 0" by blast
  have dist: "distinct is" "\<And>j. j \<in> set is \<Longrightarrow> j < 16" using Cons.prems(2,3) by auto
  from Cons.IH [OF s'(2) dist] obtain st' where
    st': "purge_nodes is s' = Some st'"
    "vmm_inv st' (\<lambda>n. if n \<in> set is then [] else ?P n, rev (concat (map ?P is)) @ rev (P i) @ G)"
    "keeps (\<Union>c\<in>cached ?P is. chunk_block c) s' st'" "vmm_frame s' st'"
    "\<And>c x. c \<in> cached ?P is \<Longrightarrow> x \<in> payload_block c \<Longrightarrow> mem st' x = 0" by blast
  have eq: "\<And>n. n \<in> set is \<Longrightarrow> ?P n = P n" using i(2) by auto
  then have m: "map ?P is = map P is" by (rule map_cong [OF refl])
  have c: "cached ?P is = cached P is" unfolding cached_def by (rule SUP_cong [OF refl]) (simp only: eq)
  have "(\<lambda>n. if n \<in> set is then [] else ?P n) = (\<lambda>n. if n \<in> set (i # is) then [] else P n)"
    using i(2) by auto
  then have inv': "vmm_inv st' (\<lambda>n. if n \<in> set (i # is) then [] else P n, rev (concat (map P (i # is))) @ G)"
    using st'(2) unfolding m by simp
  have cached: "cached P (i # is) = set (P i) \<union> cached P is" by (simp add: cached_def)
  have "mem st' x = 0" if "c \<in> set (P i)" "x \<in> payload_block c" for c x
  proof (rule zero_stays [OF st'(3) _ that(2) _ _ s'(5) [OF that]])
    show "chunk_at s' c" using cs [OF that(1)] chunk_at_keeps [OF _ s'(3)] by blast
    show "c \<notin> cached ?P is" using cs [OF that(1)] Cons.prems(3) by (auto simp: cached_def idle_def)
    show "chunk_at s' d" if "d \<in> cached ?P is" for d
      using vmm_invD(4) [OF s'(2), of d] that Cons.prems(3) by (auto simp: cached_def idle_def)
  qed
  then have "\<forall>c\<in>cached P (i # is). \<forall>x\<in>payload_block c. mem st' x = 0" using st'(5) c cached by blast
  moreover have "keeps (\<Union>c\<in>cached P (i # is). chunk_block c) st st'"
    by (rule keeps_trans [OF ks(1) keeps_trans [OF keeps_mono [OF s'(3)] keeps_mono [OF st'(3)]]])
       (auto simp: cached c)
  moreover have "purge_nodes (i # is) st = Some st'"
    using i(1) locks locks_idle [OF locks i(1)] s'(1) st'(1)
    by (simp add: lz_topology_get_pool_def pool_lock_def pool_unlock_def locks_free_def s_def Let_def)
  ultimately show ?case using inv' vmm_frame_trans [OF ks(2) vmm_frame_trans [OF s'(4) st'(4)]] by blast
qed

section \<open>The contract\<close>

text \<open>States to run the contract on: no chunk yet, one chunk in a client's hands, one chunk cached.\<close>

definition no_chunks :: pools where
  "no_chunks = (\<lambda>_. [], [])"

definition held_chunk :: lz_state where
  "held_chunk = lz_vmm_init (boot_state\<lparr>trace := [Mmap 0x40000000 LZ_HUGE_PAGE_SIZE],
     hdrs := (\<lambda>_. zero_hdr\<lparr>ch_magic := LZ_CHUNK_MAGIC_V2\<rparr>)\<rparr>)"

definition cached_chunk :: lz_state where
  "cached_chunk = held_chunk\<lparr>hdrs := (hdrs held_chunk)(0x40000000 :=
       (hdrs held_chunk 0x40000000)\<lparr>ch_next := free_chunks (g_numa_pools held_chunk 0)\<rparr>),
     g_numa_pools := (g_numa_pools held_chunk)(0 := (g_numa_pools held_chunk 0)
       \<lparr>free_chunks := 0x40000000, available_count := available_count (g_numa_pools held_chunk 0) + 1\<rparr>)\<rparr>"

lemma no_chunks_inv: "vmm_inv (lz_vmm_init boot_state) no_chunks" "vmm_inv held_chunk no_chunks"
  unfolding no_chunks_def held_chunk_def by (rule vmm_inv_init; simp add: boot_state_def)+

lemma held_chunk_chunk: "chunk_at held_chunk 0x40000000" "0x40000000 \<notin> idle no_chunks"
  "ch_node_id (hdrs held_chunk 0x40000000) = of_nat 0" "ch_magic (hdrs held_chunk 0x40000000) = LZ_CHUNK_MAGIC_V2"
  unfolding chunk_at_def and_mask_0_iff
  by (simp_all add: held_chunk_def lz_vmm_init_def lz_topology_init_def valid_def idle_def
      no_chunks_def zero_hdr_def Let_def)

lemma cached_chunk_inv: "vmm_inv cached_chunk ((\<lambda>_. [])(0 := [0x40000000]), [])"
  using pool_put [OF no_chunks_inv(2) [unfolded no_chunks_def] _ held_chunk_chunk(1) _ _ held_chunk_chunk(4,3)]
    held_chunk_chunk(2) by (simp add: cached_chunk_def no_chunks_def)

text \<open>
  C8. Allocating a chunk implements its abstract description: the chunk comes off the stack of the
  node the thread runs on, else off the global stack, which a new extent refills when it is empty.
  Whatever the system answers, the call returns, leaves no lock held, keeps the invariant, touches
  no memory but the header of the chunk, and the chunk it returns is a mapped, aligned 2 MB block
  with a valid header that is on none of the stacks any more. NULL is returned only when the system
  refuses an extent.
\<close>

theorem vmm_alloc_chunk_correct:
  assumes "mmap_ok env" and "vmm_inv st PG"
  shows "\<exists>ext c PG' st'. lz_vmm_alloc_chunk env st = Some (c, st') \<and>
    vmm_alloc_abs (current_node env st) ext PG = (c, PG') \<and> new_chunks st ext \<and>
    vmm_inv st' PG' \<and> keeps {c} st st' \<and> vmm_frame st st' \<and>
    (c \<noteq> 0 \<longrightarrow> fresh_chunk st' c \<and> c \<notin> idle PG') \<and>
    (c = 0 \<longrightarrow> os_mmap env (Getcpu # trace st) (LZ_EXTENT_SIZE + LZ_HUGE_PAGE_SIZE) = None)"
  by (rule alloc_chunk_refines [OF assms])

theorem vmm_alloc_chunk_correct_witness:
  "\<exists>c PG' st'. lz_vmm_alloc_chunk bump_os (lz_vmm_init boot_state) = Some (c, st') \<and> c \<noteq> 0 \<and>
    vmm_inv st' PG' \<and> fresh_chunk st' c \<and> c \<notin> idle PG'"
proof -
  have "os_mmap bump_os (Getcpu # trace (lz_vmm_init boot_state)) (LZ_EXTENT_SIZE + LZ_HUGE_PAGE_SIZE) \<noteq> None"
    by (simp add: bump_os_def lz_vmm_init_def lz_topology_init_def boot_state_def)
  with vmm_alloc_chunk_correct [OF bump_os_ok no_chunks_inv(1)] show ?thesis by fastforce
qed

text \<open>
  C9. Returning a chunk implements its abstract description: it goes on top of the stack of the node
  in its header while that stack has fewer than 32 chunks; beyond that its pages, all but the first,
  go back to the system and it goes on top of the global stack. The call returns, keeps the
  invariant and touches no memory outside the chunk. NULL and blocks without the magic number are
  ignored.
\<close>

theorem vmm_free_chunk_correct:
  assumes "vmm_inv st PG" and "chunk_at st c" and "c \<notin> idle PG"
    and "ch_node_id (hdrs st c) = of_nat n" and "n < LZ_MAX_NUMA_NODES"
  shows "\<exists>st'. lz_vmm_free_chunk c st = Some st' \<and>
    (if ch_magic (hdrs st c) = LZ_CHUNK_MAGIC_V2 then
       vmm_inv st' (vmm_free_abs n c PG) \<and> keeps (chunk_block c) st st' \<and> vmm_frame st st' \<and>
       (length (fst PG n) \<ge> 32 \<longrightarrow> (\<forall>x\<in>payload_block c. mem st' x = 0))
     else st' = st)"
  using free_chunk_refines [OF assms(1-3) _ assms(5,4)] free_chunk_ignores(2) [OF chunk_at_valid [OF assms(2)]]
  by auto

theorem vmm_free_chunk_correct_witness:
  "\<exists>st'. lz_vmm_free_chunk 0x40000000 held_chunk = Some st' \<and>
     vmm_inv st' (vmm_free_abs 0 0x40000000 no_chunks) \<and> snd (vmm_free_abs 0 0x40000000 no_chunks) = []"
  using vmm_free_chunk_correct [OF no_chunks_inv(2) held_chunk_chunk(1-3)] held_chunk_chunk(4)
  by (auto simp: vmm_free_abs_def no_chunks_def)

text \<open>
  C10. Purging terminates and moves every cached chunk to the global stack: afterwards all sixteen
  node stacks are empty, the idle chunks are the same ones, the payload of every chunk moved reads
  as zero (its pages went back to the system), and nothing outside these chunks changed.
\<close>

theorem vmm_purge_correct:
  assumes "vmm_inv st (P, G)"
  shows "\<exists>st'. lz_vmm_purge_all_caches st = Some st' \<and>
    vmm_inv st' (\<lambda>n. if n < LZ_MAX_NUMA_NODES then [] else P n, rev (concat (map P [0..<LZ_MAX_NUMA_NODES])) @ G) \<and>
    keeps (\<Union>c\<in>cached P [0..<LZ_MAX_NUMA_NODES]. chunk_block c) st st' \<and> vmm_frame st st' \<and>
    (\<forall>c\<in>cached P [0..<LZ_MAX_NUMA_NODES]. \<forall>x\<in>payload_block c. mem st' x = 0)"
  using purge_nodes_spec [OF assms, of "[0..<16]"] unfolding lz_vmm_purge_all_caches_def by simp

theorem vmm_purge_correct_witness:
  "\<exists>st'. lz_vmm_purge_all_caches cached_chunk = Some st' \<and>
     vmm_inv st' (\<lambda>_. [], [0x40000000]) \<and> mem st' 0x40001000 = 0"
proof -
  let ?P = "(\<lambda>_ :: nat. [])(0 := [0x40000000 :: addr])"
  have "map ?P [0..<16] = [0x40000000] # replicate 15 []"
    by (simp add: upt_rec numeral_eq_Suc)
  then have c: "concat (map ?P [0..<16]) = [0x40000000]" by (simp add: numeral_eq_Suc)
  have p: "(\<lambda>n. if n < 16 then [] else ?P n) = (\<lambda>_. [])" by auto
  have "0x40000000 \<in> cached ?P [0..<16]" "0x40001000 \<in> payload_block 0x40000000"
    by (simp_all add: cached_def payload_block_def within_def)
  then show ?thesis using vmm_purge_correct [OF cached_chunk_inv] unfolding c p by auto
qed

text \<open>
  C12. Every extent is trimmed exactly: after a refill that got memory from the system, the addresses
  mapped are the 64 MB extent the chunks were cut from and what was mapped before. The slack around
  the alignment is returned, and the 32 chunks are new.
\<close>

theorem extent_trimmed_exactly:
  assumes "mmap_ok env" and "vmm_inv st (P, [])"
    and "os_mmap env (trace st) (LZ_EXTENT_SIZE + LZ_HUGE_PAGE_SIZE) = Some r"
  shows "\<exists>st' b. sys_alloc_extent env st = Some st' \<and> vmm_inv st' (P, extent_chunks b) \<and>
    (\<forall>x. valid st' x \<longleftrightarrow> within b LZ_EXTENT_SIZE x \<or> valid st x) \<and>
    (\<forall>c \<in> set (extent_chunks b). \<forall>x. within c LZ_HUGE_PAGE_SIZE x \<longrightarrow> \<not> valid st x)"
  using sys_alloc_extent_spec [OF assms(1,2)] assms(3) by auto

theorem extent_trimmed_exactly_witness:
  "\<exists>st' b. sys_alloc_extent bump_os (lz_vmm_init boot_state) = Some st' \<and>
     (\<forall>x. valid st' x \<longleftrightarrow> within b LZ_EXTENT_SIZE x)"
proof -
  have r: "os_mmap bump_os (trace (lz_vmm_init boot_state)) (LZ_EXTENT_SIZE + LZ_HUGE_PAGE_SIZE) = Some 4294967296"
    by (simp add: bump_os_def lz_vmm_init_def lz_topology_init_def boot_state_def)
  have "\<not> valid (lz_vmm_init boot_state) x" for x
    by (simp add: valid_def lz_vmm_init_def lz_topology_init_def boot_state_def)
  then show ?thesis using extent_trimmed_exactly [OF bump_os_ok no_chunks_inv(1) [unfolded no_chunks_def] r] by simp blast
qed

section \<open>Sessions\<close>

text \<open>
  The manager as the engines use it: take a chunk, give one of the held chunks back, purge. The
  laws of \<open>chunk_source\<close> are what one request promises; a session of any length follows from them.
\<close>

datatype chunk_request = Take | Give nat | Purge

fun chunk_session ::
  "('s \<Rightarrow> (addr \<times> 's) option) \<Rightarrow> (addr \<Rightarrow> 's \<Rightarrow> 's option) \<Rightarrow> ('s \<Rightarrow> 's option) \<Rightarrow>
   chunk_request list \<Rightarrow> addr list \<Rightarrow> 's \<Rightarrow> (addr list \<times> 's) option" where
  "chunk_session alloc_c free_c purge [] held s = Some (held, s)"
| "chunk_session alloc_c free_c purge (Take # rs) held s = do {
     (c, s) \<leftarrow> alloc_c s;
     chunk_session alloc_c free_c purge rs (if c = 0 then held else c # held) s }"
| "chunk_session alloc_c free_c purge (Give i # rs) held s =
     (if i < length held then do {
        s \<leftarrow> free_c (held ! i) s;
        chunk_session alloc_c free_c purge rs (remove1 (held ! i) held) s }
      else chunk_session alloc_c free_c purge rs held s)"
| "chunk_session alloc_c free_c purge (Purge # rs) held s = do {
     s \<leftarrow> purge s;
     chunk_session alloc_c free_c purge rs held s }"

locale chunk_source =
  fixes alloc_c :: "'s \<Rightarrow> (addr \<times> 's) option" and free_c :: "addr \<Rightarrow> 's \<Rightarrow> 's option"
    and purge :: "'s \<Rightarrow> 's option" and holds :: "'s \<Rightarrow> addr list \<Rightarrow> bool"
  assumes alloc_law: "holds s held \<Longrightarrow>
      \<exists>c s'. alloc_c s = Some (c, s') \<and> holds s' (if c = 0 then held else c # held)"
    and free_law: "holds s held \<Longrightarrow> c \<in> set held \<Longrightarrow> \<exists>s'. free_c c s = Some s' \<and> holds s' (remove1 c held)"
    and purge_law: "holds s held \<Longrightarrow> \<exists>s'. purge s = Some s' \<and> holds s' held"
begin

lemma session_safe:
  "holds s held \<Longrightarrow> \<exists>held' s'. chunk_session alloc_c free_c purge rs held s = Some (held', s') \<and> holds s' held'"
proof (induction rs arbitrary: held s)
  case (Cons r rs)
  show ?case
  proof (cases r)
    case Take
    from alloc_law [OF Cons.prems] obtain c s' where "alloc_c s = Some (c, s')"
      "holds s' (if c = 0 then held else c # held)" by blast
    then show ?thesis using Cons.IH Take by simp
  next
    case (Give i)
    show ?thesis
    proof (cases "i < length held")
      case True
      from free_law [OF Cons.prems nth_mem [OF True]] obtain s' where "free_c (held ! i) s = Some s'"
        "holds s' (remove1 (held ! i) held)" by blast
      then show ?thesis using Cons.IH Give True by simp
    qed (use Cons Give in simp)
  next
    case Purge
    from purge_law [OF Cons.prems] obtain s' where "purge s = Some s'" "holds s' held" by blast
    then show ?thesis using Cons.IH Purge by simp
  qed
qed simp

end

definition holds_chunks :: "lz_state \<Rightarrow> addr list \<Rightarrow> bool" where
  "holds_chunks st held \<longleftrightarrow> (\<exists>PG. vmm_inv st PG \<and> distinct held \<and>
     (\<forall>c\<in>set held. chunk_at st c \<and> c \<notin> idle PG \<and> ch_magic (hdrs st c) = LZ_CHUNK_MAGIC_V2 \<and>
        unat (ch_node_id (hdrs st c)) < LZ_MAX_NUMA_NODES))"

lemma holds_chunksI:
  assumes inv: "vmm_inv st PG" and held: "\<And>c. c \<in> set held \<Longrightarrow> chunk_at st c \<and> c \<notin> idle PG \<and>
      ch_magic (hdrs st c) = LZ_CHUNK_MAGIC_V2 \<and> unat (ch_node_id (hdrs st c)) < 16"
    and k: "keeps C st st'" and inv': "vmm_inv st' PG'" and C: "\<And>c. c \<in> set held \<Longrightarrow> c \<notin> C"
    and idle: "\<And>c. c \<in> set held \<Longrightarrow> c \<notin> idle PG'" and dist: "distinct held"
  shows "holds_chunks st' held"
proof -
  have "hdrs st' c = hdrs st c" if "c \<in> set held" for c
    using keepsD(2) [OF k chunk_at_valid C [OF that]] held [OF that] by blast
  then show ?thesis
    unfolding holds_chunks_def using inv' dist held idle chunk_at_keeps [OF _ k] by (intro exI [of _ PG']) auto
qed

lemma alloc_abs_idle:
  "vmm_alloc_abs n ext PG = (c, PG') \<Longrightarrow> n < 16 \<Longrightarrow> idle PG' \<subseteq> idle PG \<union> set ext \<and> (c = 0 \<or> c \<in> idle PG \<union> set ext)"
  using idle_pool [of n c PG]
  by (auto simp: vmm_alloc_abs_def idle_def split: list.splits if_splits)

lemma free_abs_idle: "n < 16 \<Longrightarrow> idle (vmm_free_abs n c PG) = insert c (idle PG)"
  by (auto simp: vmm_free_abs_def idle_def split: if_splits)

lemma alloc_holds:
  assumes ok: "mmap_ok env" and h: "holds_chunks st held"
  shows "\<exists>c st'. lz_vmm_alloc_chunk env st = Some (c, st') \<and> holds_chunks st' (if c = 0 then held else c # held)"
proof -
  from h obtain PG where inv: "vmm_inv st PG" and dist: "distinct held"
    and held: "\<And>d. d \<in> set held \<Longrightarrow> chunk_at st d \<and> d \<notin> idle PG \<and>
      ch_magic (hdrs st d) = LZ_CHUNK_MAGIC_V2 \<and> unat (ch_node_id (hdrs st d)) < 16"
    by (auto simp: holds_chunks_def)
  from alloc_chunk_refines [OF ok inv] obtain ext c PG' st' where
    run: "lz_vmm_alloc_chunk env st = Some (c, st')" and abs: "vmm_alloc_abs (current_node env st) ext PG = (c, PG')"
    and new: "new_chunks st ext" and inv': "vmm_inv st' PG'" and k: "keeps {c} st st'"
    and fresh: "c \<noteq> 0 \<Longrightarrow> fresh_chunk st' c \<and> c \<notin> idle PG'" by blast
  have old: "d \<notin> idle PG \<union> set ext" if "d \<in> set held" for d
    using held [OF that] new chunk_at_valid by (fastforce simp: new_chunks_def within_def)
  note abs = alloc_abs_idle [OF abs current_node_less]
  have nc: "d \<noteq> c" if "d \<in> set held" for d using old [OF that] abs held [OF that] by (auto simp: chunk_at_def)
  have hold: "holds_chunks st' held"
    by (rule holds_chunksI [OF inv held k inv' _ _ dist]) (use nc old abs in auto)
  show ?thesis
  proof (cases "c = 0")
    case False
    from hold have "holds_chunks st' (c # held)"
      using fresh [OF False] nc inv' old abs held chunk_at_keeps [OF _ k] keepsD(2) [OF k] chunk_at_valid
      unfolding holds_chunks_def fresh_chunk_def by (intro exI [of _ PG']) (auto simp: dist)
    then show ?thesis using run False by simp
  qed (use run hold in simp)
qed

lemma free_holds:
  assumes h: "holds_chunks st held" and c: "c \<in> set held"
  shows "\<exists>st'. lz_vmm_free_chunk c st = Some st' \<and> holds_chunks st' (remove1 c held)"
proof -
  from h obtain PG where inv: "vmm_inv st PG" and dist: "distinct held"
    and held: "\<And>d. d \<in> set held \<Longrightarrow> chunk_at st d \<and> d \<notin> idle PG \<and>
      ch_magic (hdrs st d) = LZ_CHUNK_MAGIC_V2 \<and> unat (ch_node_id (hdrs st d)) < 16"
    by (auto simp: holds_chunks_def)
  define n where "n = unat (ch_node_id (hdrs st c))"
  have n: "n < 16" "ch_node_id (hdrs st c) = of_nat n" using held [OF c] by (auto simp: n_def)
  have cc: "chunk_at st c" "c \<notin> idle PG" "ch_magic (hdrs st c) = LZ_CHUNK_MAGIC_V2" using held [OF c] by auto
  from free_chunk_refines [OF inv cc n] obtain st' where
    run: "lz_vmm_free_chunk c st = Some st'" and inv': "vmm_inv st' (vmm_free_abs n c PG)"
    and k: "keeps (chunk_block c) st st'" by blast
  have other: "d \<in> set held \<and> d \<noteq> c" if "d \<in> set (remove1 c held)" for d
    using that dist by simp
  have "holds_chunks st' (remove1 c held)"
  proof (rule holds_chunksI [OF inv _ k inv'])
    fix d assume "d \<in> set (remove1 c held)"
    from other [OF this] have d: "d \<in> set held" "d \<noteq> c" by auto
    show "chunk_at st d \<and> d \<notin> idle PG \<and> ch_magic (hdrs st d) = LZ_CHUNK_MAGIC_V2 \<and>
      unat (ch_node_id (hdrs st d)) < 16" by (rule held [OF d(1)])
    have "d \<in> chunk_block d" by (simp add: chunk_block_def within_def)
    then show "d \<notin> chunk_block c"
      using chunk_blocks_disjoint [of st c st d] held [OF c] held [OF d(1)] d(2) by blast
    show "d \<notin> idle (vmm_free_abs n c PG)" using free_abs_idle [OF n(1)] held [OF d(1)] d(2) by auto
  qed (simp add: dist)
  then show ?thesis using run by blast
qed

lemma purge_holds:
  assumes h: "holds_chunks st held"
  shows "\<exists>st'. lz_vmm_purge_all_caches st = Some st' \<and> holds_chunks st' held"
proof -
  from h obtain P G where inv: "vmm_inv st (P, G)" and dist: "distinct held"
    and held: "\<And>d. d \<in> set held \<Longrightarrow> chunk_at st d \<and> d \<notin> idle (P, G) \<and>
      ch_magic (hdrs st d) = LZ_CHUNK_MAGIC_V2 \<and> unat (ch_node_id (hdrs st d)) < 16"
    by (auto simp: holds_chunks_def)
  let ?PG = "(\<lambda>n. if n \<in> set [0..<16] then [] else P n, rev (concat (map P [0..<16])) @ G)"
  from purge_nodes_spec [OF inv, of "[0..<16]"] obtain st' where
    run: "purge_nodes [0..<16] st = Some st'" and inv': "vmm_inv st' ?PG"
    and k: "keeps (\<Union>c\<in>cached P [0..<16]. chunk_block c) st st'" by auto
  have cached: "cached P [0..<16] \<subseteq> idle (P, G)" by (auto simp: cached_def idle_def)
  have "holds_chunks st' held"
  proof (rule holds_chunksI [OF inv held k inv' _ _ dist])
    fix d assume d: "d \<in> set held"
    show "d \<notin> idle ?PG" using held [OF d] by (auto simp: idle_def)
    show "d \<notin> (\<Union>c\<in>cached P [0..<16]. chunk_block c)"
    proof
      assume "d \<in> (\<Union>c\<in>cached P [0..<16]. chunk_block c)"
      then obtain c where c: "c \<in> idle (P, G)" "d \<in> chunk_block c" using cached by blast
      moreover have "d \<in> chunk_block d" by (simp add: chunk_block_def within_def)
      moreover have "c \<noteq> d" using held [OF d] c(1) by auto
      ultimately show False
        using chunk_blocks_disjoint [OF vmm_invD(4) [OF inv c(1)], of st d] held [OF d] by blast
    qed
  qed
  then show ?thesis using run by (simp add: lz_vmm_purge_all_caches_def)
qed

interpretation vmm: chunk_source "lz_vmm_alloc_chunk env" lz_vmm_free_chunk lz_vmm_purge_all_caches
    "\<lambda>st held. mmap_ok env \<and> holds_chunks st held" for env
  by unfold_locales (use alloc_holds free_holds purge_holds in blast)+

text \<open>
  C11. A session with the manager is safe: from its initialisation on, any sequence of requests
  (taking chunks, giving held ones back, purging, in any order) runs without a fault and without
  waiting for a lock for ever, and the chunks held at the end are mapped and pairwise disjoint.
\<close>

theorem vmm_session_safe:
  assumes "mmap_ok env"
  shows "\<exists>held st'. chunk_session (lz_vmm_alloc_chunk env) lz_vmm_free_chunk lz_vmm_purge_all_caches
      rs [] (lz_vmm_init boot_state) = Some (held, st') \<and> distinct held \<and>
    (\<forall>c\<in>set held. chunk_at st' c \<and> (\<forall>d\<in>set held. c \<noteq> d \<longrightarrow> chunk_block c \<inter> chunk_block d = {}))"
proof -
  have "holds_chunks (lz_vmm_init boot_state) []"
    unfolding holds_chunks_def using no_chunks_inv(1) by (intro exI [of _ no_chunks]) simp
  with assms vmm.session_safe [of env "lz_vmm_init boot_state" "[]" rs] obtain held st' where
    run: "chunk_session (lz_vmm_alloc_chunk env) lz_vmm_free_chunk lz_vmm_purge_all_caches
      rs [] (lz_vmm_init boot_state) = Some (held, st')" and h: "holds_chunks st' held" by blast
  from h have "distinct held" "\<forall>c\<in>set held. chunk_at st' c" by (auto simp: holds_chunks_def)
  moreover from this have "\<forall>c\<in>set held. \<forall>d\<in>set held. c \<noteq> d \<longrightarrow> chunk_block c \<inter> chunk_block d = {}"
    using chunk_blocks_disjoint [of st' _ st'] by simp
  ultimately show ?thesis using run by blast
qed

theorem vmm_session_safe_witness:
  "\<exists>held st'. chunk_session (lz_vmm_alloc_chunk bump_os) lz_vmm_free_chunk lz_vmm_purge_all_caches
      [Take, Take, Give 1, Purge, Take] [] (lz_vmm_init boot_state) = Some (held, st') \<and> distinct held"
  using vmm_session_safe [OF bump_os_ok] by blast

end
