(* ===== verification/Slab_Objects.thy ===== *)
theory Slab_Objects
  imports Tlh Vmm_Spec
begin

text \<open>
  The objects of a slab. A slab of class \<open>k\<close> in the chunk \<open>c\<close> cuts the bytes from \<open>c + 128\<close> on into
  objects of \<open>class_bytes k\<close> bytes; the first \<open>m\<close> of them have been carved by the bump pointer, and
  those on the free list \<open>F\<close> are not in use. The free list is linked through the first word of each
  object, obfuscated.
\<close>

section \<open>Layout\<close>

definition chunk_base :: "addr \<Rightarrow> bool" where
  "chunk_base c \<longleftrightarrow> c \<noteq> 0 \<and> unat c mod 2097152 = 0 \<and> unat c + 2097152 \<le> 2 ^ 47"

lemma chunk_at_base: "chunk_at st c \<Longrightarrow> chunk_base c"
  unfolding chunk_at_def chunk_base_def and_mask_0_iff by simp

definition slots :: "nat \<Rightarrow> nat" where
  "slots k = (2097152 - 128) div class_bytes k"

definition obj :: "addr \<Rightarrow> nat \<Rightarrow> nat \<Rightarrow> addr" where
  "obj c k i = c + of_nat (128 + i * class_bytes k)"

definition objs :: "addr \<Rightarrow> nat \<Rightarrow> nat \<Rightarrow> addr set" where
  "objs c k m = obj c k ` {..<m}"

lemma class_bytes_bounds: "k < 40 \<Longrightarrow> 16 \<le> class_bytes k \<and> class_bytes k \<le> 32768"
proof -
  assume "k < 40"
  then have "class_bytes k \<le> class_bytes 39"
    using strict_mono_less_eq [OF class_bytes_strict_mono] by simp
  moreover have "class_bytes 0 \<le> class_bytes k"
    using strict_mono_less_eq [OF class_bytes_strict_mono] by simp
  ultimately show ?thesis by (simp add: class_bytes_def)
qed

lemma class_bytes_pos [simp]: "0 < class_bytes k"
  by (simp add: class_bytes_def)

lemma slots_bounds:
  assumes "k < 40"
  shows "63 \<le> slots k" "slots k \<le> 131064" "128 + slots k * class_bytes k \<le> 2097152"
proof -
  note b = class_bytes_bounds [OF assms]
  have "(2097152 - 128) div 32768 \<le> slots k" unfolding slots_def by (rule div_le_mono2) (use b in auto)
  then show "63 \<le> slots k" by simp
  have "slots k \<le> (2097152 - 128) div 16" unfolding slots_def by (rule div_le_mono2) (use b in auto)
  then show "slots k \<le> 131064" by simp
  show "128 + slots k * class_bytes k \<le> 2097152"
    unfolding slots_def using div_times_less_eq_dividend [of "2097152 - 128" "class_bytes k"] by simp
qed

lemma slot_end:
  assumes "i < slots k" "k < 40"
  shows "128 + i * class_bytes k + class_bytes k \<le> 2097152"
proof -
  have "Suc i * class_bytes k \<le> slots k * class_bytes k" using assms(1) by (intro mult_le_mono1) simp
  then show ?thesis using slots_bounds(3) [OF assms(2)] by simp
qed

lemma unat_obj:
  assumes "chunk_base c" "i \<le> slots k" "k < 40"
  shows "unat (obj c k i) = unat c + 128 + i * class_bytes k"
proof -
  have "i * class_bytes k \<le> slots k * class_bytes k" using assms(2) by (rule mult_le_mono1)
  then have le: "128 + i * class_bytes k \<le> 2097152" using slots_bounds(3) [OF assms(3)] by linarith
  then have "unat (of_nat (128 + i * class_bytes k) :: u64) = 128 + i * class_bytes k"
    by (simp only: unsigned_of_nat) (simp add: take_bit_nat_eq_self)
  then show ?thesis
    using assms(1) le by (simp add: obj_def unat_word_ariths chunk_base_def)
qed

lemma obj_eq_iff:
  assumes "chunk_base c" "chunk_base c'" "i < slots k" "j < slots k'" "k < 40" "k' < 40" "obj c k i = obj c' k' j"
  shows "c = c' \<and> i * class_bytes k = j * class_bytes k'"
proof -
  have u: "unat c + 128 + i * class_bytes k = unat c' + 128 + j * class_bytes k'"
    using assms unat_obj [of c i k] unat_obj [of c' j k'] by simp
  have b: "128 + i * class_bytes k < 2097152" "128 + j * class_bytes k' < 2097152"
    using slot_end [OF assms(3,5)] slot_end [OF assms(4,6)] class_bytes_pos [of k] class_bytes_pos [of k'] by linarith+
  have m: "unat c mod 2097152 = 0" "unat c' mod 2097152 = 0" using assms by (auto simp: chunk_base_def)
  have "unat c = unat c'"
  proof (cases "unat c \<le> unat c'")
    case True
    then show ?thesis using multiples_apart [OF m] u b by linarith
  next
    case False
    then show ?thesis using multiples_apart [OF m(2,1)] u b by linarith
  qed
  then show ?thesis using u word_unat_eq_iff by auto
qed

lemma obj_inj: "chunk_base c \<Longrightarrow> k < 40 \<Longrightarrow> inj_on (obj c k) {..<slots k}"
proof (rule inj_onI)
  fix i j
  assume "chunk_base c" "k < 40" "i \<in> {..<slots k}" "j \<in> {..<slots k}" "obj c k i = obj c k j"
  then have "i * class_bytes k = j * class_bytes k" using obj_eq_iff [of c c i k j k] by simp
  then show "i = j" using class_bytes_pos [of k] by simp
qed

lemma card_objs: "chunk_base c \<Longrightarrow> k < 40 \<Longrightarrow> m \<le> slots k \<Longrightarrow> card (objs c k m) = m"
  unfolding objs_def by (subst card_image) (auto intro: inj_on_subset [OF obj_inj])

text \<open>The bytes of an object.\<close>

definition obj_bytes :: "nat \<Rightarrow> addr \<Rightarrow> addr set" where
  "obj_bytes k a = {x. within a (of_nat (class_bytes k)) x}"

lemma unat_class_bytes: "k < 40 \<Longrightarrow> unat (of_nat (class_bytes k) :: u64) = class_bytes k"
  using class_bytes_bounds [of k] by (simp add: unsigned_of_nat take_bit_nat_eq_self)

lemma obj_bytes_iff:
  assumes "chunk_base c" "i < slots k" "k < 40"
  shows "x \<in> obj_bytes k (obj c k i) \<longleftrightarrow>
    unat c + 128 + i * class_bytes k \<le> unat x \<and> unat x < unat c + 128 + i * class_bytes k + class_bytes k"
proof -
  have "unat (obj c k i) + class_bytes k \<le> 2 ^ 64"
    using slot_end [OF assms(2,3)] assms(1) unat_obj [OF assms(1) _ assms(3), of i] assms(2)
    by (simp add: chunk_base_def)
  then show ?thesis
    using unat_obj [OF assms(1) _ assms(3), of i] assms(2)
    by (simp add: obj_bytes_def within_iff unat_class_bytes [OF assms(3)])
qed

lemma obj_bytes_disjoint:
  assumes "chunk_base c" "i < slots k" "j < slots k" "k < 40" "i \<noteq> j"
  shows "obj_bytes k (obj c k i) \<inter> obj_bytes k (obj c k j) = {}"
proof -
  have "i * class_bytes k + class_bytes k \<le> j * class_bytes k \<or> j * class_bytes k + class_bytes k \<le> i * class_bytes k"
  proof (cases "i < j")
    case True
    then have "Suc i * class_bytes k \<le> j * class_bytes k" by (intro mult_le_mono1) simp
    then show ?thesis by simp
  next
    case False
    then have "Suc j * class_bytes k \<le> i * class_bytes k" using assms(5) by (intro mult_le_mono1) simp
    then show ?thesis by simp
  qed
  then show ?thesis
    using obj_bytes_iff [OF assms(1,2,4)] obj_bytes_iff [OF assms(1,3,4)] by fastforce
qed

text \<open>The first word of an object, where a free object keeps its link.\<close>

definition word_bytes :: "addr \<Rightarrow> addr set" where
  "word_bytes a = {x. within a 8 x}"

lemma word_in_obj: "k < 40 \<Longrightarrow> word_bytes a \<subseteq> obj_bytes k a"
  using class_bytes_bounds [of k] unat_class_bytes [of k]
  by (auto simp: word_bytes_def obj_bytes_def within_def word_less_nat_alt)

lemma obj_in_chunk:
  assumes "chunk_base c" "i < slots k" "k < 40" "x \<in> obj_bytes k (obj c k i)"
  shows "unat c + 128 \<le> unat x" "unat x < unat c + 2097152"
  using obj_bytes_iff [OF assms(1-3), of x] assms(4) slot_end [OF assms(2,3)] by auto

lemma word_bytes_obj:
  assumes "chunk_base c" "i < slots k" "j < slots k" "k < 40" "i \<noteq> j"
  shows "word_bytes (obj c k i) \<inter> word_bytes (obj c k j) = {}"
  using obj_bytes_disjoint [OF assms] word_in_obj [OF assms(4)] by blast

lemma objs_nth: "x \<in> objs c k m \<Longrightarrow> m \<le> slots k \<Longrightarrow> \<exists>i < slots k. x = obj c k i"
  unfolding objs_def by force

lemma objs_mono: "m \<le> n \<Longrightarrow> objs c k m \<subseteq> objs c k n"
  by (auto simp: objs_def)

lemma objs_Suc: "objs c k (Suc m) = insert (obj c k m) (objs c k m)"
  by (auto simp: objs_def less_Suc_eq)

lemma obj_notin_objs:
  assumes "chunk_base c" "k < 40" "m < slots k"
  shows "obj c k m \<notin> objs c k m"
  using inj_onD [OF obj_inj [OF assms(1,2)], of m] assms(3) by (force simp: objs_def)

lemma word_bytes_offset: "x \<in> word_bytes a \<longleftrightarrow> (\<exists>i<8. x = a + of_nat i)"
  using within_offset [of a 8 x] by (simp add: word_bytes_def)

lemma load64_store64_disjoint:
  assumes "word_bytes a \<inter> word_bytes b = {}"
  shows "load64 (store64 a v m) b = load64 m b"
  by (rule load64_store64_other) (use assms in \<open>auto simp: word_bytes_def within_offset [of b]\<close>)

lemma load64_same: "(\<And>x. x \<in> word_bytes a \<Longrightarrow> m x = m' x) \<Longrightarrow> load64 m a = load64 m' a"
  by (rule load64_cong) (auto simp: word_bytes_offset)

lemma store64_outside: "x \<notin> word_bytes a \<Longrightarrow> store64 a v m x = m x"
  by (simp add: store64_def word_bytes_def)

section \<open>The invariant of a slab\<close>

definition free_link :: "lz_state \<Rightarrow> addr \<Rightarrow> addr" where
  "free_link st a = lz_ptr_obfuscate st (load64 (mem st) a) a"

text \<open>
  The slab \<open>r\<close> of class \<open>k\<close> in chunk \<open>c\<close>: \<open>m\<close> objects carved, those of \<open>F\<close> free. A bump pointer of
  NULL says that nothing is left to carve.
\<close>

definition slab_shape :: "addr \<Rightarrow> nat \<Rightarrow> nat \<Rightarrow> lz_slab \<Rightarrow> bool" where
  "slab_shape c k m r \<longleftrightarrow> sl_memory_base r = c + 128 \<and> sl_memory_end r = c + LZ_HUGE_PAGE_SIZE \<and>
     sl_size_class r = of_nat k \<and> sl_block_size r = of_nat (class_bytes k) \<and>
     sl_max_objects r = of_nat (slots k) \<and> m \<le> slots k \<and>
     (sl_bump_ptr r = obj c k m \<or> sl_bump_ptr r = 0 \<and> m = slots k)"

definition slab_rep :: "lz_state \<Rightarrow> addr \<Rightarrow> nat \<Rightarrow> nat \<Rightarrow> addr list \<Rightarrow> lz_slab \<Rightarrow> bool" where
  "slab_rep st c k m F r \<longleftrightarrow> slab_shape c k m r \<and> chain (free_link st) (sl_free_list_head r) F \<and>
     set F \<subseteq> objs c k m \<and> sl_used_objects r = of_nat (m - length F)"

lemma slab_rep_length:
  assumes "slab_rep st c k m F r" "chunk_base c" "k < 40"
  shows "length F \<le> m" "m \<le> slots k" "distinct F"
proof -
  show d: "distinct F" using assms(1) chain_distinct by (auto simp: slab_rep_def)
  show m: "m \<le> slots k" using assms(1) by (simp add: slab_rep_def slab_shape_def)
  have "card (set F) \<le> card (objs c k m)"
    by (rule card_mono) (use assms(1) in \<open>auto simp: slab_rep_def objs_def\<close>)
  then show "length F \<le> m" using card_objs [OF assms(2,3) m] distinct_card [OF d] by simp
qed

lemma slab_rep_used:
  assumes "slab_rep st c k m F r" "chunk_base c" "k < 40"
  shows "unat (sl_used_objects r) = m - length F" "unat (sl_max_objects r) = slots k"
  using assms slots_bounds(2) [OF assms(3)] slab_rep_length(2) [OF assms]
  by (auto simp: slab_rep_def slab_shape_def unsigned_of_nat take_bit_nat_eq_self)

text \<open>The links of the lists of slabs are no part of the representation.\<close>

lemma slab_rep_cong:
  assumes "slab_rep st c k m F r" "g_lz_global_secret st' = g_lz_global_secret st"
    and "\<And>x. x \<in> set F \<Longrightarrow> load64 (mem st') x = load64 (mem st) x"
    and "r'\<lparr>sl_next := 0, sl_prev := 0\<rparr> = r\<lparr>sl_next := 0, sl_prev := 0\<rparr>"
  shows "slab_rep st' c k m F r'"
proof -
  have "chain (free_link st') p F = chain (free_link st) p F" for p
    by (rule chain_cong) (simp add: free_link_def lz_ptr_obfuscate_def assms)
  moreover have "slab_shape c k m r' = slab_shape c k m r" "sl_free_list_head r' = sl_free_list_head r"
    "sl_used_objects r' = sl_used_objects r"
    using assms(4) by (cases r; cases r'; simp add: slab_shape_def)+
  ultimately show ?thesis using assms(1) by (simp add: slab_rep_def)
qed

lemma slab_pop:
  assumes "slab_rep st c k m (x # F) r" "chunk_base c" "k < 40"
  shows "slab_rep st c k m F (r\<lparr>sl_free_list_head := free_link st x, sl_used_objects := sl_used_objects r + 1\<rparr>)"
    and "x \<in> objs c k m" "x \<notin> set F" "sl_free_list_head r = x" "x \<noteq> 0"
proof -
  have l: "length (x # F) \<le> m" "distinct (x # F)" using slab_rep_length [OF assms] by auto
  then have "(of_nat (m - Suc (length F)) :: u32) + 1 = of_nat (m - length F)"
    by (metis Suc_diff_Suc Suc_le_lessD add.commute length_Cons of_nat_Suc)
  then show "slab_rep st c k m F (r\<lparr>sl_free_list_head := free_link st x, sl_used_objects := sl_used_objects r + 1\<rparr>)"
    using assms(1) by (auto simp: slab_rep_def slab_shape_def)
  show "x \<in> objs c k m" "sl_free_list_head r = x" "x \<noteq> 0" using assms(1) by (auto simp: slab_rep_def)
  show "x \<notin> set F" using l by simp
qed

lemma slab_bump:
  assumes "slab_rep st c k m F r" "chunk_base c" "k < 40" "m < slots k"
  shows "slab_rep st c k (Suc m) F (r\<lparr>sl_bump_ptr := sl_bump_ptr r + ucast (sl_block_size r),
      sl_used_objects := sl_used_objects r + 1\<rparr>)"
    and "sl_bump_ptr r = obj c k m" "sl_bump_ptr r + ucast (sl_block_size r) \<le> sl_memory_end r"
proof -
  show b: "sl_bump_ptr r = obj c k m" using assms by (auto simp: slab_rep_def slab_shape_def)
  have bs: "ucast (sl_block_size r) = (of_nat (class_bytes k) :: u64)"
    using assms(1) class_bytes_bounds [OF assms(3)]
    by (simp add: slab_rep_def slab_shape_def word_unat_eq_iff unat_ucast unsigned_of_nat take_bit_nat_eq_self)
  have next_obj: "obj c k m + of_nat (class_bytes k) = obj c k (Suc m)" by (simp add: obj_def algebra_simps)
  have "unat (obj c k (Suc m)) \<le> unat c + 2097152"
    using unat_obj [OF assms(2) _ assms(3), of "Suc m"] slot_end [OF assms(4,3)] assms(4) by simp
  moreover have "unat (c + 0x200000) = unat c + 2097152"
    using assms(2) by (simp add: chunk_base_def unat_word_ariths)
  ultimately show "sl_bump_ptr r + ucast (sl_block_size r) \<le> sl_memory_end r"
    using assms(1) b bs next_obj by (simp add: slab_rep_def slab_shape_def word_le_nat_alt)
  have "length F \<le> m" by (rule slab_rep_length(1) [OF assms(1-3)])
  then have "(of_nat (m - length F) :: u32) + 1 = of_nat (Suc m - length F)"
    by (metis Suc_diff_le add.commute of_nat_Suc)
  then show "slab_rep st c k (Suc m) F (r\<lparr>sl_bump_ptr := sl_bump_ptr r + ucast (sl_block_size r),
      sl_used_objects := sl_used_objects r + 1\<rparr>)"
    using assms b bs next_obj objs_mono [of m "Suc m" c k] by (auto simp: slab_rep_def slab_shape_def)
qed

lemma slab_exhausted:
  assumes "slab_rep st c k m F r" "chunk_base c" "k < 40" "sl_bump_ptr r \<noteq> 0"
    and "\<not> sl_bump_ptr r + ucast (sl_block_size r) \<le> sl_memory_end r"
  shows "m = slots k" "slab_rep st c k m F (r\<lparr>sl_bump_ptr := 0\<rparr>)"
proof -
  have "m \<le> slots k" using assms(1) by (simp add: slab_rep_def slab_shape_def)
  then show "m = slots k" using slab_bump(3) [OF assms(1-3)] assms(5) by force
  with assms(1) show "slab_rep st c k m F (r\<lparr>sl_bump_ptr := 0\<rparr>)" by (simp add: slab_rep_def slab_shape_def)
qed

lemma slab_put:
  assumes rep: "slab_rep st c k m F r" and c: "chunk_base c" "k < 40" and x: "x \<in> objs c k m" "x \<notin> set F"
  defines "M \<equiv> store64 x (lz_ptr_obfuscate st (sl_free_list_head r) x) (mem st)"
  shows "slab_rep (st\<lparr>mem := M\<rparr>) c k m (x # F)
      (r\<lparr>sl_free_list_head := x, sl_used_objects := sl_used_objects r - 1\<rparr>)"
    and "length F < m"
proof -
  have m: "m \<le> slots k" by (rule slab_rep_length(2) [OF rep c])
  obtain i where i: "i < slots k" "x = obj c k i" using objs_nth [OF x(1) m] by blast
  have x0: "x \<noteq> 0"
  proof
    assume "x = 0"
    then show False using unat_obj [OF c(1) _ c(2), of i] i by simp
  qed
  have other: "load64 M y = load64 (mem st) y" if "y \<in> set F" for y
  proof -
    have "y \<in> objs c k m" using rep that by (auto simp: slab_rep_def)
    then obtain j where j: "j < slots k" "y = obj c k j" using objs_nth m by blast
    have "i \<noteq> j" using that x(2) i j by auto
    then show ?thesis
      unfolding M_def by (intro load64_store64_disjoint) (use word_bytes_obj [OF c(1) i(1) j(1) c(2)] i j in simp)
  qed
  have "chain (free_link (st\<lparr>mem := M\<rparr>)) p F = chain (free_link st) p F" for p
    by (rule chain_cong) (simp add: free_link_def lz_ptr_obfuscate_def other)
  moreover have "free_link (st\<lparr>mem := M\<rparr>) x = sl_free_list_head r"
    by (simp add: free_link_def M_def load64_store64 lz_ptr_obfuscate_def xor_cancel_right)
  moreover have "card (set (x # F)) \<le> card (objs c k m)"
    by (rule card_mono) (use rep x in \<open>auto simp: slab_rep_def objs_def\<close>)
  then have len: "length F < m"
    using card_objs [OF c m] slab_rep_length(3) [OF rep c] x(2) distinct_card [of "x # F"] by simp
  then have "(of_nat (m - length F) :: u32) - 1 = of_nat (m - Suc (length F))"
    by (metis Suc_diff_Suc add_diff_cancel_right' add.commute of_nat_Suc plus_1_eq_Suc)
  ultimately show "slab_rep (st\<lparr>mem := M\<rparr>) c k m (x # F)
      (r\<lparr>sl_free_list_head := x, sl_used_objects := sl_used_objects r - 1\<rparr>)"
    using rep x x0 by (simp add: slab_rep_def slab_shape_def)
  show "length F < m" by (rule len)
qed

end
