(* ===== verification/Linked_Lists.thy ===== *)
theory Linked_Lists
  imports Tlh Chains
begin

text \<open>
  The doubly linked lists of the heaps: the partial and full lists of slabs of each bin and the list
  of active spans. Unlinking a node and pushing one on the front are proved once, for any structure
  with a \<open>next\<close> and a \<open>prev\<close> field and a place that holds the head, and then used for all of them.
\<close>

section \<open>Unlinking and pushing on functions\<close>

lemma dll_prev:
  "dll nx pv q p (xs @ y # ys) \<Longrightarrow> pv y = (if xs = [] then q else last xs)"
  by (induction xs arbitrary: p q) auto

lemma dll_next:
  "dll nx pv q p (xs @ y # ys) \<Longrightarrow> nx y = (if ys = [] then 0 else hd ys)"
proof (induction xs arbitrary: p q)
  case Nil
  then show ?case by (cases ys) auto
qed auto

lemma dll_unlink:
  assumes "dll nx pv q p (xs @ y # ys)" and "q \<notin> set (xs @ y # ys)"
  shows "dll (if pv y = 0 then nx else nx(pv y := nx y)) (if nx y = 0 then pv else pv(nx y := pv y)) q
    (if xs = [] then nx y else p) (xs @ ys)"
  using assms
proof (induction xs arbitrary: q p)
  case Nil
  then have y: "p = y" "pv y = q" "dll nx pv y (nx y) ys" by simp_all
  have d: "distinct (y # ys)" using dll_distinct [OF Nil(1)] by simp
  show ?case
  proof (cases ys)
    case (Cons z zs)
    let ?nx = "if pv y = 0 then nx else nx(pv y := nx y)"
    let ?pv = "if nx y = 0 then pv else pv(nx y := pv y)"
    have z: "nx y = z" "z \<noteq> 0" "pv z = y" "dll nx pv z (nx z) zs" using y Cons by simp_all
    have "dll ?nx ?pv z (nx z) zs = dll nx pv z (nx z) zs"
      by (rule dll_cong) (use Nil(2) y(2) z(1) d Cons in auto)
    moreover have "?nx z = nx z" "?pv z = q" using Nil(2) y(2) z Cons by auto
    ultimately have "dll ?nx ?pv q z (z # zs)" using z(2,4) by (simp only: dll.simps simp_thms)
    then show ?thesis by (simp only: Cons z(1) append_Nil if_True simp_thms)
  qed (use y in simp)
next
  case (Cons x xs)
  then have x: "p = x" "x \<noteq> 0" "pv x = q" and t: "dll nx pv x (nx x) (xs @ y # ys)" by simp_all
  have d: "distinct (x # xs @ y # ys)" using dll_distinct [OF Cons.prems(1)] by simp
  have py: "pv y = (if xs = [] then x else last xs)" by (rule dll_prev [OF t])
  have ny: "nx y = (if ys = [] then 0 else hd ys)" by (rule dll_next [OF t])
  have "pv y = x \<longleftrightarrow> xs = []" using py d last_in_set [of xs] by auto
  moreover have "nx y \<noteq> x" using ny d x(2) by (cases ys) auto
  moreover have "pv y \<noteq> 0" using py x(2) dll_not_null [OF t, of "last xs"] by auto
  ultimately show ?case using Cons.IH [OF t] d x by auto
qed

lemma dll_push:
  assumes "dll nx pv 0 h xs" and "y \<noteq> 0" and "y \<notin> set xs"
  shows "dll (nx(y := h)) (if h = 0 then pv(y := 0) else pv(y := 0, h := y)) 0 y (y # xs)"
proof (cases xs)
  case (Cons x ys)
  have d: "distinct xs" by (rule dll_distinct [OF assms(1)])
  have x: "h = x" "x \<noteq> 0" "dll nx pv x (nx x) ys" using assms(1) Cons by auto
  have "dll (nx(y := h)) (pv(y := 0, h := y)) x (nx x) ys = dll nx pv x (nx x) ys"
    by (rule dll_cong) (use d assms(3) Cons x in auto)
  then show ?thesis using x assms Cons by auto
qed (use assms in auto)

section \<open>Lists held in a state\<close>

locale linked_list =
  fixes node :: "'s \<Rightarrow> addr \<Rightarrow> bool" and nx pv :: "'s \<Rightarrow> addr \<Rightarrow> addr"
    and set_nx set_pv :: "addr \<Rightarrow> addr \<Rightarrow> 's \<Rightarrow> 's option"
    and ready :: "'s \<Rightarrow> bool" and head :: "'s \<Rightarrow> addr" and set_head :: "addr \<Rightarrow> 's \<Rightarrow> 's option"
    and frame :: "'s \<Rightarrow> 's \<Rightarrow> bool"
  assumes next_law: "node s a \<Longrightarrow> \<exists>s'. set_nx a v s = Some s' \<and> nx s' = (nx s)(a := v) \<and> pv s' = pv s \<and>
      node s' = node s \<and> head s' = head s \<and> ready s' = ready s \<and> frame s s'"
    and prev_law: "node s a \<Longrightarrow> \<exists>s'. set_pv a v s = Some s' \<and> nx s' = nx s \<and> pv s' = (pv s)(a := v) \<and>
      node s' = node s \<and> head s' = head s \<and> ready s' = ready s \<and> frame s s'"
    and head_law: "ready s \<Longrightarrow> \<exists>s'. set_head v s = Some s' \<and> nx s' = nx s \<and> pv s' = pv s \<and>
      node s' = node s \<and> head s' = v \<and> ready s' \<and> frame s s'"
    and frame_refl: "frame s s"
    and frame_trans: "frame s s' \<Longrightarrow> frame s' s'' \<Longrightarrow> frame s s''"
begin

definition listed :: "'s \<Rightarrow> addr list \<Rightarrow> bool" where
  "listed s xs \<longleftrightarrow> dll (nx s) (pv s) 0 (head s) xs \<and> (\<forall>x\<in>set xs. node s x) \<and> ready s"

lemma listed_head: "listed s xs \<Longrightarrow> head s = (if xs = [] then 0 else hd xs)"
  by (cases xs) (auto simp: listed_def)

lemma listed_distinct: "listed s xs \<Longrightarrow> distinct xs"
  unfolding listed_def using dll_distinct by blast

lemma unlink:
  assumes l: "listed s (xs @ y # ys)"
  shows "\<exists>s'. (if pv s y \<noteq> 0 then set_nx (pv s y) (nx s y) s else set_head (nx s y) s) \<bind>
      (\<lambda>s. if nx s y \<noteq> 0 then set_pv (nx s y) (pv s y) s else Some s) = Some s' \<and>
    listed s' (xs @ ys) \<and> node s' = node s \<and> frame s s' \<and>
    (\<forall>a. a \<notin> set (xs @ ys) \<longrightarrow> nx s' a = nx s a \<and> pv s' a = pv s a)"
proof -
  have d: "dll (nx s) (pv s) 0 (head s) (xs @ y # ys)" and n: "\<forall>x\<in>set (xs @ y # ys). node s x" and r: "ready s"
    using l by (auto simp: listed_def)
  have dist: "distinct (xs @ y # ys)" by (rule dll_distinct [OF d])
  have py: "pv s y = (if xs = [] then 0 else last xs)" using dll_prev [OF d] by simp
  have ny: "nx s y = (if ys = [] then 0 else hd ys)" by (rule dll_next [OF d])
  have z: "0 \<notin> set (xs @ y # ys)" using dll_not_null [OF d] by blast
  have pz: "pv s y = 0 \<longleftrightarrow> xs = []" using py z by (cases xs rule: rev_cases) auto
  have nz: "nx s y = 0 \<longleftrightarrow> ys = []" using ny z by (cases ys) auto
  have "\<exists>s1. (if pv s y \<noteq> 0 then set_nx (pv s y) (nx s y) s else set_head (nx s y) s) = Some s1 \<and>
     nx s1 = (if pv s y = 0 then nx s else (nx s)(pv s y := nx s y)) \<and> pv s1 = pv s \<and> node s1 = node s \<and>
     head s1 = (if xs = [] then nx s y else head s) \<and> ready s1 \<and> frame s s1"
    using next_law [of s "pv s y" "nx s y"] head_law [OF r, of "nx s y"] n py pz r
    by (cases "xs = []") auto
  then obtain s1 where s1: "(if pv s y \<noteq> 0 then set_nx (pv s y) (nx s y) s else set_head (nx s y) s) = Some s1"
    "nx s1 = (if pv s y = 0 then nx s else (nx s)(pv s y := nx s y))" "pv s1 = pv s" "node s1 = node s"
    "head s1 = (if xs = [] then nx s y else head s)" "ready s1" "frame s s1" by blast
  have yne: "pv s y \<noteq> y" "nx s y \<noteq> y" using py ny dist z by (cases ys; auto)+
  have "\<exists>s2. (if nx s1 y \<noteq> 0 then set_pv (nx s1 y) (pv s1 y) s1 else Some s1) = Some s2 \<and>
     nx s2 = nx s1 \<and> pv s2 = (if nx s y = 0 then pv s else (pv s)(nx s y := pv s y)) \<and> node s2 = node s \<and>
     head s2 = head s1 \<and> ready s2 \<and> frame s1 s2"
    using prev_law [of s1 "nx s y" "pv s y"] n ny nz s1 yne frame_refl by (cases ys) auto
  then obtain s2 where s2: "(if nx s1 y \<noteq> 0 then set_pv (nx s1 y) (pv s1 y) s1 else Some s1) = Some s2"
    "nx s2 = nx s1" "pv s2 = (if nx s y = 0 then pv s else (pv s)(nx s y := pv s y))" "node s2 = node s"
    "head s2 = head s1" "ready s2" "frame s1 s2" by blast
  have "listed s2 (xs @ ys)"
    using dll_unlink [OF d z] s1 s2 n by (auto simp: listed_def)
  moreover have "\<forall>a. a \<notin> set (xs @ ys) \<longrightarrow> nx s2 a = nx s a \<and> pv s2 a = pv s a"
    using s1(2) s2(2,3) py ny by auto
  ultimately show ?thesis using s1(1) s2(1,4) frame_trans [OF s1(7) s2(7)] by auto
qed

lemma push:
  assumes l: "listed s xs" and y: "node s y" "y \<noteq> 0" "y \<notin> set xs"
  shows "\<exists>s'. set_nx y (head s) s \<bind> set_pv y 0 \<bind>
      (\<lambda>s'. if head s \<noteq> 0 then set_pv (head s) y s' else Some s') \<bind> set_head y = Some s' \<and>
    listed s' (y # xs) \<and> node s' = node s \<and> frame s s' \<and>
    (\<forall>a. a \<notin> set (y # xs) \<longrightarrow> nx s' a = nx s a \<and> pv s' a = pv s a)"
proof -
  have d: "dll (nx s) (pv s) 0 (head s) xs" and n: "\<forall>x\<in>set xs. node s x" and r: "ready s"
    using l by (auto simp: listed_def)
  obtain s1 where s1: "set_nx y (head s) s = Some s1" "nx s1 = (nx s)(y := head s)" "pv s1 = pv s"
    "node s1 = node s" "head s1 = head s" "ready s1 = ready s" "frame s s1"
    using next_law [OF y(1)] by blast
  obtain s2 where s2: "set_pv y 0 s1 = Some s2" "nx s2 = nx s1" "pv s2 = (pv s1)(y := 0)"
    "node s2 = node s1" "head s2 = head s1" "ready s2 = ready s1" "frame s1 s2"
    using prev_law [of s1 y 0] y(1) s1(4) by auto
  have hn: "head s \<noteq> 0 \<Longrightarrow> head s \<in> set xs" using listed_head [OF l] by (cases xs) auto
  have "\<exists>s3. (if head s \<noteq> 0 then set_pv (head s) y s2 else Some s2) = Some s3 \<and> nx s3 = nx s2 \<and>
     pv s3 = (if head s = 0 then (pv s)(y := 0) else (pv s)(y := 0, head s := y)) \<and> node s3 = node s \<and> ready s3 \<and> frame s2 s3"
    using prev_law [of s2 "head s" y] n hn s1 s2 r frame_refl by (cases "head s = 0") auto
  then obtain s3 where s3: "(if head s \<noteq> 0 then set_pv (head s) y s2 else Some s2) = Some s3" "nx s3 = nx s2"
     "pv s3 = (if head s = 0 then (pv s)(y := 0) else (pv s)(y := 0, head s := y))" "node s3 = node s"
     "ready s3" "frame s2 s3" by blast
  obtain s4 where s4: "set_head y s3 = Some s4" "nx s4 = nx s3" "pv s4 = pv s3" "node s4 = node s3"
    "head s4 = y" "ready s4" "frame s3 s4" using head_law [OF s3(5)] by blast
  have "listed s4 (y # xs)"
    using dll_push [OF d y(2,3)] y(1) n s1 s2 s3 s4 by (auto simp: listed_def)
  moreover have "\<forall>a. a \<notin> set (y # xs) \<longrightarrow> nx s4 a = nx s a \<and> pv s4 a = pv s a"
    using s1(2) s2(2) s3(2,3) s4(2,3) hn by auto
  moreover have "frame s s4" using frame_trans s1(7) s2(7) s3(6) s4(7) by blast
  ultimately show ?thesis using s1(1) s2(1) s3(1,4) s4(1,4) by auto
qed

end

section \<open>The lists of slabs and of spans\<close>

fun mnext :: "lz_meta \<Rightarrow> addr" where
  "mnext (MSlab r) = sl_next r"
| "mnext (MSpan r) = sp_next r"
| "mnext _ = 0"

fun mprev :: "lz_meta \<Rightarrow> addr" where
  "mprev (MSlab r) = sl_prev r"
| "mprev (MSpan r) = sp_prev r"
| "mprev _ = 0"

text \<open>Everything of the metadata but the links.\<close>

fun mcore :: "lz_meta \<Rightarrow> lz_meta" where
  "mcore (MSlab r) = MSlab (r\<lparr>sl_next := 0, sl_prev := 0\<rparr>)"
| "mcore (MSpan r) = MSpan (r\<lparr>sp_next := 0, sp_prev := 0\<rparr>)"
| "mcore m = m"

definition meta_next :: "lz_state \<Rightarrow> addr \<Rightarrow> addr" where
  "meta_next st a = mnext (metas st a)"

definition meta_prev :: "lz_state \<Rightarrow> addr \<Rightarrow> addr" where
  "meta_prev st a = mprev (metas st a)"

definition slab_node :: "lz_state \<Rightarrow> addr \<Rightarrow> bool" where
  "slab_node st a \<longleftrightarrow> valid st a \<and> (\<exists>r. metas st a = MSlab r)"

definition span_node :: "lz_state \<Rightarrow> addr \<Rightarrow> bool" where
  "span_node st a \<longleftrightarrow> valid st a \<and> (\<exists>r. metas st a = MSpan r)"

text \<open>Only links changed, and of the heap \<open>T\<close> only what \<open>e\<close> erases.\<close>

definition relinks :: "addr \<Rightarrow> (lz_tlh \<Rightarrow> lz_tlh) \<Rightarrow> lz_state \<Rightarrow> lz_state \<Rightarrow> bool" where
  "relinks T e st st' \<longleftrightarrow> (\<exists>M h. st' = st\<lparr>metas := M, tlhs := (tlhs st)(T := h)\<rparr> \<and>
     (\<forall>a. mcore (M a) = mcore (metas st a)) \<and> e h = e (tlhs st T))"

lemma relinks_refl: "relinks T e st st"
  unfolding relinks_def by (rule exI [of _ "metas st"], rule exI [of _ "tlhs st T"]) simp

lemma relinks_trans:
  assumes "relinks T e st st'" "relinks T e st' st''"
  shows "relinks T e st st''"
proof -
  obtain M h where 1: "st' = st\<lparr>metas := M, tlhs := (tlhs st)(T := h)\<rparr>"
    "\<forall>a. mcore (M a) = mcore (metas st a)" "e h = e (tlhs st T)" using assms(1) by (auto simp: relinks_def)
  obtain M' h' where 2: "st'' = st'\<lparr>metas := M', tlhs := (tlhs st')(T := h')\<rparr>"
    "\<forall>a. mcore (M' a) = mcore (metas st' a)" "e h' = e (tlhs st' T)" using assms(2) by (auto simp: relinks_def)
  show ?thesis unfolding relinks_def
    by (rule exI [of _ M'], rule exI [of _ h']) (use 1 2 in simp)
qed

lemma relinks_meta: "mcore m = mcore (metas st a) \<Longrightarrow> relinks T e st (st\<lparr>metas := (metas st)(a := m)\<rparr>)"
  unfolding relinks_def by (rule exI [of _ "(metas st)(a := m)"], rule exI [of _ "tlhs st T"]) simp

lemma relinks_tlh: "e h = e (tlhs st T) \<Longrightarrow> relinks T e st (st\<lparr>tlhs := (tlhs st)(T := h)\<rparr>)"
  unfolding relinks_def by (rule exI [of _ "metas st"], rule exI [of _ h]) simp

definition erase_bin :: "nat \<Rightarrow> (lz_bin \<Rightarrow> lz_bin) \<Rightarrow> lz_tlh \<Rightarrow> lz_tlh" where
  "erase_bin i e h = h\<lparr>tl_bins := (tl_bins h)[i := e (tl_bins h ! i)]\<rparr>"

definition bin_ready :: "addr \<Rightarrow> nat \<Rightarrow> lz_state \<Rightarrow> bool" where
  "bin_ready T i st \<longleftrightarrow> valid st T \<and> i < length (tl_bins (tlhs st T))"

definition the_bin :: "addr \<Rightarrow> nat \<Rightarrow> lz_state \<Rightarrow> lz_bin" where
  "the_bin T i st = tl_bins (tlhs st T) ! i"

lemma get_bin_ready: "bin_ready T i st \<Longrightarrow> get_bin st T i = Some (the_bin T i st)"
  by (simp add: get_bin_def get_tlh_def bin_ready_def the_bin_def)

lemma upd_bin_ready:
  "bin_ready T i st \<Longrightarrow> upd_bin T i f st = Some (st\<lparr>tlhs := (tlhs st)(T := (tlhs st T)
     \<lparr>tl_bins := (tl_bins (tlhs st T))[i := f (the_bin T i st)]\<rparr>)\<rparr>)"
  by (simp add: upd_bin_def get_bin_ready upd_tlh_def) (simp add: bin_ready_def)

lemma get_slab_node: "slab_node st a \<Longrightarrow> \<exists>r. get_slab st a = Some r \<and> metas st a = MSlab r"
  by (auto simp: slab_node_def get_slab_def)

lemma upd_slab_node:
  "valid st a \<Longrightarrow> metas st a = MSlab r \<Longrightarrow> upd_slab a f st = Some (st\<lparr>metas := (metas st)(a := MSlab (f r))\<rparr>)"
  by (simp add: upd_slab_def get_slab_def set_meta_def)

lemma upd_span_node:
  "valid st a \<Longrightarrow> metas st a = MSpan r \<Longrightarrow> upd_span a f st = Some (st\<lparr>metas := (metas st)(a := MSpan (f r))\<rparr>)"
  by (simp add: upd_span_def get_span_def set_meta_def)

definition set_slab_next :: "addr \<Rightarrow> addr \<Rightarrow> lz_state \<Rightarrow> lz_state option" where
  "set_slab_next a v = upd_slab a (sl_next_update (\<lambda>_. v))"

definition set_slab_prev :: "addr \<Rightarrow> addr \<Rightarrow> lz_state \<Rightarrow> lz_state option" where
  "set_slab_prev a v = upd_slab a (sl_prev_update (\<lambda>_. v))"

lemma slab_next_law:
  assumes "slab_node st a"
  shows "\<exists>st'. set_slab_next a v st = Some st' \<and> meta_next st' = (meta_next st)(a := v) \<and>
    meta_prev st' = meta_prev st \<and> slab_node st' = slab_node st \<and> tlhs st' = tlhs st \<and> valid st' = valid st \<and>
    relinks T e st st'"
proof -
  obtain r where r: "valid st a" "metas st a = MSlab r" using assms by (auto simp: slab_node_def)
  show ?thesis
    unfolding set_slab_next_def upd_slab_node [OF r]
    by (intro exI [of _ "st\<lparr>metas := (metas st)(a := MSlab (r\<lparr>sl_next := v\<rparr>))\<rparr>"] conjI relinks_meta)
       (auto simp: fun_eq_iff meta_next_def meta_prev_def slab_node_def valid_def r)
qed

lemma slab_prev_law:
  assumes "slab_node st a"
  shows "\<exists>st'. set_slab_prev a v st = Some st' \<and> meta_next st' = meta_next st \<and>
    meta_prev st' = (meta_prev st)(a := v) \<and> slab_node st' = slab_node st \<and> tlhs st' = tlhs st \<and> valid st' = valid st \<and>
    relinks T e st st'"
proof -
  obtain r where r: "valid st a" "metas st a = MSlab r" using assms by (auto simp: slab_node_def)
  show ?thesis
    unfolding set_slab_prev_def upd_slab_node [OF r]
    by (intro exI [of _ "st\<lparr>metas := (metas st)(a := MSlab (r\<lparr>sl_prev := v\<rparr>))\<rparr>"] conjI relinks_meta)
       (auto simp: fun_eq_iff meta_next_def meta_prev_def slab_node_def valid_def r)
qed

lemma bin_head_law:
  assumes "bin_ready T i st" and "\<And>b. e (f b) = e b" and "\<And>b. g (f b) = v"
  shows "\<exists>st'. upd_bin T i f st = Some st' \<and> meta_next st' = meta_next st \<and> meta_prev st' = meta_prev st \<and>
    slab_node st' = slab_node st \<and> g (the_bin T i st') = v \<and> bin_ready T i st' \<and> relinks T (erase_bin i e) st st'"
  unfolding upd_bin_ready [OF assms(1)]
  by (rule exI, rule conjI, rule refl, intro conjI relinks_tlh)
     (use assms in \<open>auto simp: fun_eq_iff meta_next_def meta_prev_def slab_node_def valid_def bin_ready_def
        the_bin_def erase_bin_def\<close>)

interpretation partials: linked_list slab_node meta_next meta_prev set_slab_next set_slab_prev "bin_ready T i"
    "\<lambda>st. partial_list (the_bin T i st)" "\<lambda>v. upd_bin T i (partial_list_update (\<lambda>_. v))"
    "relinks T (erase_bin i (partial_list_update (\<lambda>_. 0)))" for T i
proof (unfold_locales, goal_cases)
  case (1 s a v)
  then show ?case using slab_next_law [OF 1, of v T "erase_bin i (partial_list_update (\<lambda>_. 0))"] by (auto simp: bin_ready_def the_bin_def)
next
  case (2 s a v)
  then show ?case using slab_prev_law [OF 2, of v T "erase_bin i (partial_list_update (\<lambda>_. 0))"] by (auto simp: bin_ready_def the_bin_def)
next
  case (3 s v)
  show ?case by (rule bin_head_law [OF 3]) auto
qed (fact relinks_refl relinks_trans)+

interpretation fulls: linked_list slab_node meta_next meta_prev set_slab_next set_slab_prev "bin_ready T i"
    "\<lambda>st. full_list (the_bin T i st)" "\<lambda>v. upd_bin T i (full_list_update (\<lambda>_. v))"
    "relinks T (erase_bin i (full_list_update (\<lambda>_. 0)))" for T i
proof (unfold_locales, goal_cases)
  case (1 s a v)
  then show ?case using slab_next_law [OF 1, of v T "erase_bin i (full_list_update (\<lambda>_. 0))"] by (auto simp: bin_ready_def the_bin_def)
next
  case (2 s a v)
  then show ?case using slab_prev_law [OF 2, of v T "erase_bin i (full_list_update (\<lambda>_. 0))"] by (auto simp: bin_ready_def the_bin_def)
next
  case (3 s v)
  show ?case by (rule bin_head_law [OF 3]) auto
qed (fact relinks_refl relinks_trans)+

definition set_span_next :: "addr \<Rightarrow> addr \<Rightarrow> lz_state \<Rightarrow> lz_state option" where
  "set_span_next a v = upd_span a (sp_next_update (\<lambda>_. v))"

definition set_span_prev :: "addr \<Rightarrow> addr \<Rightarrow> lz_state \<Rightarrow> lz_state option" where
  "set_span_prev a v = upd_span a (sp_prev_update (\<lambda>_. v))"

interpretation actives: linked_list span_node meta_next meta_prev set_span_next set_span_prev "\<lambda>st. valid st T"
    "\<lambda>st. tl_active_spans (tlhs st T)" "\<lambda>v. upd_tlh T (tl_active_spans_update (\<lambda>_. v))"
    "relinks T (tl_active_spans_update (\<lambda>_. 0))" for T
proof (unfold_locales, goal_cases)
  case (1 s a v)
  then obtain r where r: "valid s a" "metas s a = MSpan r" by (auto simp: span_node_def)
  show ?case
    unfolding set_span_next_def upd_span_node [OF r]
    by (intro exI [of _ "s\<lparr>metas := (metas s)(a := MSpan (r\<lparr>sp_next := v\<rparr>))\<rparr>"] conjI relinks_meta)
       (auto simp: fun_eq_iff meta_next_def meta_prev_def span_node_def valid_def r)
next
  case (2 s a v)
  then obtain r where r: "valid s a" "metas s a = MSpan r" by (auto simp: span_node_def)
  show ?case
    unfolding set_span_prev_def upd_span_node [OF r]
    by (intro exI [of _ "s\<lparr>metas := (metas s)(a := MSpan (r\<lparr>sp_prev := v\<rparr>))\<rparr>"] conjI relinks_meta)
       (auto simp: fun_eq_iff meta_next_def meta_prev_def span_node_def valid_def r)
next
  case (3 s v)
  show ?case
    by (intro exI [of _ "s\<lparr>tlhs := (tlhs s)(T := (tlhs s T)\<lparr>tl_active_spans := v\<rparr>)\<rparr>"] conjI relinks_tlh)
       (use 3 in \<open>auto simp: fun_eq_iff meta_next_def meta_prev_def span_node_def valid_def upd_tlh_def\<close>)
qed (fact relinks_refl relinks_trans)+

end
