(* ===== verification/Tlh_Bins.thy ===== *)
theory Tlh_Bins
  imports Linked_Lists
begin

text \<open>
  The lists of a bin: what \<open>lz_tlh_rescue_from_full\<close>, \<open>lz_tlh_recycle_empty_slab\<close> and the slow
  path of allocation do to the current slab, the partial list and the full list of one size class.
\<close>

section \<open>What the other lists keep\<close>

lemma erase_bin_eqD:
  assumes "erase_bin i e h' = erase_bin i e h" and "i < length (tl_bins h)"
  shows "length (tl_bins h') = length (tl_bins h)" "e (tl_bins h' ! i) = e (tl_bins h ! i)"
    "j \<noteq> i \<Longrightarrow> tl_bins h' ! j = tl_bins h ! j" "h'\<lparr>tl_bins := []\<rparr> = h\<lparr>tl_bins := []\<rparr>"
proof -
  have l: "(tl_bins h')[i := e (tl_bins h' ! i)] = (tl_bins h)[i := e (tl_bins h ! i)]"
    using arg_cong [OF assms(1), of tl_bins] by (simp add: erase_bin_def)
  show len: "length (tl_bins h') = length (tl_bins h)" using arg_cong [OF l, of length] by simp
  show "e (tl_bins h' ! i) = e (tl_bins h ! i)" using arg_cong [OF l, of "\<lambda>xs. xs ! i"] len assms(2) by simp
  show "j \<noteq> i \<Longrightarrow> tl_bins h' ! j = tl_bins h ! j" using arg_cong [OF l, of "\<lambda>xs. xs ! j"] by simp
  show "h'\<lparr>tl_bins := []\<rparr> = h\<lparr>tl_bins := []\<rparr>"
    using arg_cong [OF assms(1), of "\<lambda>h. h\<lparr>tl_bins := []\<rparr>"] by (simp add: erase_bin_def)
qed

lemma relinks_bin:
  assumes "relinks T (erase_bin i e) st st'" and "bin_ready T i st"
  shows "bin_ready T i st'" "e (the_bin T i st') = e (the_bin T i st)"
proof -
  obtain M h where st': "st' = st\<lparr>metas := M, tlhs := (tlhs st)(T := h)\<rparr>" and h: "erase_bin i e h = erase_bin i e (tlhs st T)"
    using assms(1) by (auto simp: relinks_def)
  have i: "i < length (tl_bins (tlhs st T))" "valid st T" using assms(2) by (simp_all add: bin_ready_def)
  show "bin_ready T i st'" "e (the_bin T i st') = e (the_bin T i st)"
    using erase_bin_eqD(1,2) [OF h i(1)] i by (simp_all add: st' bin_ready_def the_bin_def valid_def)
qed

lemma relinks_mono:
  assumes "relinks T e st st'" and "\<And>h h'. e h = e h' \<Longrightarrow> e' h = e' h'"
  shows "relinks T e' st st'"
  using assms(1) assms(2) [of _ "tlhs st T"] unfolding relinks_def by blast

text \<open>Everything of a heap but one bin.\<close>

abbreviation other_bins :: "nat \<Rightarrow> lz_tlh \<Rightarrow> lz_tlh" where
  "other_bins i \<equiv> erase_bin i (\<lambda>_. zero_bin)"

lemma erase_bin_other:
  assumes "erase_bin i e h = erase_bin i e h'"
  shows "other_bins i h = other_bins i h'"
proof -
  have "other_bins i (erase_bin i e h) = other_bins i h" for h by (simp add: erase_bin_def)
  then show ?thesis using assms by metis
qed

lemma relinks_other: "relinks T (erase_bin i e) st st' \<Longrightarrow> relinks T (other_bins i) st st'"
  by (erule relinks_mono) (erule erase_bin_other)

definition links_same :: "addr set \<Rightarrow> lz_state \<Rightarrow> lz_state \<Rightarrow> bool" where
  "links_same X st st' \<longleftrightarrow> (\<forall>a. a \<notin> X \<longrightarrow> meta_next st' a = meta_next st a \<and> meta_prev st' a = meta_prev st a)"

lemma links_same_trans: "links_same X st st' \<Longrightarrow> links_same X st' st'' \<Longrightarrow> links_same X st st''"
  by (simp add: links_same_def)

lemma links_same_mono: "links_same X st st' \<Longrightarrow> X \<subseteq> Y \<Longrightarrow> links_same Y st st'"
  by (auto simp: links_same_def)

lemma partials_listedI:
  assumes l: "partials.listed T i st ps" and "links_same X st st'" and "X \<inter> set ps = {}"
    and "slab_node st' = slab_node st" and "bin_ready T i st'"
    and "partial_list (the_bin T i st') = partial_list (the_bin T i st)"
  shows "partials.listed T i st' ps"
proof -
  have "dll (meta_next st') (meta_prev st') 0 (partial_list (the_bin T i st)) ps =
      dll (meta_next st) (meta_prev st) 0 (partial_list (the_bin T i st)) ps"
    by (rule dll_cong) (use assms in \<open>auto simp: links_same_def\<close>)
  then show ?thesis using assms by (auto simp: partials.listed_def)
qed

lemma fulls_listedI:
  assumes l: "fulls.listed T i st fs" and "links_same X st st'" and "X \<inter> set fs = {}"
    and "slab_node st' = slab_node st" and "bin_ready T i st'"
    and "full_list (the_bin T i st') = full_list (the_bin T i st)"
  shows "fulls.listed T i st' fs"
proof -
  have "dll (meta_next st') (meta_prev st') 0 (full_list (the_bin T i st)) fs =
      dll (meta_next st) (meta_prev st) 0 (full_list (the_bin T i st)) fs"
    by (rule dll_cong) (use assms in \<open>auto simp: links_same_def\<close>)
  then show ?thesis using assms by (auto simp: fulls.listed_def)
qed

section \<open>The operations on one list\<close>

lemma bind_slab_unlink:
  assumes y: "slab_node st y"
    and h: "\<And>v s'. set_head v st = Some s' \<Longrightarrow> slab_node s' = slab_node st"
    and run: "(if meta_prev st y \<noteq> 0 then set_slab_next (meta_prev st y) (meta_next st y) st
        else set_head (meta_next st y) st) \<bind>
      (\<lambda>s. if meta_next s y \<noteq> 0 then set_slab_prev (meta_next s y) (meta_prev s y) s else Some s) = Some st'"
  shows "slab_unlink set_head y st = Some st'"
proof -
  from run obtain s where s: "(if meta_prev st y \<noteq> 0 then set_slab_next (meta_prev st y) (meta_next st y) st
        else set_head (meta_next st y) st) = Some s"
    "(if meta_next s y \<noteq> 0 then set_slab_prev (meta_next s y) (meta_prev s y) s else Some s) = Some st'"
    by (auto simp: bind_eq_Some_conv)
  obtain r where r: "get_slab st y = Some r" "metas st y = MSlab r" using get_slab_node [OF y] by blast
  have "slab_node s y"
  proof (cases "meta_prev st y = 0")
    case False
    then have n: "upd_slab (meta_prev st y) (sl_next_update (\<lambda>_. meta_next st y)) st = Some s"
      using s(1) by (simp add: set_slab_next_def)
    show ?thesis using n y
      by (auto simp: upd_slab_def get_slab_def set_meta_def slab_node_def valid_def
          split: if_splits lz_meta.splits bind_splits)
  qed (use s(1) h y in auto)
  then obtain r' where r': "get_slab s y = Some r'" "metas s y = MSlab r'" using get_slab_node by blast
  show ?thesis
    using s [unfolded set_slab_next_def set_slab_prev_def meta_next_def meta_prev_def r(2) r'(2) mnext.simps mprev.simps]
      r(1) r'(1) by (simp add: slab_unlink_def)
qed

lemma upd_bin_nodes: "upd_bin T i f st = Some s' \<Longrightarrow> slab_node s' = slab_node st"
  by (auto simp: upd_bin_def get_bin_def get_tlh_def upd_tlh_def slab_node_def valid_def fun_eq_iff
      split: if_splits bind_splits)

lemma bind_slab_push:
  assumes y: "slab_node st y"
    and run: "set_slab_next y h st \<bind> set_slab_prev y 0 \<bind>
      (\<lambda>s'. if h \<noteq> 0 then set_slab_prev h y s' else Some s') \<bind> set_head y = Some st'"
  shows "slab_push h set_head y st = Some st'"
proof -
  obtain r where r: "valid st y" "metas st y = MSlab r" using y by (auto simp: slab_node_def)
  have "set_slab_next y h st \<bind> set_slab_prev y 0 = upd_slab y (\<lambda>s. s\<lparr>sl_next := h, sl_prev := 0\<rparr>) st"
    using r by (simp add: set_slab_next_def set_slab_prev_def upd_slab_def get_slab_def set_meta_def valid_def)
  note run [unfolded this, unfolded set_slab_prev_def]
  then show ?thesis unfolding slab_push_def bind_assoc .
qed

lemma full_unlink:
  assumes "fulls.listed T i st (xs @ y # ys)"
  shows "\<exists>st'. slab_unlink (\<lambda>v. upd_bin T i (full_list_update (\<lambda>_. v))) y st = Some st' \<and>
    fulls.listed T i st' (xs @ ys) \<and> slab_node st' = slab_node st \<and>
    relinks T (erase_bin i (full_list_update (\<lambda>_. 0))) st st' \<and> links_same (set (xs @ ys)) st st'"
proof -
  have "slab_node st y" using assms by (simp add: fulls.listed_def)
  note run = bind_slab_unlink [OF this, of "\<lambda>v. upd_bin T i (full_list_update (\<lambda>_. v))", OF upd_bin_nodes]
  from fulls.unlink [OF assms] show ?thesis
    unfolding links_same_def by (elim exE conjE) (intro exI conjI, rule run)
qed

lemma partial_unlink:
  assumes "partials.listed T i st (xs @ y # ys)"
  shows "\<exists>st'. slab_unlink (\<lambda>v. upd_bin T i (partial_list_update (\<lambda>_. v))) y st = Some st' \<and>
    partials.listed T i st' (xs @ ys) \<and> slab_node st' = slab_node st \<and>
    relinks T (erase_bin i (partial_list_update (\<lambda>_. 0))) st st' \<and> links_same (set (xs @ ys)) st st'"
proof -
  have "slab_node st y" using assms by (simp add: partials.listed_def)
  note run = bind_slab_unlink [OF this, of "\<lambda>v. upd_bin T i (partial_list_update (\<lambda>_. v))", OF upd_bin_nodes]
  from partials.unlink [OF assms] show ?thesis
    unfolding links_same_def by (elim exE conjE) (intro exI conjI, rule run)
qed

lemma partial_push:
  assumes "partials.listed T i st ps" "slab_node st y" "y \<noteq> 0" "y \<notin> set ps"
  shows "\<exists>st'. slab_push (partial_list (the_bin T i st)) (\<lambda>v. upd_bin T i (partial_list_update (\<lambda>_. v))) y st = Some st' \<and>
    partials.listed T i st' (y # ps) \<and> slab_node st' = slab_node st \<and>
    relinks T (erase_bin i (partial_list_update (\<lambda>_. 0))) st st' \<and> links_same (set (y # ps)) st st'"
  using partials.push [OF assms] unfolding links_same_def
  by (elim exE conjE) (intro exI conjI, rule bind_slab_push [OF assms(2)])

lemma full_push:
  assumes "fulls.listed T i st fs" "slab_node st y" "y \<noteq> 0" "y \<notin> set fs"
  shows "\<exists>st'. slab_push (full_list (the_bin T i st)) (\<lambda>v. upd_bin T i (full_list_update (\<lambda>_. v))) y st = Some st' \<and>
    fulls.listed T i st' (y # fs) \<and> slab_node st' = slab_node st \<and>
    relinks T (erase_bin i (full_list_update (\<lambda>_. 0))) st st' \<and> links_same (set (y # fs)) st st'"
  using fulls.push [OF assms] unfolding links_same_def
  by (elim exE conjE) (intro exI conjI, rule bind_slab_push [OF assms(2)])

section \<open>The three lists together\<close>

definition bin_lists :: "addr \<Rightarrow> nat \<Rightarrow> addr \<Rightarrow> addr list \<Rightarrow> addr list \<Rightarrow> lz_state \<Rightarrow> bool" where
  "bin_lists T i cur ps fs st \<longleftrightarrow> current_slab (the_bin T i st) = cur \<and>
     partials.listed T i st ps \<and> fulls.listed T i st fs \<and> set ps \<inter> set fs = {} \<and>
     (cur \<noteq> 0 \<longrightarrow> slab_node st cur \<and> cur \<notin> set ps \<union> set fs)"

definition bin_slabs :: "addr \<Rightarrow> addr list \<Rightarrow> addr list \<Rightarrow> addr set" where
  "bin_slabs cur ps fs = (if cur = 0 then {} else {cur}) \<union> set ps \<union> set fs"

text \<open>What an operation on a bin of \<open>T\<close> leaves alone.\<close>

definition bin_step :: "addr \<Rightarrow> nat \<Rightarrow> addr set \<Rightarrow> lz_state \<Rightarrow> lz_state \<Rightarrow> bool" where
  "bin_step T i X st st' \<longleftrightarrow> relinks T (other_bins i) st st' \<and> links_same X st st' \<and> slab_node st' = slab_node st"

lemma bin_step_refl: "bin_step T i X st st"
  by (simp add: bin_step_def relinks_refl links_same_def)

lemma bin_step_trans: "bin_step T i X st st' \<Longrightarrow> bin_step T i X st' st'' \<Longrightarrow> bin_step T i X st st''"
  unfolding bin_step_def
  using relinks_trans [of T "other_bins i" st st' st''] links_same_trans [of X st st' st''] by simp

lemma bin_stepI:
  "relinks T (erase_bin i e) st st' \<Longrightarrow> links_same X st st' \<Longrightarrow> X \<subseteq> Y \<Longrightarrow> slab_node st' = slab_node st \<Longrightarrow>
    bin_step T i Y st st'"
  unfolding bin_step_def using relinks_other [of T i e st st'] links_same_mono [of X st st' Y] by simp

lemma bin_step_upd:
  assumes "bin_ready T i st" "upd_bin T i f st = Some st'"
  shows "bin_step T i X st st'" "bin_ready T i st'" "the_bin T i st' = f (the_bin T i st)" "links_same {} st st'"
    "metas st' = metas st" "valid st' = valid st"
proof -
  have st': "st' = st\<lparr>tlhs := (tlhs st)(T := (tlhs st T)
     \<lparr>tl_bins := (tl_bins (tlhs st T))[i := f (the_bin T i st)]\<rparr>)\<rparr>"
    using assms upd_bin_ready by simp
  have "relinks T (erase_bin i (\<lambda>_. zero_bin)) st st'"
    unfolding st' by (rule relinks_tlh) (simp add: erase_bin_def)
  then show "bin_step T i X st st'"
    by (rule bin_stepI [of _ _ _ _ _ "{}"]) (auto simp: links_same_def meta_next_def meta_prev_def slab_node_def valid_def fun_eq_iff st')
  show "bin_ready T i st'" "the_bin T i st' = f (the_bin T i st)" "links_same {} st st'"
    "metas st' = metas st" "valid st' = valid st"
    using assms(1) by (auto simp: st' bin_ready_def the_bin_def valid_def links_same_def meta_next_def meta_prev_def fun_eq_iff)
qed

lemma full_relinks_bin:
  assumes "relinks T (erase_bin i (full_list_update (\<lambda>_. 0))) st st'" and "bin_ready T i st"
  shows "current_slab (the_bin T i st') = current_slab (the_bin T i st)"
    "partial_list (the_bin T i st') = partial_list (the_bin T i st)"
  using arg_cong [OF relinks_bin(2) [OF assms], of current_slab] arg_cong [OF relinks_bin(2) [OF assms], of partial_list]
  by simp_all

lemma partial_relinks_bin:
  assumes "relinks T (erase_bin i (partial_list_update (\<lambda>_. 0))) st st'" and "bin_ready T i st"
  shows "current_slab (the_bin T i st') = current_slab (the_bin T i st)"
    "full_list (the_bin T i st') = full_list (the_bin T i st)"
  using arg_cong [OF relinks_bin(2) [OF assms], of current_slab] arg_cong [OF relinks_bin(2) [OF assms], of full_list]
  by simp_all

lemma bin_listsD:
  assumes "bin_lists T i cur ps fs st"
  shows "bin_ready T i st" "current_slab (the_bin T i st) = cur" "partials.listed T i st ps" "fulls.listed T i st fs"
    "set ps \<inter> set fs = {}" "cur \<noteq> 0 \<Longrightarrow> slab_node st cur" "cur \<noteq> 0 \<Longrightarrow> cur \<notin> set ps \<union> set fs"
    "x \<in> bin_slabs cur ps fs \<Longrightarrow> slab_node st x \<and> x \<noteq> 0"
proof -
  show "bin_ready T i st" using assms by (simp add: bin_lists_def partials.listed_def)
  show "current_slab (the_bin T i st) = cur" "partials.listed T i st ps" "fulls.listed T i st fs"
    "set ps \<inter> set fs = {}" "cur \<noteq> 0 \<Longrightarrow> slab_node st cur" "cur \<noteq> 0 \<Longrightarrow> cur \<notin> set ps \<union> set fs"
    using assms by (simp_all add: bin_lists_def)
  have "slab_node st x \<and> x \<noteq> 0" if "x \<in> set ps"
    using assms that dll_not_null [of _ _ 0 _ ps] by (auto simp: bin_lists_def partials.listed_def)
  moreover have "slab_node st x \<and> x \<noteq> 0" if "x \<in> set fs"
    using assms that dll_not_null [of _ _ 0 _ fs] by (auto simp: bin_lists_def fulls.listed_def)
  ultimately show "x \<in> bin_slabs cur ps fs \<Longrightarrow> slab_node st x \<and> x \<noteq> 0"
    using assms by (auto simp: bin_lists_def bin_slabs_def split: if_splits)
qed

text \<open>A slab of the full list gets a free object: it moves to the front of the partial list.\<close>

lemma rescue_moves:
  assumes l: "bin_lists T i cur ps (xs @ s # ys) st" and c: "metas st s = MSlab r" "sl_size_class r = of_nat i" "i < 88"
  shows "\<exists>st'. lz_tlh_rescue_from_full T s st = Some st' \<and> bin_lists T i cur (s # ps) (xs @ ys) st' \<and>
    bin_step T i (bin_slabs cur ps (xs @ s # ys)) st st'"
proof -
  note d = bin_listsD [OF l]
  have s: "slab_node st s" "s \<noteq> 0" using d(8) [of s] by (auto simp: bin_slabs_def)
  have dist: "distinct (xs @ s # ys)" by (rule fulls.listed_distinct [OF d(4)])
  have cur: "s \<noteq> cur" using d(7) s by auto
  obtain st1 where st1: "slab_unlink (\<lambda>v. upd_bin T i (full_list_update (\<lambda>_. v))) s st = Some st1"
    "fulls.listed T i st1 (xs @ ys)" "slab_node st1 = slab_node st"
    "relinks T (erase_bin i (full_list_update (\<lambda>_. 0))) st st1" "links_same (set (xs @ ys)) st st1"
    using full_unlink [OF d(4)] by blast
  have r1: "bin_ready T i st1" by (rule relinks_bin(1) [OF st1(4) d(1)])
  note b1 = full_relinks_bin [OF st1(4) d(1)]
  have p1: "partials.listed T i st1 ps"
    by (rule partials_listedI [OF d(3) st1(5) _ st1(3) r1 b1(2)]) (use d(5) in auto)
  have "s \<notin> set ps" using d(5) by auto
  then obtain st2 where st2: "slab_push (partial_list (the_bin T i st1))
      (\<lambda>v. upd_bin T i (partial_list_update (\<lambda>_. v))) s st1 = Some st2"
    "partials.listed T i st2 (s # ps)" "slab_node st2 = slab_node st1"
    "relinks T (erase_bin i (partial_list_update (\<lambda>_. 0))) st1 st2" "links_same (set (s # ps)) st1 st2"
    using partial_push [OF p1, of s] s st1(3) by auto
  note b2 = partial_relinks_bin [OF st2(4) r1]
  have f2: "fulls.listed T i st2 (xs @ ys)"
    by (rule fulls_listedI [OF st1(2) st2(5) _ st2(3) relinks_bin(1) [OF st2(4) r1] b2(2)]) (use d(5) dist in auto)
  have "get_slab st s = Some r" using s c by (simp add: slab_node_def get_slab_def)
  moreover have "unat (sl_size_class r) = i" using c by (simp add: unsigned_of_nat take_bit_nat_eq_self)
  ultimately have "lz_tlh_rescue_from_full T s st = Some st2"
    using st1(1) st2(1) cur d(1,2) r1 by (simp add: lz_tlh_rescue_from_full_def get_bin_ready)
  moreover have "bin_lists T i cur (s # ps) (xs @ ys) st2"
    using st2(2,3) f2 b1(1) b2(1) st1(3) d cur dist by (auto simp: bin_lists_def)
  moreover have "bin_step T i (bin_slabs cur ps (xs @ s # ys)) st st2"
    by (rule bin_step_trans [OF bin_stepI [OF st1(4,5) _ st1(3)] bin_stepI [OF st2(4,5) _ st2(3)]])
       (auto simp: bin_slabs_def)
  ultimately show ?thesis by blast
qed

text \<open>The current slab is full: it goes to the front of the full list.\<close>

lemma retire_moves:
  assumes l: "bin_lists T i cur ps fs st"
  shows "\<exists>st'. retire_current T i cur st = Some st' \<and> bin_ready T i st' \<and>
    partials.listed T i st' ps \<and> fulls.listed T i st' (if cur = 0 then fs else cur # fs) \<and>
    bin_step T i (bin_slabs cur ps fs) st st'"
proof (cases "cur = 0")
  case True
  then show ?thesis using bin_listsD [OF l] bin_step_refl by (simp add: retire_current_def)
next
  case False
  note d = bin_listsD [OF l]
  obtain st' where st': "slab_push (full_list (the_bin T i st)) (\<lambda>v. upd_bin T i (full_list_update (\<lambda>_. v))) cur st = Some st'"
    "fulls.listed T i st' (cur # fs)" "slab_node st' = slab_node st"
    "relinks T (erase_bin i (full_list_update (\<lambda>_. 0))) st st'" "links_same (set (cur # fs)) st st'"
    using full_push [OF d(4) d(6) False] d(7) False by auto
  have r: "bin_ready T i st'" by (rule relinks_bin(1) [OF st'(4) d(1)])
  have "partials.listed T i st' ps"
    by (rule partials_listedI [OF d(3) st'(5) _ st'(3) r full_relinks_bin(2) [OF st'(4) d(1)]])
       (use d(5,7) False in auto)
  moreover have "bin_step T i (bin_slabs cur ps fs) st st'"
    by (rule bin_stepI [OF st'(4,5) _ st'(3)]) (use False in \<open>auto simp: bin_slabs_def\<close>)
  ultimately show ?thesis
    using st'(1,2) r d(1) False by (simp add: retire_current_def get_bin_ready)
qed

lemma slab_clear_links:
  assumes "slab_node st p"
  shows "\<exists>st'. upd_slab p (\<lambda>s. s\<lparr>sl_next := 0, sl_prev := 0\<rparr>) st = Some st' \<and> links_same {p} st st' \<and>
    slab_node st' = slab_node st \<and> relinks T (other_bins i) st st' \<and> tlhs st' = tlhs st \<and> valid st' = valid st"
proof -
  obtain r where r: "valid st p" "metas st p = MSlab r" using assms by (auto simp: slab_node_def)
  show ?thesis
    unfolding upd_slab_node [OF r]
    by (rule exI, rule conjI, rule refl, intro conjI relinks_meta)
       (auto simp: links_same_def meta_next_def meta_prev_def slab_node_def valid_def fun_eq_iff r)
qed

text \<open>The head of the partial list becomes the current slab.\<close>

lemma promote_moves:
  assumes r: "bin_ready T i st" and p: "partials.listed T i st (p # ps)" and f: "fulls.listed T i st fs"
    and disj: "set (p # ps) \<inter> set fs = {}"
  shows "\<exists>st'. promote_partial T i st = Some (p, st') \<and> bin_lists T i p ps fs st' \<and>
    bin_step T i (set (p # ps)) st st'"
proof -
  have pn: "slab_node st p" "p \<noteq> 0" "partial_list (the_bin T i st) = p"
    using p by (auto simp: partials.listed_def)
  have dist: "p \<notin> set ps" using partials.listed_distinct [OF p] by simp
  obtain st1 where st1: "upd_bin T i (current_slab_update (\<lambda>_. p)) st = Some st1" using upd_bin_ready [OF r] by blast
  note u1 = bin_step_upd [OF r st1]
  have n1: "slab_node st1 = slab_node st" using u1(1) by (simp add: bin_step_def)
  have p1: "partials.listed T i st1 (p # ps)" by (rule partials_listedI [OF p u1(4) _ n1 u1(2)]) (simp_all add: u1(3))
  have f1: "fulls.listed T i st1 fs" by (rule fulls_listedI [OF f u1(4) _ n1 u1(2)]) (simp_all add: u1(3))
  obtain s where s: "get_slab st1 p = Some s" "metas st1 p = MSlab s" using get_slab_node [of st1 p] n1 pn(1) by auto
  have nx: "meta_next st1 p = sl_next s" "meta_prev st1 p = 0"
    using s p1 by (simp_all add: meta_next_def partials.listed_def)
  obtain st2 where st2: "upd_bin T i (partial_list_update (\<lambda>_. sl_next s)) st1 = Some st2"
    using upd_bin_ready [OF u1(2)] by blast
  have same2: "meta_next st2 p = sl_next s" "meta_prev st2 p = 0"
    using bin_step_upd(4) [OF u1(2) st2] nx by (auto simp: links_same_def)
  obtain st3 where st3: "(if sl_next s \<noteq> 0 then set_slab_prev (sl_next s) 0 st2 else Some st2) = Some st3"
    "partials.listed T i st3 ps" "slab_node st3 = slab_node st1"
    "relinks T (erase_bin i (partial_list_update (\<lambda>_. 0))) st1 st3" "links_same (set ps) st1 st3"
    using partials.unlink [of T i st1 "[]" p ps] p1 nx st2 same2 by (auto simp: links_same_def cong: if_cong)
  have r3: "bin_ready T i st3" by (rule relinks_bin(1) [OF st3(4) u1(2)])
  note b3 = partial_relinks_bin [OF st3(4) u1(2)]
  have f3: "fulls.listed T i st3 fs"
    by (rule fulls_listedI [OF f1 st3(5) _ st3(3) r3 b3(2)]) (use disj in auto)
  obtain st4 where st4: "upd_slab p (\<lambda>s. s\<lparr>sl_next := 0, sl_prev := 0\<rparr>) st3 = Some st4" "links_same {p} st3 st4"
    "slab_node st4 = slab_node st3" "relinks T (other_bins i) st3 st4" "tlhs st4 = tlhs st3" "valid st4 = valid st3"
    using slab_clear_links [of st3 p T i] n1 st3(3) pn(1) by auto
  have b4: "bin_ready T i st4" "the_bin T i st4 = the_bin T i st3"
    using r3 st4(5,6) by (simp_all add: bin_ready_def the_bin_def)
  have "partials.listed T i st4 ps" by (rule partials_listedI [OF st3(2) st4(2) _ st4(3) b4(1)]) (use dist b4 in auto)
  moreover have "fulls.listed T i st4 fs" by (rule fulls_listedI [OF f3 st4(2) _ st4(3) b4(1)]) (use disj b4 in auto)
  moreover have "current_slab (the_bin T i st4) = p" using b4(2) b3(1) u1(3) by simp
  ultimately have "bin_lists T i p ps fs st4"
    using disj dist pn n1 st3(3) st4(3) by (auto simp: bin_lists_def)
  moreover have "promote_partial T i st = Some (p, st4)"
    using st1 st2 s st3(1) [unfolded set_slab_prev_def] st4(1) pn get_bin_ready [OF r]
    by (simp add: promote_partial_def)
  moreover have "bin_step T i (set (p # ps)) st1 st3" by (rule bin_stepI [OF st3(4,5) _ st3(3)]) auto
  then have "bin_step T i (set (p # ps)) st st3" by (rule bin_step_trans [OF u1(1)])
  then have "bin_step T i (set (p # ps)) st st4"
    by (rule bin_step_trans) (use st4(2-4) links_same_mono [OF st4(2)] in \<open>auto simp: bin_step_def\<close>)
  ultimately show ?thesis by blast
qed

text \<open>A slab that is not the current one is taken off the partial list, by the head test of the code.\<close>

definition recycle_head :: "addr \<Rightarrow> nat \<Rightarrow> addr \<Rightarrow> addr \<Rightarrow> lz_state \<Rightarrow> lz_state option" where
  "recycle_head T i slab v st = do {
     b \<leftarrow> get_bin st T i;
     if partial_list b = slab then upd_bin T i (partial_list_update (\<lambda>_. v)) st
     else if full_list b = slab then upd_bin T i (full_list_update (\<lambda>_. v)) st
     else Some st }"

lemma recycle_moves:
  assumes l: "bin_lists T i cur (xs @ s # ys) fs st"
  shows "\<exists>st'. slab_unlink (recycle_head T i s) s st = Some st' \<and> bin_lists T i cur (xs @ ys) fs st' \<and>
    bin_step T i (bin_slabs cur (xs @ s # ys) fs) st st'"
proof -
  note d = bin_listsD [OF l]
  have s: "slab_node st s" "s \<noteq> 0" using d(8) [of s] by (auto simp: bin_slabs_def)
  have dist: "distinct (xs @ s # ys)" by (rule partials.listed_distinct [OF d(3)])
  obtain st1 where st1: "slab_unlink (\<lambda>v. upd_bin T i (partial_list_update (\<lambda>_. v))) s st = Some st1"
    "partials.listed T i st1 (xs @ ys)" "slab_node st1 = slab_node st"
    "relinks T (erase_bin i (partial_list_update (\<lambda>_. 0))) st st1" "links_same (set (xs @ ys)) st st1"
    using partial_unlink [OF d(3)] by blast
  have "slab_unlink (recycle_head T i s) s st = slab_unlink (\<lambda>v. upd_bin T i (partial_list_update (\<lambda>_. v))) s st"
  proof (cases "meta_prev st s = 0")
    case True
    have "dll (meta_next st) (meta_prev st) 0 (partial_list (the_bin T i st)) (xs @ s # ys)"
      using d(3) by (simp add: partials.listed_def)
    from dll_prev [OF this] True dll_not_null [OF this] have "xs = []" by (cases xs rule: rev_cases) auto
    then have "partial_list (the_bin T i st) = s" using partials.listed_head [OF d(3)] by simp
    then have "recycle_head T i s v st = upd_bin T i (partial_list_update (\<lambda>_. v)) st" for v
      using d(1) by (simp add: recycle_head_def get_bin_ready)
    then show ?thesis by (simp add: slab_unlink_def cong: if_cong)
  next
    case False
    obtain r where "get_slab st s = Some r" "metas st s = MSlab r" using get_slab_node [OF s(1)] by blast
    then show ?thesis using False by (simp add: slab_unlink_def meta_prev_def)
  qed
  moreover have r1: "bin_ready T i st1" by (rule relinks_bin(1) [OF st1(4) d(1)])
  note b1 = partial_relinks_bin [OF st1(4) d(1)]
  have "fulls.listed T i st1 fs"
    by (rule fulls_listedI [OF d(4) st1(5) _ st1(3) r1 b1(2)]) (use d(5) in auto)
  then have "bin_lists T i cur (xs @ ys) fs st1"
    using st1(2,3) b1(1) d dist by (auto simp: bin_lists_def)
  moreover have "bin_step T i (bin_slabs cur (xs @ s # ys) fs) st st1"
    by (rule bin_stepI [OF st1(4,5) _ st1(3)]) (auto simp: bin_slabs_def)
  ultimately show ?thesis using st1(1) by auto
qed

text \<open>Installing a new slab as the current one.\<close>

lemma install_moves:
  assumes r: "bin_ready T i st" and p: "partials.listed T i st ps" and f: "fulls.listed T i st fs"
    and disj: "set ps \<inter> set fs = {}" and n: "slab_node st n" "n \<noteq> 0" "n \<notin> set ps \<union> set fs"
  shows "\<exists>st'. upd_bin T i (current_slab_update (\<lambda>_. n)) st = Some st' \<and> bin_lists T i n ps fs st' \<and>
    bin_step T i {} st st'"
proof -
  obtain st1 where st1: "upd_bin T i (current_slab_update (\<lambda>_. n)) st = Some st1" using upd_bin_ready [OF r] by blast
  note u1 = bin_step_upd [OF r st1]
  have n1: "slab_node st1 = slab_node st" using u1(1) by (simp add: bin_step_def)
  have "partials.listed T i st1 ps" by (rule partials_listedI [OF p u1(4) _ n1 u1(2)]) (simp_all add: u1(3))
  moreover have "fulls.listed T i st1 fs" by (rule fulls_listedI [OF f u1(4) _ n1 u1(2)]) (simp_all add: u1(3))
  ultimately show ?thesis using st1 u1(1,3) n disj n1 by (auto simp: bin_lists_def)
qed

end
