(* ===== verification/Heap_Inv.thy ===== *)
theory Heap_Inv
  imports Slab_Objects Tlh_Bins Vmm_Spec
begin

text \<open>
  The invariant of the allocator between two operations. What the state does not say by itself is
  kept in a description of the heap: which chunks are used for what, how many objects of a slab are
  carved and which of them are free, and the lists the links form. The invariant relates state and
  description; the theorems about the operations say how the description changes.
\<close>

section \<open>The description of a heap\<close>

datatype chunk_use =
    Slab_of addr nat   \<comment> \<open>a slab of a heap, of a size class\<close>
  | Span_of addr       \<comment> \<open>a span of a heap\<close>
  | Direct_of addr     \<comment> \<open>a 2 MB block of the direct mapping that starts there\<close>
  | Spare              \<comment> \<open>taken from the memory manager, in no list\<close>

record heap_desc =
  gpools :: pools
  gheaps :: "addr set"
  gown :: "addr \<rightharpoonup> chunk_use"
  gcarved :: "addr \<Rightarrow> nat"
  gfree :: "addr \<Rightarrow> addr list"
  gcur :: "addr \<Rightarrow> nat \<Rightarrow> addr"
  gpart :: "addr \<Rightarrow> nat \<Rightarrow> addr list"
  gfull :: "addr \<Rightarrow> nat \<Rightarrow> addr list"
  gspans :: "addr \<Rightarrow> addr list"

abbreviation desc_slabs :: "heap_desc \<Rightarrow> addr \<Rightarrow> nat \<Rightarrow> addr set" where
  "desc_slabs G T i \<equiv> bin_slabs (gcur G T i) (gpart G T i) (gfull G T i)"

text \<open>The lists of a heap hold its slabs and spans, and nothing else.\<close>

definition desc_ok :: "heap_desc \<Rightarrow> bool" where
  "desc_ok G \<longleftrightarrow> 0 \<notin> gheaps G \<and>
     (\<forall>c T i. gown G c = Some (Slab_of T i) \<longrightarrow> T \<in> gheaps G \<and> i < 40) \<and>
     (\<forall>c T. gown G c = Some (Span_of T) \<longrightarrow> T \<in> gheaps G) \<and>
     (\<forall>T\<in>gheaps G. \<forall>i<40. \<forall>s. s \<in> desc_slabs G T i \<longleftrightarrow> gown G (s - 64) = Some (Slab_of T i)) \<and>
     (\<forall>T\<in>gheaps G. \<forall>s. s \<in> set (gspans G T) \<longleftrightarrow> gown G (s - 64) = Some (Span_of T))"

text \<open>
  Slabs on the partial list have been carved completely and have both free objects and objects in
  use; slabs on the full list have no free object.
\<close>

definition status_ok :: "heap_desc \<Rightarrow> bool" where
  "status_ok G \<longleftrightarrow>
     (\<forall>T\<in>gheaps G. \<forall>i<40. \<forall>s\<in>set (gpart G T i). gcarved G (s - 64) = slots i \<and>
        gfree G (s - 64) \<noteq> [] \<and> length (gfree G (s - 64)) < slots i) \<and>
     (\<forall>T\<in>gheaps G. \<forall>i<40. \<forall>s\<in>set (gfull G T i). gcarved G (s - 64) = slots i \<and> gfree G (s - 64) = [])"

lemma desc_okD:
  assumes "desc_ok G"
  shows "gown G c = Some (Slab_of T i) \<Longrightarrow> T \<in> gheaps G" "gown G c = Some (Slab_of T i) \<Longrightarrow> i < 40"
    "gown G c = Some (Span_of T) \<Longrightarrow> T \<in> gheaps G"
    "T \<in> gheaps G \<Longrightarrow> i < 40 \<Longrightarrow> s \<in> desc_slabs G T i \<longleftrightarrow> gown G (s - 64) = Some (Slab_of T i)"
    "T \<in> gheaps G \<Longrightarrow> s \<in> set (gspans G T) \<longleftrightarrow> gown G (s - 64) = Some (Span_of T)"
    "0 \<notin> gheaps G"
  using assms unfolding desc_ok_def by blast+

lemma status_okD:
  assumes "status_ok G"
  shows "T \<in> gheaps G \<Longrightarrow> i < 40 \<Longrightarrow> s \<in> set (gpart G T i) \<Longrightarrow> gcarved G (s - 64) = slots i \<and>
        gfree G (s - 64) \<noteq> [] \<and> length (gfree G (s - 64)) < slots i"
    "T \<in> gheaps G \<Longrightarrow> i < 40 \<Longrightarrow> s \<in> set (gfull G T i) \<Longrightarrow> gcarved G (s - 64) = slots i \<and> gfree G (s - 64) = []"
  using assms unfolding status_ok_def by blast+

section \<open>Chunks in use\<close>

definition hdr_ok :: "lz_state \<Rightarrow> addr \<Rightarrow> addr \<Rightarrow> u32 \<Rightarrow> bool" where
  "hdr_ok st c T ty \<longleftrightarrow> ch_magic (hdrs st c) = LZ_CHUNK_MAGIC_V2 \<and> ch_owning_tlh (hdrs st c) = T \<and>
     ch_chunk_type (hdrs st c) = ty \<and> ch_checksum (hdrs st c) = lz_calc_checksum (hdrs st c) \<and>
     unat (ch_node_id (hdrs st c)) < LZ_MAX_NUMA_NODES"

definition slab_ok :: "lz_state \<Rightarrow> heap_desc \<Rightarrow> addr \<Rightarrow> addr \<Rightarrow> nat \<Rightarrow> bool" where
  "slab_ok st G c T i \<longleftrightarrow> hdr_ok st c T LZ_CHUNK_TYPE_SLAB \<and>
     (\<exists>r. metas st (c + LZ_CACHE_LINE_SIZE) = MSlab r \<and> slab_rep st c i (gcarved G c) (gfree G c) r)"

definition span_ok :: "lz_state \<Rightarrow> addr \<Rightarrow> addr \<Rightarrow> bool" where
  "span_ok st c T \<longleftrightarrow> hdr_ok st c T LZ_CHUNK_TYPE_SPAN \<and>
     (\<exists>r. metas st (c + LZ_CACHE_LINE_SIZE) = MSpan r \<and> span_inv r)"

text \<open>A chunk whose header, payload and metadata up to the links of the lists did not change.\<close>

definition chunk_same :: "lz_state \<Rightarrow> lz_state \<Rightarrow> addr \<Rightarrow> bool" where
  "chunk_same st st' c \<longleftrightarrow> hdrs st' c = hdrs st c \<and>
     mcore (metas st' (c + LZ_CACHE_LINE_SIZE)) = mcore (metas st (c + LZ_CACHE_LINE_SIZE)) \<and>
     (\<forall>a\<in>chunk_block c. mem st' a = mem st a)"

lemma chunk_same_refl [simp]: "chunk_same st st c"
  by (simp add: chunk_same_def)

lemma chunk_same_trans: "chunk_same st st' c \<Longrightarrow> chunk_same st' st'' c \<Longrightarrow> chunk_same st st'' c"
  by (simp add: chunk_same_def)

lemma mcore_slab: "mcore m = mcore (MSlab r) \<Longrightarrow>
    \<exists>r'. m = MSlab r' \<and> r'\<lparr>sl_next := 0, sl_prev := 0\<rparr> = r\<lparr>sl_next := 0, sl_prev := 0\<rparr>"
  by (cases m) auto

lemma mcore_span: "mcore m = mcore (MSpan r) \<Longrightarrow>
    \<exists>r'. m = MSpan r' \<and> r'\<lparr>sp_next := 0, sp_prev := 0\<rparr> = r\<lparr>sp_next := 0, sp_prev := 0\<rparr>"
  by (cases m) auto

lemma chunk_base_block: "chunk_base c \<Longrightarrow> a \<in> chunk_block c \<longleftrightarrow> unat c \<le> unat a \<and> unat a < unat c + 2097152"
  by (subst chunk_block_def, simp, subst within_iff) (auto simp: chunk_base_def)

lemma obj_word_in_chunk:
  assumes "chunk_base c" "k < 40" "m \<le> slots k" "x \<in> objs c k m"
  shows "word_bytes x \<subseteq> chunk_block c" "obj_bytes k x \<subseteq> chunk_block c"
proof -
  obtain i where i: "i < slots k" "x = obj c k i" using objs_nth [OF assms(4,3)] by blast
  show "obj_bytes k x \<subseteq> chunk_block c"
  proof
    fix a assume "a \<in> obj_bytes k x"
    then show "a \<in> chunk_block c"
      using obj_in_chunk [OF assms(1) i(1) assms(2), of a] i(2) by (simp add: chunk_base_block [OF assms(1)])
  qed
  then show "word_bytes x \<subseteq> chunk_block c" using word_in_obj [OF assms(2)] by blast
qed

lemma slab_ok_same:
  assumes s: "slab_ok st G c T i" and same: "chunk_same st st' c" and c: "chunk_base c" "i < 40"
    and g: "g_lz_global_secret st' = g_lz_global_secret st" "gcarved G' c = gcarved G c" "gfree G' c = gfree G c"
  shows "slab_ok st' G' c T i"
proof -
  obtain r where r: "metas st (c + 64) = MSlab r" "slab_rep st c i (gcarved G c) (gfree G c) r"
    using s by (auto simp: slab_ok_def)
  have "mcore (metas st' (c + 64)) = mcore (MSlab r)" using same r(1) by (simp add: chunk_same_def)
  from mcore_slab [OF this] obtain r' where r': "metas st' (c + 64) = MSlab r'"
    "r'\<lparr>sl_next := 0, sl_prev := 0\<rparr> = r\<lparr>sl_next := 0, sl_prev := 0\<rparr>" by blast
  have "load64 (mem st') x = load64 (mem st) x" if "x \<in> set (gfree G c)" for x
  proof (rule load64_same)
    fix a assume a: "a \<in> word_bytes x"
    have "x \<in> objs c i (gcarved G c)" using r(2) that by (auto simp: slab_rep_def)
    then have "a \<in> chunk_block c" using obj_word_in_chunk(1) [OF c slab_rep_length(2) [OF r(2) c]] a by blast
    then show "mem st' a = mem st a" using same by (simp add: chunk_same_def)
  qed
  from slab_rep_cong [OF r(2) g(1) this r'(2)] show ?thesis
    using s same r'(1) g by (auto simp: slab_ok_def hdr_ok_def chunk_same_def)
qed

lemma span_inv_links:
  assumes "r'\<lparr>sp_next := 0, sp_prev := 0\<rparr> = r\<lparr>sp_next := 0, sp_prev := 0\<rparr>"
  shows "span_inv r' = span_inv r" "pages_of r' = pages_of r" "sp_used_pages r' = sp_used_pages r"
proof -
  have f: "sp_free_bitmap r' = sp_free_bitmap r" "sp_alloc_size_pages r' = sp_alloc_size_pages r"
    using arg_cong [OF assms, of sp_free_bitmap] arg_cong [OF assms, of sp_alloc_size_pages] by simp_all
  show u: "sp_used_pages r' = sp_used_pages r" using arg_cong [OF assms, of sp_used_pages] by simp
  show p: "pages_of r' = pages_of r" by (rule ext) (simp only: pages_of_def f)
  show "span_inv r' = span_inv r" by (simp only: span_inv_def f u p page_owned_def pages_sum_def)
qed

lemma span_ok_same:
  assumes s: "span_ok st c T" and same: "chunk_same st st' c"
  shows "span_ok st' c T"
proof -
  obtain r where r: "metas st (c + 64) = MSpan r" "span_inv r" using s by (auto simp: span_ok_def)
  have "mcore (metas st' (c + 64)) = mcore (MSpan r)" using same r(1) by (simp add: chunk_same_def)
  from mcore_span [OF this] obtain r' where r': "metas st' (c + 64) = MSpan r'"
    "r'\<lparr>sp_next := 0, sp_prev := 0\<rparr> = r\<lparr>sp_next := 0, sp_prev := 0\<rparr>" by blast
  have "span_inv r'" using span_inv_links(1) [OF r'(2)] r(2) by blast
  then show ?thesis using s same r'(1) by (simp add: span_ok_def hdr_ok_def chunk_same_def)
qed

section \<open>The lists of a heap\<close>

definition lists_ok :: "lz_state \<Rightarrow> heap_desc \<Rightarrow> addr \<Rightarrow> bool" where
  "lists_ok st G T \<longleftrightarrow> length (tl_bins (tlhs st T)) = LZ_MAX_SIZE_CLASSES \<and>
     (\<forall>i<40. bin_lists T i (gcur G T i) (gpart G T i) (gfull G T i) st) \<and> actives.listed T st (gspans G T)"

lemma lists_okD:
  assumes "lists_ok st G T"
  shows "i < 40 \<Longrightarrow> bin_lists T i (gcur G T i) (gpart G T i) (gfull G T i) st" "actives.listed T st (gspans G T)"
    "length (tl_bins (tlhs st T)) = LZ_MAX_SIZE_CLASSES" "valid st T"
  using assms by (auto simp: lists_ok_def actives.listed_def)

lemma slab_node_valid: "slab_node st s \<Longrightarrow> valid st s" "span_node st s \<Longrightarrow> valid st s"
  by (auto simp: slab_node_def span_node_def)

text \<open>A node whose metadata did not change at all.\<close>

definition node_same :: "lz_state \<Rightarrow> lz_state \<Rightarrow> addr \<Rightarrow> bool" where
  "node_same st st' s \<longleftrightarrow> meta_next st' s = meta_next st s \<and> meta_prev st' s = meta_prev st s \<and>
     (slab_node st s \<longrightarrow> slab_node st' s) \<and> (span_node st s \<longrightarrow> span_node st' s)"

lemma bin_lists_same:
  assumes l: "bin_lists T i cur ps fs st" and n: "\<And>s. s \<in> bin_slabs cur ps fs \<Longrightarrow> node_same st st' s"
    and b: "bin_ready T i st'" "the_bin T i st' = the_bin T i st"
  shows "bin_lists T i cur ps fs st'"
proof -
  have "dll (meta_next st') (meta_prev st') 0 p ps = dll (meta_next st) (meta_prev st) 0 p ps" for p
    by (rule dll_cong) (use n in \<open>auto simp: node_same_def bin_slabs_def\<close>)
  moreover have "dll (meta_next st') (meta_prev st') 0 p fs = dll (meta_next st) (meta_prev st) 0 p fs" for p
    by (rule dll_cong) (use n in \<open>auto simp: node_same_def bin_slabs_def\<close>)
  moreover have "slab_node st' s" if "s \<in> bin_slabs cur ps fs" for s
    using n [OF that] bin_listsD(8) [OF l that] by (simp add: node_same_def)
  ultimately show ?thesis
    using l b unfolding bin_lists_def partials.listed_def fulls.listed_def by (auto simp: bin_slabs_def)
qed

lemma actives_same:
  assumes l: "actives.listed T st xs" and n: "\<And>s. s \<in> set xs \<Longrightarrow> node_same st st' s"
    and b: "valid st' T" "tl_active_spans (tlhs st' T) = tl_active_spans (tlhs st T)"
  shows "actives.listed T st' xs"
proof -
  have "dll (meta_next st') (meta_prev st') 0 p xs = dll (meta_next st) (meta_prev st) 0 p xs" for p
    by (rule dll_cong) (use n in \<open>auto simp: node_same_def\<close>)
  then show ?thesis using l b n by (auto simp: actives.listed_def node_same_def)
qed

section \<open>The invariant\<close>

text \<open>
  Memory that stays where it is for the life of the process: thread-local heaps, leaves of the radix
  tree and the telemetry matrix. It lies outside every chunk and every direct mapping.
\<close>

definition pinned :: "lz_state \<Rightarrow> heap_desc \<Rightarrow> addr set" where
  "pinned st G = gheaps G \<union>
     {a. \<exists>j. unat j < 8192 \<and> g_rtree_root st j \<noteq> 0 \<and> within (g_rtree_root st j) sizeof_lz_rtree_leaf a} \<union>
     {a. g_telemetry_matrix st \<noteq> 0 \<and> within (g_telemetry_matrix st) 262144 a}"

definition layout_ok :: "lz_state \<Rightarrow> heap_desc \<Rightarrow> bool" where
  "layout_ok st G \<longleftrightarrow> (\<forall>c\<in>dom (gown G). chunk_at st c \<and> c \<notin> idle (gpools G)) \<and>
     (\<forall>a\<in>pinned st G. valid st a \<and> (\<forall>c\<in>dom (gown G) \<union> idle (gpools G). a \<notin> chunk_block c))"

text \<open>The index maps an address to nothing or to the header of the block it lies in.\<close>

fun use_header :: "addr \<Rightarrow> chunk_use \<Rightarrow> addr" where
  "use_header c (Direct_of d) = d"
| "use_header c _ = c"

definition index_ok :: "lz_state \<Rightarrow> heap_desc \<Rightarrow> bool" where
  "index_ok st G \<longleftrightarrow> (\<forall>a. unat a < 2 ^ 48 \<longrightarrow> (\<exists>v. lz_rtree_get st a = Some v \<and>
     (v \<noteq> 0 \<longrightarrow> (\<exists>u. gown G (chunk_of a) = Some u \<and> v = use_header (chunk_of a) u))))"

definition stat_ok :: "lz_state \<Rightarrow> addr \<Rightarrow> bool" where
  "stat_ok st T \<longleftrightarrow> tl_stat_slot (tlhs st T) = 0 \<or>
     g_telemetry_matrix st \<noteq> 0 \<and> within (g_telemetry_matrix st) 262144 (tl_stat_slot (tlhs st T))"

definition heap_struct :: "lz_state \<Rightarrow> heap_desc \<Rightarrow> bool" where
  "heap_struct st G \<longleftrightarrow> vmm_inv st (gpools G) \<and> rtree_inv st \<and> layout_ok st G \<and> index_ok st G \<and> desc_ok G \<and>
     (\<forall>c T i. gown G c = Some (Slab_of T i) \<longrightarrow> slab_ok st G c T i) \<and>
     (\<forall>c T. gown G c = Some (Span_of T) \<longrightarrow> span_ok st c T) \<and>
     (\<forall>T\<in>gheaps G. lists_ok st G T \<and> stat_ok st T)"

lemma heap_structD:
  assumes "heap_struct st G"
  shows "vmm_inv st (gpools G)" "rtree_inv st" "layout_ok st G" "index_ok st G" "desc_ok G"
    "gown G c = Some (Slab_of T i) \<Longrightarrow> slab_ok st G c T i" "gown G c = Some (Span_of T) \<Longrightarrow> span_ok st c T"
    "T \<in> gheaps G \<Longrightarrow> lists_ok st G T" "T \<in> gheaps G \<Longrightarrow> stat_ok st T"
  using assms unfolding heap_struct_def by blast+

lemma layout_okD:
  assumes "layout_ok st G"
  shows "gown G c = Some u \<Longrightarrow> chunk_at st c" "gown G c = Some u \<Longrightarrow> c \<notin> idle (gpools G)"
    "a \<in> pinned st G \<Longrightarrow> valid st a" "a \<in> pinned st G \<Longrightarrow> gown G c = Some u \<Longrightarrow> a \<notin> chunk_block c"
    "a \<in> pinned st G \<Longrightarrow> c \<in> idle (gpools G) \<Longrightarrow> a \<notin> chunk_block c"
  using assms unfolding layout_ok_def by blast+

lemmas struct_chunk = layout_okD(1) [OF heap_structD(3)]
lemmas struct_base = chunk_at_base [OF struct_chunk]

lemma heap_pinned: "T \<in> gheaps G \<Longrightarrow> T \<in> pinned st G"
  by (simp add: pinned_def)

lemma leaf_pinned: "g_rtree_root st (rtree_l1_idx a) \<noteq> 0 \<Longrightarrow> g_rtree_root st (rtree_l1_idx a) \<in> pinned st G"
proof -
  assume "g_rtree_root st (rtree_l1_idx a) \<noteq> 0"
  moreover have "within (g_rtree_root st (rtree_l1_idx a)) 131072 (g_rtree_root st (rtree_l1_idx a))"
    by (simp add: within_def)
  ultimately show ?thesis using rtree_idx_bounds(1) [of a] unfolding pinned_def by blast
qed

lemma stat_pinned: "stat_ok st T \<Longrightarrow> tl_stat_slot (tlhs st T) \<noteq> 0 \<Longrightarrow> tl_stat_slot (tlhs st T) \<in> pinned st G"
  by (auto simp: stat_ok_def pinned_def)

section \<open>Steps inside the heaps\<close>

text \<open>The globals and views that the lists, slabs and spans do not involve.\<close>

definition inner_step :: "lz_state \<Rightarrow> lz_state \<Rightarrow> bool" where
  "inner_step st st' \<longleftrightarrow> trace st' = trace st \<and> hdrs st' = hdrs st \<and> leaves st' = leaves st \<and>
     same_globals st st' \<and> (\<forall>a. tl_stat_slot (tlhs st' a) = tl_stat_slot (tlhs st a))"

lemma inner_step_refl [simp]: "inner_step st st"
  by (simp add: inner_step_def same_globals_def)

lemma inner_step_trans: "inner_step st st' \<Longrightarrow> inner_step st' st'' \<Longrightarrow> inner_step st st''"
  by (auto simp: inner_step_def same_globals_def)

lemma inner_step_valid: "inner_step st st' \<Longrightarrow> valid st' = valid st"
  by (simp add: inner_step_def valid_def fun_eq_iff)

lemma rtree_get_inner: "inner_step st st' \<Longrightarrow> lz_rtree_get st' a = lz_rtree_get st a"
proof -
  assume "inner_step st st'"
  then have "trace st' = trace st" "leaves st' = leaves st" "g_rtree_root st' = g_rtree_root st"
    by (simp_all add: inner_step_def same_globals_def)
  then show ?thesis by (simp only: lz_rtree_get_def valid_def)
qed

lemma vmm_inv_inner:
  assumes "vmm_inv st PG" "inner_step st st'"
  shows "vmm_inv st' PG"
proof -
  have h: "hnext st' = hnext st" using assms(2) by (simp add: inner_step_def hnext_def [abs_def])
  have "pool_inv st' n cs = pool_inv st n cs" for n cs
    using assms(2) h by (simp add: pool_inv_def inner_step_def same_globals_def)
  moreover have "chunk_at st' c = chunk_at st c" for c
    using inner_step_valid [OF assms(2)] by (simp add: chunk_at_def)
  moreover have "locks_free st' = locks_free st"
    using assms(2) by (simp add: locks_free_def inner_step_def same_globals_def)
  ultimately show ?thesis using assms h by (simp add: vmm_inv_def inner_step_def same_globals_def)
qed

lemma pinned_inner: "inner_step st st' \<Longrightarrow> gheaps G' = gheaps G \<Longrightarrow> pinned st' G' = pinned st G"
  by (simp add: pinned_def inner_step_def same_globals_def)

text \<open>After a step inside the heaps, what is left to show are the slabs, the spans and the lists.\<close>

lemma heap_struct_inner:
  assumes inv: "heap_struct st G" and s: "inner_step st st'" and ok: "desc_ok G'"
    and g: "gpools G' = gpools G" "gheaps G' = gheaps G"
    and own: "\<And>c. gown G' c = gown G c \<or> gown G c \<noteq> None \<and> gown G' c \<noteq> None \<and>
       use_header c (the (gown G' c)) = use_header c (the (gown G c))"
    and slabs: "\<And>c T i. gown G' c = Some (Slab_of T i) \<Longrightarrow> slab_ok st' G' c T i"
    and spans: "\<And>c T. gown G' c = Some (Span_of T) \<Longrightarrow> span_ok st' c T"
    and lists: "\<And>T. T \<in> gheaps G \<Longrightarrow> lists_ok st' G' T"
  shows "heap_struct st' G'"
proof -
  have v: "valid st' = valid st" by (rule inner_step_valid [OF s])
  have dom: "dom (gown G') = dom (gown G)"
  proof (intro set_eqI)
    fix c show "c \<in> dom (gown G') \<longleftrightarrow> c \<in> dom (gown G)" unfolding domIff using own [of c] by metis
  qed
  have p: "pinned st' G' = pinned st G" by (rule pinned_inner [OF s g(2)])
  have "layout_ok st' G'"
    using heap_structD(3) [OF inv] unfolding layout_ok_def dom p g(1) by (simp add: chunk_at_def v)
  moreover have "index_ok st' G'"
    unfolding index_ok_def rtree_get_inner [OF s]
  proof (intro allI impI)
    fix a :: addr assume "unat a < 2 ^ 48"
    then obtain w where w: "lz_rtree_get st a = Some w"
      "w \<noteq> 0 \<Longrightarrow> \<exists>u. gown G (chunk_of a) = Some u \<and> w = use_header (chunk_of a) u"
      using heap_structD(4) [OF inv] unfolding index_ok_def by blast
    have "\<exists>u. gown G' (chunk_of a) = Some u \<and> w = use_header (chunk_of a) u" if "w \<noteq> 0"
      using w(2) [OF that] own [of "chunk_of a"] by auto
    then show "\<exists>v. lz_rtree_get st a = Some v \<and>
        (v \<noteq> 0 \<longrightarrow> (\<exists>u. gown G' (chunk_of a) = Some u \<and> v = use_header (chunk_of a) u))"
      using w(1) by blast
  qed
  moreover have "stat_ok st' T = stat_ok st T" for T
    using s by (simp add: stat_ok_def inner_step_def same_globals_def)
  moreover have "rtree_inv st'"
    using heap_structD(2) [OF inv] s v by (simp add: rtree_inv_def inner_step_def same_globals_def)
  ultimately show ?thesis
    using vmm_inv_inner [OF heap_structD(1) [OF inv] s] heap_structD(9) [OF inv] ok slabs spans lists g
    unfolding heap_struct_def by simp
qed

section \<open>A change in one slab\<close>

lemma chunk_plus_inj: "(c :: addr) + 64 = c' + 64 \<longleftrightarrow> c = c'"
  by simp

lemma other_chunk_mem:
  assumes "heap_struct st G" "gown G c = Some u" "gown G c' = Some u'" "c \<noteq> c'" "a \<in> chunk_block c'"
  shows "a \<notin> chunk_block c"
  using chunk_blocks_disjoint [OF struct_chunk [OF assms(1,2)] struct_chunk [OF assms(1,3)] assms(4)] assms(5) by blast

lemma node_sameI:
  "metas st' s = metas st s \<Longrightarrow> valid st' = valid st \<Longrightarrow> node_same st st' s"
  by (simp add: node_same_def meta_next_def meta_prev_def slab_node_def span_node_def)

lemma lists_ok_same:
  assumes l: "lists_ok st G T" and n: "\<And>s i. i < 40 \<Longrightarrow> s \<in> desc_slabs G T i \<Longrightarrow> node_same st st' s"
    and n': "\<And>s. s \<in> set (gspans G T) \<Longrightarrow> node_same st st' s" and v: "valid st' T"
    and t: "tl_bins (tlhs st' T) = tl_bins (tlhs st T)" "tl_active_spans (tlhs st' T) = tl_active_spans (tlhs st T)"
    and g: "gcur G' T = gcur G T" "gpart G' T = gpart G T" "gfull G' T = gfull G T" "gspans G' T = gspans G T"
  shows "lists_ok st' G' T"
proof -
  have "bin_lists T i (gcur G T i) (gpart G T i) (gfull G T i) st'" if i: "i < 40" for i
    by (rule bin_lists_same [OF lists_okD(1) [OF l i] n [OF i]])
       (use v t lists_okD(3) [OF l] i in \<open>auto simp: bin_ready_def the_bin_def\<close>)
  moreover have "actives.listed T st' (gspans G T)"
    by (rule actives_same [OF lists_okD(2) [OF l] n' v t(2)])
  ultimately show ?thesis using lists_okD(3) [OF l] t g by (simp add: lists_ok_def)
qed

lemma slab_update:
  assumes inv: "heap_struct st G" and c: "gown G c = Some (Slab_of T i)"
    and st': "st' = st\<lparr>mem := M, metas := (metas st)(c + 64 := MSlab r')\<rparr>"
    and M: "\<And>a. a \<notin> chunk_block c \<Longrightarrow> M a = mem st a"
    and r: "metas st (c + 64) = MSlab r" "sl_next r' = sl_next r" "sl_prev r' = sl_prev r"
    and rep: "slab_rep st' c i m F r'"
    and G': "G' = G\<lparr>gcarved := (gcarved G)(c := m), gfree := (gfree G)(c := F)\<rparr>"
  shows "heap_struct st' G'"
proof (rule heap_struct_inner [OF inv])
  show s: "inner_step st st'" by (simp add: inner_step_def st' same_globals_def)
  show "desc_ok G'" using heap_structD(5) [OF inv] by (simp add: desc_ok_def G')
  show "gpools G' = gpools G" "gheaps G' = gheaps G" by (simp_all add: G')
  show "gown G' c = gown G c \<or> gown G c \<noteq> None \<and> gown G' c \<noteq> None \<and>
       use_header c (the (gown G' c)) = use_header c (the (gown G c))" for c by (simp add: G')
  have other: "chunk_same st st' c'" if "gown G c' = Some u" "c' \<noteq> c" for c' u
    using that M other_chunk_mem [OF inv c that(1)] by (auto simp: chunk_same_def st')
  show "slab_ok st' G' c' T' i'" if o: "gown G' c' = Some (Slab_of T' i')" for c' T' i'
  proof (cases "c' = c")
    case True
    have "hdr_ok st' c T LZ_CHUNK_TYPE_SLAB"
      using heap_structD(6) [OF inv c] by (simp add: slab_ok_def hdr_ok_def st')
    then show ?thesis using True o c rep by (auto simp: slab_ok_def G' st')
  next
    case False
    have o': "gown G c' = Some (Slab_of T' i')" using o by (simp add: G')
    show ?thesis
      by (rule slab_ok_same [OF heap_structD(6) [OF inv o'] other [OF o' False] struct_base [OF inv o']])
         (use desc_okD(2) [OF heap_structD(5) [OF inv] o'] False in \<open>auto simp: st' G'\<close>)
  qed
  show "span_ok st' c' T'" if o: "gown G' c' = Some (Span_of T')" for c' T'
  proof -
    have o': "gown G c' = Some (Span_of T')" using o by (simp add: G')
    then show ?thesis using span_ok_same [OF heap_structD(7) [OF inv o'] other [OF o']] c by fastforce
  qed
  show "lists_ok st' G' T'" if T': "T' \<in> gheaps G" for T'
  proof (rule lists_ok_same [OF heap_structD(8) [OF inv T']])
    have "node_same st st' s" for s
      using r by (cases "s = c + 64") (auto simp: node_same_def meta_next_def meta_prev_def slab_node_def span_node_def st' valid_def)
    then show "node_same st st' s" "node_same st st' s" for s by blast+
    show "valid st' T'" using lists_okD(4) [OF heap_structD(8) [OF inv T']] by (simp add: st' valid_def)
  qed (simp_all add: st' G')
qed

section \<open>A change in the lists of one bin\<close>

lemma mcore_cases:
  assumes "mcore m = mcore m'"
  shows "(\<exists>r. m = MSlab r) = (\<exists>r. m' = MSlab r)" "(\<exists>r. m = MSpan r) = (\<exists>r. m' = MSpan r)"
  using assms by (cases m; cases m'; simp)+

lemma other_bins_eqD:
  assumes "other_bins i h' = other_bins i h"
  shows "tl_stat_slot h' = tl_stat_slot h" "tl_active_spans h' = tl_active_spans h"
    "length (tl_bins h') = length (tl_bins h)" "j \<noteq> i \<Longrightarrow> tl_bins h' ! j = tl_bins h ! j"
proof -
  have l: "(tl_bins h')[i := zero_bin] = (tl_bins h)[i := zero_bin]"
    using arg_cong [OF assms, of tl_bins] by (simp add: erase_bin_def)
  show "length (tl_bins h') = length (tl_bins h)" using arg_cong [OF l, of length] by simp
  show "j \<noteq> i \<Longrightarrow> tl_bins h' ! j = tl_bins h ! j" using arg_cong [OF l, of "\<lambda>xs. xs ! j"] by simp
  show "tl_stat_slot h' = tl_stat_slot h" "tl_active_spans h' = tl_active_spans h"
    using arg_cong [OF assms, of tl_stat_slot] arg_cong [OF assms, of tl_active_spans] by (simp_all add: erase_bin_def)
qed

lemma bin_stepD:
  assumes "bin_step T i X st st'"
  shows "inner_step st st'" "mem st' = mem st" "mcore (metas st' a) = mcore (metas st a)" "chunk_same st st' c"
    "a \<noteq> T \<Longrightarrow> tlhs st' a = tlhs st a" "other_bins i (tlhs st' T) = other_bins i (tlhs st T)"
    "s \<notin> X \<Longrightarrow> node_same st st' s"
proof -
  obtain M h where st': "st' = st\<lparr>metas := M, tlhs := (tlhs st)(T := h)\<rparr>"
    and M: "\<And>a. mcore (M a) = mcore (metas st a)" and h: "other_bins i h = other_bins i (tlhs st T)"
    using assms by (auto simp: bin_step_def relinks_def)
  show "inner_step st st'"
    using other_bins_eqD(1) [OF h] by (simp add: st' inner_step_def same_globals_def)
  show "mem st' = mem st" "mcore (metas st' a) = mcore (metas st a)" "chunk_same st st' c"
    "a \<noteq> T \<Longrightarrow> tlhs st' a = tlhs st a" "other_bins i (tlhs st' T) = other_bins i (tlhs st T)"
    using M h by (simp_all add: st' chunk_same_def)
  show "s \<notin> X \<Longrightarrow> node_same st st' s"
    using assms M mcore_cases(2) [OF M, of s]
    by (auto simp: bin_step_def links_same_def node_same_def span_node_def st' valid_def)
qed

definition bin_desc :: "addr \<Rightarrow> nat \<Rightarrow> addr \<Rightarrow> addr list \<Rightarrow> addr list \<Rightarrow> heap_desc \<Rightarrow> heap_desc" where
  "bin_desc T i cur ps fs G = G\<lparr>
     gown := (\<lambda>c. if c + 64 \<in> bin_slabs cur ps fs then Some (Slab_of T i)
                  else if gown G c = Some (Slab_of T i) then Some Spare else gown G c),
     gcur := (gcur G)(T := (gcur G T)(i := cur)), gpart := (gpart G)(T := (gpart G T)(i := ps)),
     gfull := (gfull G)(T := (gfull G T)(i := fs))\<rparr>"

lemma bin_update:
  assumes inv: "heap_struct st G" and T: "T \<in> gheaps G" "i < 40"
    and step: "bin_step T i X st st'" and X: "\<And>s. s \<in> X \<Longrightarrow> gown G (s - 64) \<in> {Some (Slab_of T i), Some Spare}"
    and l: "bin_lists T i cur ps fs st'"
    and new: "\<And>s. s \<in> bin_slabs cur ps fs \<Longrightarrow> gown G (s - 64) = Some (Slab_of T i) \<or>
       gown G (s - 64) = Some Spare \<and> slab_ok st G (s - 64) T i"
  shows "heap_struct st' (bin_desc T i cur ps fs G)"
proof (rule heap_struct_inner [OF inv])
  note D = bin_stepD [OF step]
  let ?G = "bin_desc T i cur ps fs G"
  have ok: "desc_ok G" by (rule heap_structD(5) [OF inv])
  have own: "gown ?G c = Some (Slab_of T' j) \<longleftrightarrow>
      (if T' = T \<and> j = i then c + 64 \<in> bin_slabs cur ps fs else gown G c = Some (Slab_of T' j))"
    "gown ?G c = Some (Span_of T') \<longleftrightarrow> gown G c = Some (Span_of T')" for c T' j
    using new [of "c + 64"] by (auto simp: bin_desc_def)
  show "inner_step st st'" by (rule D(1))
  show g: "gpools ?G = gpools G" "gheaps ?G = gheaps G" by (simp_all add: bin_desc_def)
  have ls: "desc_slabs ?G T' j = (if T' = T \<and> j = i then bin_slabs cur ps fs else desc_slabs G T' j)"
    "gspans ?G = gspans G" for T' j by (auto simp: bin_desc_def)
  show "desc_ok ?G"
    using ok T unfolding desc_ok_def g own ls by (auto split: if_splits)
  show "gown ?G c = gown G c \<or> gown G c \<noteq> None \<and> gown ?G c \<noteq> None \<and>
       use_header c (the (gown ?G c)) = use_header c (the (gown G c))" for c
    using new [of "c + 64"] by (auto simp: bin_desc_def)
  show "slab_ok st' ?G c T' j" if "gown ?G c = Some (Slab_of T' j)" for c T' j
  proof -
    have s: "slab_ok st G c T' j" "gown G c \<noteq> None" "j < 40"
      using that own(1) [of c T' j] new [of "c + 64"] heap_structD(6) [OF inv, of c T' j] T(2)
        desc_okD(2) [OF ok, of c T' j] by (auto split: if_splits)
    then obtain u where u: "gown G c = Some u" by blast
    show ?thesis
      by (rule slab_ok_same [OF s(1) D(4) struct_base [OF inv u] s(3)])
         (use D(1) in \<open>auto simp: inner_step_def same_globals_def bin_desc_def\<close>)
  qed
  show "span_ok st' c T'" if "gown ?G c = Some (Span_of T')" for c T'
    using span_ok_same [OF heap_structD(7) [OF inv] D(4)] that own(2) by blast
  show "lists_ok st' ?G T'" if T': "T' \<in> gheaps G" for T'
  proof -
    note lT = heap_structD(8) [OF inv T']
    have v: "valid st' T'" using lists_okD(4) [OF lT] inner_step_valid [OF D(1)] by simp
    have same: "node_same st st' s" if "gown G (s - 64) \<noteq> Some (Slab_of T i)" "gown G (s - 64) \<noteq> Some Spare" for s
      using D(7) X that by blast
    have tl: "length (tl_bins (tlhs st' T')) = length (tl_bins (tlhs st T'))"
      "tl_active_spans (tlhs st' T') = tl_active_spans (tlhs st T')"
      "T' \<noteq> T \<or> j \<noteq> i \<Longrightarrow> tl_bins (tlhs st' T') ! j = tl_bins (tlhs st T') ! j" for j
      using D(5) [of T'] other_bins_eqD [OF D(6)] by (cases "T' = T"; auto)+
    have "bin_lists T' j (gcur ?G T' j) (gpart ?G T' j) (gfull ?G T' j) st'" if j: "j < 40" for j
    proof (cases "T' = T \<and> j = i")
      case True
      then show ?thesis using l by (simp add: bin_desc_def)
    next
      case False
      then have "gcur ?G T' j = gcur G T' j" "gpart ?G T' j = gpart G T' j" "gfull ?G T' j = gfull G T' j"
        by (auto simp: bin_desc_def)
      moreover have "bin_lists T' j (gcur G T' j) (gpart G T' j) (gfull G T' j) st'"
        by (rule bin_lists_same [OF lists_okD(1) [OF lT j] same])
           (use desc_okD(4) [OF ok T' j] False v tl lists_okD(3) [OF lT] j in \<open>auto simp: bin_ready_def the_bin_def\<close>)
      ultimately show ?thesis by simp
    qed
    moreover have "actives.listed T' st' (gspans G T')"
      by (rule actives_same [OF lists_okD(2) [OF lT] same v tl(2)]) (use desc_okD(5) [OF ok T'] in auto)
    ultimately show ?thesis using lists_okD(3) [OF lT] tl(1) by (simp add: lists_ok_def bin_desc_def)
  qed
qed

end
