(* ===== verification/Heap_Blocks.thy ===== *)
theory Heap_Blocks
  imports Heap_Inv
begin

text \<open>
  The blocks a heap has handed out: objects of its slabs that are carved and not free, and runs of
  pages of its spans. Two of them never share a byte.
\<close>

section \<open>Blocks\<close>

definition slab_used :: "heap_desc \<Rightarrow> addr \<Rightarrow> nat \<Rightarrow> addr set" where
  "slab_used G c i = objs c i (gcarved G c) - set (gfree G c)"

definition span_start :: "lz_state \<Rightarrow> addr \<Rightarrow> addr \<Rightarrow> nat \<Rightarrow> bool" where
  "span_start st c y n \<longleftrightarrow> (\<exists>r j. metas st (c + 64) = MSpan r \<and> j < 512 \<and> 0 < pages_of r j \<and>
     y = c + of_nat (4096 * j) \<and> n = 4096 * pages_of r j)"

definition block_at :: "lz_state \<Rightarrow> heap_desc \<Rightarrow> addr \<Rightarrow> addr \<Rightarrow> addr \<Rightarrow> nat \<Rightarrow> bool" where
  "block_at st G c T y n \<longleftrightarrow> (case gown G c of
     Some (Slab_of T' i) \<Rightarrow> T' = T \<and> y \<in> slab_used G c i \<and> n = class_bytes i
   | Some (Span_of T') \<Rightarrow> T' = T \<and> span_start st c y n
   | _ \<Rightarrow> False)"

definition block :: "lz_state \<Rightarrow> heap_desc \<Rightarrow> addr \<Rightarrow> addr \<Rightarrow> nat \<Rightarrow> bool" where
  "block st G T y n \<longleftrightarrow> (\<exists>c. block_at st G c T y n)"

definition bytes :: "addr \<Rightarrow> nat \<Rightarrow> addr set" where
  "bytes p n = {a. unat p \<le> unat a \<and> unat a < unat p + n}"

lemma block_at_cases:
  assumes "block_at st G c T y n"
  obtains (slab) i where "gown G c = Some (Slab_of T i)" "y \<in> slab_used G c i" "n = class_bytes i"
  | (span) "gown G c = Some (Span_of T)" "span_start st c y n"
  using assms by (auto simp: block_at_def split: option.splits chunk_use.splits)

lemma chunk_of_block:
  assumes "chunk_base c" "a \<in> chunk_block c"
  shows "chunk_of a = c"
proof -
  have u: "unat (chunk_of a) = unat a div 2097152 * 2097152"
    using unat_and_not_mask [of a 21] by (simp add: chunk_of_def mask_eq_exp_minus_1)
  obtain q where q: "unat c = 2097152 * q" using assms(1) unfolding chunk_base_def by auto
  have "unat a div 2097152 = q" using assms q unfolding chunk_base_block [OF assms(1)] by (intro div_nat_eqI) auto
  then have "unat (chunk_of a) = unat c" using u q by simp
  then show ?thesis by (rule unsigned_word_eqI)
qed

lemma slab_used_obj:
  assumes inv: "heap_struct st G" and c: "gown G c = Some (Slab_of T i)" and y: "y \<in> slab_used G c i"
  obtains j where "j < gcarved G c" "j < slots i" "y = obj c i j" "i < 40" "chunk_base c"
proof -
  have i: "i < 40" by (rule desc_okD(2) [OF heap_structD(5) [OF inv] c])
  have b: "chunk_base c" by (rule struct_base [OF inv c])
  obtain r where r: "slab_rep st c i (gcarved G c) (gfree G c) r"
    using heap_structD(6) [OF inv c] by (auto simp: slab_ok_def)
  have m: "gcarved G c \<le> slots i" by (rule slab_rep_length(2) [OF r b i])
  obtain j where "j < gcarved G c" "y = obj c i j" using y by (auto simp: slab_used_def objs_def)
  then show thesis using that [of j] m i b by simp
qed

lemma span_start_unat:
  assumes inv: "heap_struct st G" and c: "gown G c = Some (Span_of T)" and y: "span_start st c y n"
  obtains r j where "metas st (c + 64) = MSpan r" "span_inv r" "0 < j" "j + pages_of r j \<le> 512" "0 < pages_of r j"
    "y = c + of_nat (4096 * j)" "unat y = unat c + 4096 * j" "n = 4096 * pages_of r j" "chunk_base c"
proof -
  have b: "chunk_base c" by (rule struct_base [OF inv c])
  obtain r' where r': "metas st (c + 64) = MSpan r'" "span_inv r'"
    using heap_structD(7) [OF inv c] unfolding span_ok_def by blast
  obtain r j where r: "metas st (c + 64) = MSpan r" "j < 512" "0 < pages_of r j" "y = c + of_nat (4096 * j)" "n = 4096 * pages_of r j"
    using y unfolding span_start_def by blast
  have eq: "r' = r" using r(1) r'(1) by simp
  have j: "0 < j" using span_invD(3) [OF r'(2)] r(3) eq by (cases "j = 0") simp_all
  have l: "j + pages_of r j \<le> 512" using span_invD(4) [OF r'(2) r(2)] eq by simp
  have "unat (of_nat (4096 * j) :: addr) = 4096 * j"
    using r(2) by (simp only: unsigned_of_nat) (simp add: take_bit_nat_eq_self)
  then have "unat y = unat c + 4096 * j" using b r(2,4) by (simp add: chunk_base_def unat_word_ariths)
  then show thesis using that [of r j] r r' j l b eq by simp
qed

text \<open>A block lies in the payload of its chunk, and has at least 16 bytes.\<close>

lemma block_at_range:
  assumes inv: "heap_struct st G" and y: "block_at st G c T y n"
  shows "chunk_base c" "unat c + 128 \<le> unat y" "unat y + n \<le> unat c + 2097152" "16 \<le> n" "gown G c \<noteq> None"
proof -
  have "chunk_base c \<and> unat c + 128 \<le> unat y \<and> unat y + n \<le> unat c + 2097152 \<and> 16 \<le> n \<and> gown G c \<noteq> None"
    using y
  proof (cases rule: block_at_cases)
    case (slab i)
    obtain j where j: "j < slots i" "y = obj c i j" "i < 40" "chunk_base c"
      using slab_used_obj [OF inv slab(1,2)] by blast
    then show ?thesis
      using slab unat_obj [of c j i] slot_end [of j i] class_bytes_bounds [of i] by simp
  next
    case span
    obtain r j where r: "metas st (c + 64) = MSpan r" "span_inv r" "0 < j" "j + pages_of r j \<le> 512" "0 < pages_of r j"
      "y = c + of_nat (4096 * j)" "unat y = unat c + 4096 * j" "n = 4096 * pages_of r j" "chunk_base c"
      by (rule span_start_unat [OF inv span])
    then show ?thesis using span(1) by simp
  qed
  then show "chunk_base c" "unat c + 128 \<le> unat y" "unat y + n \<le> unat c + 2097152" "16 \<le> n" "gown G c \<noteq> None"
    by blast+
qed

lemma block_at_bytes:
  assumes inv: "heap_struct st G" and y: "block_at st G c T y n"
  shows "bytes y n \<subseteq> chunk_block c" "y \<in> chunk_block c" "chunk_of y = c" "word_bytes y \<subseteq> bytes y n"
proof -
  note r = block_at_range [OF assms]
  show "bytes y n \<subseteq> chunk_block c" using r(2,3) by (auto simp: bytes_def chunk_base_block [OF r(1)])
  show yc: "y \<in> chunk_block c" using r(2-4) by (simp add: chunk_base_block [OF r(1)])
  show "chunk_of y = c" by (rule chunk_of_block [OF r(1) yc])
  have "unat y + 8 \<le> 2 ^ 64" using r(1-4) by (simp add: chunk_base_def)
  then show "word_bytes y \<subseteq> bytes y n" using r(4) within_iff [of y 8] by (auto simp: word_bytes_def bytes_def)
qed

lemma block_iff: "heap_struct st G \<Longrightarrow> block st G T y n \<longleftrightarrow> block_at st G (chunk_of y) T y n"
  using block_at_bytes(3) unfolding block_def by metis

lemma block_valid:
  assumes inv: "heap_struct st G" and y: "block st G T y n" and a: "a \<in> bytes y n"
  shows "valid st a"
proof -
  obtain c where c: "block_at st G c T y n" using y by (auto simp: block_def)
  obtain u where u: "gown G c = Some u" using block_at_range(5) [OF inv c] by blast
  have "a \<in> chunk_block c" using block_at_bytes(1) [OF inv c] a by blast
  then show ?thesis using struct_chunk [OF inv u] by (simp add: chunk_at_def chunk_block_def)
qed

lemma blocks_disjoint_at:
  assumes inv: "heap_struct st G" and y: "block_at st G c T y n" and z: "block_at st G c T' z m" and ne: "y \<noteq> z"
  shows "bytes y n \<inter> bytes z m = {}"
  using y
proof (cases rule: block_at_cases)
  case (slab i)
  then have z': "z \<in> slab_used G c i" "m = class_bytes i" using z by (auto simp: block_at_def)
  obtain j where j: "j < slots i" "y = obj c i j" "i < 40" "chunk_base c" using slab_used_obj [OF inv slab(1,2)] by blast
  obtain k where k: "k < slots i" "z = obj c i k" using slab_used_obj [OF inv slab(1) z'(1)] by blast
  have "bytes (obj c i l) (class_bytes i) = obj_bytes i (obj c i l)" if "l < slots i" for l
    using unat_obj [OF j(4) _ j(3), of l] that by (auto simp: bytes_def obj_bytes_iff [OF j(4) that j(3)])
  then show ?thesis using obj_bytes_disjoint [OF j(4,1) k(1) j(3)] ne j k slab(3) z'(2) by auto
next
  case span
  then have z': "span_start st c z m" using z by (auto simp: block_at_def)
  obtain r j where r: "metas st (c + 64) = MSpan r" "span_inv r" "0 < j" "j + pages_of r j \<le> 512" "0 < pages_of r j"
    "y = c + of_nat (4096 * j)" "unat y = unat c + 4096 * j" "n = 4096 * pages_of r j" "chunk_base c"
    by (rule span_start_unat [OF inv span])
  obtain s k where s: "metas st (c + 64) = MSpan s" "span_inv s" "0 < k" "k + pages_of s k \<le> 512" "0 < pages_of s k"
    "z = c + of_nat (4096 * k)" "unat z = unat c + 4096 * k" "m = 4096 * pages_of s k" "chunk_base c"
    by (rule span_start_unat [OF inv span(1) z'])
  have eq: "s = r" using r(1) s(1) by simp
  have "j \<noteq> k" using ne r(6) s(6) by auto
  then have "j + pages_of r j \<le> k \<or> k + pages_of r k \<le> j"
    using span_invD(5) [OF r(2), of j k] span_invD(5) [OF r(2), of k j] r(3,4,5) s(3,4,5) eq by (cases "j < k") auto
  then have "4096 * j + n \<le> 4096 * k \<or> 4096 * k + m \<le> 4096 * j" using r(8) s(8) eq by auto
  then show ?thesis using r(7) s(7) by (auto simp: bytes_def)
qed

lemma blocks_disjoint_heap:
  assumes inv: "heap_struct st G" and y: "block st G T y n" and z: "block st G T' z m" and ne: "y \<noteq> z"
  shows "bytes y n \<inter> bytes z m = {}"
proof -
  obtain c d where c: "block_at st G c T y n" and d: "block_at st G d T' z m" using y z by (auto simp: block_def)
  show ?thesis
  proof (cases "c = d")
    case True
    then show ?thesis using blocks_disjoint_at [OF inv c _ ne] d by simp
  next
    case False
    obtain u v where u: "gown G c = Some u" "gown G d = Some v"
      using block_at_range(5) [OF inv c] block_at_range(5) [OF inv d] by blast
    have "chunk_block c \<inter> chunk_block d = {}"
      by (rule chunk_blocks_disjoint [OF struct_chunk [OF inv u(1)] struct_chunk [OF inv u(2)] False])
    then show ?thesis using block_at_bytes(1) [OF inv c] block_at_bytes(1) [OF inv d] by blast
  qed
qed

lemma block_unique:
  assumes inv: "heap_struct st G" and y: "block st G T y n" "block st G T' y m"
  shows "T = T' \<and> n = m"
proof -
  have y': "block_at st G (chunk_of y) T y n" "block_at st G (chunk_of y) T' y m" using y block_iff [OF inv] by auto
  from y'(1) show ?thesis
  proof (cases rule: block_at_cases)
    case (slab i)
    then show ?thesis using y'(2) by (simp add: block_at_def)
  next
    case span
    let ?c = "chunk_of y"
    have z': "span_start st ?c y m" "T' = T" using y'(2) span by (auto simp: block_at_def)
    obtain r j where r: "metas st (?c + 64) = MSpan r" "unat y = unat ?c + 4096 * j" "n = 4096 * pages_of r j"
      by (rule span_start_unat [OF inv span])
    obtain s k where s: "metas st (?c + 64) = MSpan s" "unat y = unat ?c + 4096 * k" "m = 4096 * pages_of s k"
      by (rule span_start_unat [OF inv span(1) z'(1)])
    have "s = r" "k = j" using r(1,2) s(1,2) by simp_all
    then show ?thesis using z'(2) r(3) s(3) by simp
  qed
qed

section \<open>How the heaps evolve\<close>

text \<open>The part of a heap that belongs to its messages and to its thread.\<close>

definition tlh_outer :: "lz_tlh \<Rightarrow> addr \<times> lz_batch \<times> addr \<times> u32 \<times> u32" where
  "tlh_outer h = (tl_remote_free_head h, tl_outgoing_batch h, tl_next_zombie h, tl_is_zombie h, tl_thread_id h)"

definition outer_globals :: "lz_state \<Rightarrow> lz_state \<Rightarrow> bool" where
  "outer_globals st st' \<longleftrightarrow> g_lz_global_secret st' = g_lz_global_secret st \<and> tls_tlh_ptr st' = tls_tlh_ptr st \<and>
     g_thread_counter st' = g_thread_counter st \<and> g_zombie_tlhs st' = g_zombie_tlhs st \<and>
     g_zombie_lock st' = g_zombie_lock st \<and> g_telemetry_matrix st' = g_telemetry_matrix st \<and>
     g_shm_name st' = g_shm_name st \<and> g_tlh_key st' = g_tlh_key st \<and> g_base_heap st' = g_base_heap st \<and>
     g_base_offset st' = g_base_offset st \<and> g_lz_ready st' = g_lz_ready st"

definition direct_memory :: "heap_desc \<Rightarrow> addr set" where
  "direct_memory G = \<Union> {chunk_block c | c d. gown G c = Some (Direct_of d)}"

text \<open>
  An operation inside the heaps: it leaves the messages, the direct mappings and the other globals
  alone, and outside \<open>X\<close> the blocks are the same and hold the same bytes.
\<close>

definition evolves :: "addr set \<Rightarrow> lz_state \<Rightarrow> heap_desc \<Rightarrow> lz_state \<Rightarrow> heap_desc \<Rightarrow> bool" where
  "evolves X st G st' G' \<longleftrightarrow> outer_globals st st' \<and> gheaps G' = gheaps G \<and>
     (\<forall>T\<in>gheaps G. tlh_outer (tlhs st' T) = tlh_outer (tlhs st T) \<and>
        tl_stat_slot (tlhs st' T) = tl_stat_slot (tlhs st T)) \<and>
     (\<forall>c d. gown G' c = Some (Direct_of d) \<longleftrightarrow> gown G c = Some (Direct_of d)) \<and>
     (\<forall>a\<in>direct_memory G. mem st' a = mem st a \<and> hdrs st' a = hdrs st a \<and> metas st' a = metas st a) \<and>
     (\<forall>a. valid st a \<longrightarrow> valid st' a) \<and>
     (\<forall>T y n. y \<notin> X \<longrightarrow> (block st' G' T y n \<longleftrightarrow> block st G T y n)) \<and>
     (\<forall>T y n. y \<notin> X \<longrightarrow> block st G T y n \<longrightarrow> (\<forall>a\<in>bytes y n. mem st' a = mem st a))"

lemma evolves_refl [simp]: "evolves X st G st G"
  by (simp add: evolves_def outer_globals_def)

lemma evolvesD:
  assumes "evolves X st G st' G'"
  shows "outer_globals st st'" "gheaps G' = gheaps G"
    "T \<in> gheaps G \<Longrightarrow> tlh_outer (tlhs st' T) = tlh_outer (tlhs st T)"
    "T \<in> gheaps G \<Longrightarrow> tl_stat_slot (tlhs st' T) = tl_stat_slot (tlhs st T)"
    "gown G' c = Some (Direct_of d) \<longleftrightarrow> gown G c = Some (Direct_of d)"
    "a \<in> direct_memory G \<Longrightarrow> mem st' a = mem st a \<and> hdrs st' a = hdrs st a \<and> metas st' a = metas st a"
    "valid st a \<Longrightarrow> valid st' a"
    "y \<notin> X \<Longrightarrow> block st' G' T y n \<longleftrightarrow> block st G T y n"
    "y \<notin> X \<Longrightarrow> block st G T y n \<Longrightarrow> a \<in> bytes y n \<Longrightarrow> mem st' a = mem st a"
  using assms unfolding evolves_def by blast+

lemma evolves_mono: "evolves X st G st' G' \<Longrightarrow> X \<subseteq> Y \<Longrightarrow> evolves Y st G st' G'"
  unfolding evolves_def by blast

lemma evolves_trans:
  assumes a: "evolves X st G st' G'" and b: "evolves Y st' G' st'' G''"
  shows "evolves (X \<union> Y) st G st'' G''"
proof -
  note A = evolvesD [OF a] and B = evolvesD [OF b]
  have d: "direct_memory G' = direct_memory G" unfolding direct_memory_def using A(5) by simp
  have "outer_globals st st''" using A(1) B(1) by (simp add: outer_globals_def)
  moreover have "\<forall>a\<in>direct_memory G. mem st'' a = mem st a \<and> hdrs st'' a = hdrs st a \<and> metas st'' a = metas st a"
    using A(6) B(6) d by simp
  moreover have "block st'' G'' T y n \<longleftrightarrow> block st G T y n" if "y \<notin> X \<union> Y" for T y n
    using A(8) [of y T n] B(8) [of y T n] that by simp
  moreover have "mem st'' a = mem st a" if "y \<notin> X \<union> Y" "block st G T y n" "a \<in> bytes y n" for T y n a
    using A(8) [of y T n] A(9) [of y T n a] B(9) [of y T n a] that by simp
  ultimately show ?thesis
    unfolding evolves_def using A(2-5,7) B(2-5,7) by auto
qed

lemma evolves_inner:
  assumes s: "inner_step st st'" and g: "gheaps G' = gheaps G"
    and o: "\<And>T. T \<in> gheaps G \<Longrightarrow> tlh_outer (tlhs st' T) = tlh_outer (tlhs st T)"
    and d: "\<And>c d. gown G' c = Some (Direct_of d) \<longleftrightarrow> gown G c = Some (Direct_of d)"
    and m: "\<And>a. a \<in> direct_memory G \<Longrightarrow> mem st' a = mem st a \<and> metas st' a = metas st a"
    and b: "\<And>T y n. y \<notin> X \<Longrightarrow> block st' G' T y n \<longleftrightarrow> block st G T y n"
    and k: "\<And>T y n a. y \<notin> X \<Longrightarrow> block st G T y n \<Longrightarrow> a \<in> bytes y n \<Longrightarrow> mem st' a = mem st a"
  shows "evolves X st G st' G'"
proof -
  have "outer_globals st st'" "hdrs st' = hdrs st" "\<forall>T. tl_stat_slot (tlhs st' T) = tl_stat_slot (tlhs st T)"
    using s by (simp_all add: inner_step_def same_globals_def outer_globals_def)
  then show ?thesis
    unfolding evolves_def using assms inner_step_valid [OF s] by simp
qed

end
