(* ===== verification/Heap_Slabs.thy ===== *)
theory Heap_Slabs
  imports Heap_Blocks
begin

text \<open>
  Slab operations inside the heaps: taking an object from the free list or by bumping, giving one
  back, and moving slabs between the lists of their bin.
\<close>

section \<open>Taking and giving back objects\<close>

lemma meta_in_chunk: "chunk_at st c \<Longrightarrow> c + 64 \<in> chunk_block c" "chunk_at st c \<Longrightarrow> valid st (c + 64)"
  by (auto simp: chunk_block_def chunk_at_def within_def)

lemma direct_outside:
  assumes "heap_struct st G" "gown G c = Some u" "\<And>d. u \<noteq> Direct_of d" "a \<in> direct_memory G"
  shows "a \<notin> chunk_block c"
proof -
  obtain c' d where c': "gown G c' = Some (Direct_of d)" "a \<in> chunk_block c'" using assms(4) by (auto simp: direct_memory_def)
  then have "c \<noteq> c'" using assms(2,3) by auto
  then show ?thesis using other_chunk_mem [OF assms(1,2) c'(1)] c'(2) by blast
qed

lemma slab_update_evolves:
  assumes inv: "heap_struct st G" and c: "gown G c = Some (Slab_of T i)"
    and st': "st' = st\<lparr>mem := M, metas := (metas st)(c + 64 := MSlab r')\<rparr>"
    and M: "\<And>a. M a \<noteq> mem st a \<Longrightarrow> \<exists>x n. x \<in> X \<and> block_at st G c T x n \<and> a \<in> bytes x n"
    and r: "metas st (c + 64) = MSlab r" "sl_next r' = sl_next r" "sl_prev r' = sl_prev r"
    and rep: "slab_rep st' c i m F r'"
    and G': "G' = G\<lparr>gcarved := (gcarved G)(c := m), gfree := (gfree G)(c := F)\<rparr>"
    and X: "\<And>y. y \<notin> X \<Longrightarrow> y \<in> objs c i m - set F \<longleftrightarrow> y \<in> slab_used G c i"
  shows "heap_struct st' G'" "evolves X st G st' G'"
proof -
  have out: "M a = mem st a" if "a \<notin> chunk_block c" for a
    using M [of a] that block_at_bytes(1) [OF inv] by blast
  show inv': "heap_struct st' G'" by (rule slab_update [OF inv c st' out r rep G'])
  have b: "block_at st' G' c' T' y n = block_at st G c' T' y n" if "y \<notin> X" for c' T' y n
  proof (cases "c' = c")
    case True
    then show ?thesis using c X [OF that] by (auto simp: block_at_def G' slab_used_def)
  next
    case False
    have "slab_used G' c' j = slab_used G c' j" for j using False by (simp add: slab_used_def G')
    moreover have "span_start st' c' y n = span_start st c' y n" using False by (simp add: span_start_def st')
    ultimately show ?thesis by (simp add: block_at_def G' split: option.splits chunk_use.splits)
  qed
  show "evolves X st G st' G'"
  proof (rule evolves_inner)
    show "inner_step st st'" by (simp add: inner_step_def st' same_globals_def)
    show "mem st' a = mem st a \<and> metas st' a = metas st a" if "a \<in> direct_memory G" for a
    proof -
      have "a \<notin> chunk_block c" by (rule direct_outside [OF inv c _ that]) simp
      moreover from this have "a \<noteq> c + 64" using meta_in_chunk(1) [OF struct_chunk [OF inv c]] by blast
      ultimately show ?thesis using out by (simp add: st')
    qed
    show "block st' G' T' y n = block st G T' y n" if "y \<notin> X" for T' y n
      unfolding block_def using b [OF that] by simp
    show "mem st' a = mem st a" if y: "y \<notin> X" "block st G T' y n" "a \<in> bytes y n" for T' y n a
    proof (rule ccontr)
      assume "mem st' a \<noteq> mem st a"
      then obtain x k where x: "x \<in> X" "block_at st G c T x k" "a \<in> bytes x k" using M [of a] by (auto simp: st')
      then have "block st G T x k" by (auto simp: block_def)
      from blocks_disjoint_heap [OF inv y(2) this] show False using x y by blast
    qed
  qed (simp_all add: st' G')
qed

lemma slab_record:
  assumes inv: "heap_struct st G" and c: "gown G c = Some (Slab_of T i)"
  obtains r where "metas st (c + 64) = MSlab r" "slab_rep st c i (gcarved G c) (gfree G c) r" "valid st (c + 64)"
    "get_slab st (c + 64) = Some r" "chunk_base c" "i < 40"
proof -
  obtain r where r: "metas st (c + 64) = MSlab r" "slab_rep st c i (gcarved G c) (gfree G c) r"
    using heap_structD(6) [OF inv c] by (auto simp: slab_ok_def)
  have v: "valid st (c + 64)" by (rule meta_in_chunk(2) [OF struct_chunk [OF inv c]])
  then have "get_slab st (c + 64) = Some r" using r by (simp add: get_slab_def)
  then show thesis using that r v struct_base [OF inv c] desc_okD(2) [OF heap_structD(5) [OF inv] c] by blast
qed

lemma obj_readable:
  assumes inv: "heap_struct st G" and c: "gown G c = Some (Slab_of T i)" and x: "x \<in> objs c i (gcarved G c)"
  shows "valid st x" "valid st (x + 7)"
proof -
  obtain r where r: "slab_rep st c i (gcarved G c) (gfree G c) r" "chunk_base c" "i < 40"
    using slab_record [OF inv c] by blast
  have w: "word_bytes x \<subseteq> chunk_block c" by (rule obj_word_in_chunk(1) [OF r(2,3) slab_rep_length(2) [OF r] x])
  have "x \<in> word_bytes x" "x + 7 \<in> word_bytes x" by (simp_all add: word_bytes_def within_def)
  then have "x \<in> chunk_block c" "x + 7 \<in> chunk_block c" using w by blast+
  then show "valid st x" "valid st (x + 7)" using struct_chunk [OF inv c] by (simp_all add: chunk_at_def chunk_block_def)
qed

lemma struct_pop:
  assumes inv: "heap_struct st G" and c: "gown G c = Some (Slab_of T i)" and F: "gfree G c = x # F"
  shows "\<exists>st'. pop_free (c + 64) st = Some (x, st') \<and>
    heap_struct st' (G\<lparr>gfree := (gfree G)(c := F)\<rparr>) \<and> evolves {x} st G st' (G\<lparr>gfree := (gfree G)(c := F)\<rparr>) \<and>
    x \<noteq> 0 \<and> \<not> block st G T' x n \<and> block st' (G\<lparr>gfree := (gfree G)(c := F)\<rparr>) T x (class_bytes i) \<and>
    mem st' = mem st \<and> tlhs st' = tlhs st \<and> trace st' = trace st \<and>
    (\<exists>r. get_slab st' (c + 64) = Some r \<and> sl_block_size r = of_nat (class_bytes i))"
proof -
  obtain r where r: "metas st (c + 64) = MSlab r" "slab_rep st c i (gcarved G c) (x # F) r" "valid st (c + 64)"
    "get_slab st (c + 64) = Some r" "chunk_base c" "i < 40"
    using slab_record [OF inv c] F by metis
  note pop = slab_pop [OF r(2,5,6)]
  define r' where "r' = r\<lparr>sl_free_list_head := free_link st x, sl_used_objects := sl_used_objects r + 1\<rparr>"
  define st' where "st' = st\<lparr>mem := mem st, metas := (metas st)(c + 64 := MSlab r')\<rparr>"
  let ?G = "G\<lparr>gfree := (gfree G)(c := F)\<rparr>"
  have rep: "slab_rep st' c i (gcarved G c) F r'"
    by (rule slab_rep_cong [OF pop(1)]) (simp_all add: st'_def r'_def)
  have G': "?G = G\<lparr>gcarved := (gcarved G)(c := gcarved G c), gfree := (gfree G)(c := F)\<rparr>" by simp
  have X: "y \<in> objs c i (gcarved G c) - set F \<longleftrightarrow> y \<in> slab_used G c i" if "y \<notin> {x}" for y
    using that F by (auto simp: slab_used_def)
  note up = slab_update_evolves [OF inv c st'_def _ r(1) _ _ rep G' X, of "{x}", simplified]
  have u: "heap_struct st' ?G" "evolves {x} st G st' ?G" by (rule up; simp add: r'_def)+
  have run: "pop_free (c + 64) st = Some (x, st')"
    using r(1,3,4) pop(4) obj_readable [OF inv c pop(2)]
    by (simp add: pop_free_def read_ptr_def upd_slab_def get_slab_def set_meta_def valid_def st'_def r'_def
        free_link_def lz_ptr_obfuscate_def)
  have "\<not> block st G T' x n"
  proof
    assume b: "block st G T' x n"
    have "x \<in> chunk_block c" using obj_word_in_chunk(1) [OF r(5,6) slab_rep_length(2) [OF r(2,5,6)] pop(2)]
      by (auto simp: word_bytes_def within_def)
    then have "chunk_of x = c" by (rule chunk_of_block [OF r(5)])
    then show False using b c F unfolding block_iff [OF inv] by (simp add: block_at_def slab_used_def)
  qed
  moreover have "block_at st' ?G c T x (class_bytes i)"
    using c pop(2,3) by (simp add: block_at_def slab_used_def)
  then have "block st' ?G T x (class_bytes i)" by (auto simp: block_def)
  moreover have "get_slab st' (c + 64) = Some r'" using r(3) by (simp add: get_slab_def st'_def valid_def)
  moreover have "sl_block_size r' = of_nat (class_bytes i)"
    using r(2) by (simp add: r'_def slab_rep_def slab_shape_def)
  ultimately show ?thesis using run u pop(5) by (auto simp: st'_def)
qed

text \<open>An address that is no carved object in use is no block.\<close>

lemma no_block_slab:
  assumes inv: "heap_struct st G" and c: "gown G c = Some (Slab_of T i)" and x: "x \<in> chunk_block c" "x \<notin> slab_used G c i"
  shows "\<not> block st G T' x n"
proof
  assume b: "block st G T' x n"
  have "chunk_of x = c" by (rule chunk_of_block [OF struct_base [OF inv c] x(1)])
  then show False using b c x(2) unfolding block_iff [OF inv] by (simp add: block_at_def)
qed

lemma obj_in_block:
  assumes "chunk_base c" "i < 40" "j < slots i"
  shows "obj c i j \<in> chunk_block c" "word_bytes (obj c i j) \<subseteq> chunk_block c"
proof -
  have "obj c i j \<in> objs c i (slots i)" using assms(3) by (auto simp: objs_def)
  from obj_word_in_chunk(1) [OF assms(1,2) order_refl this] show w: "word_bytes (obj c i j) \<subseteq> chunk_block c" .
  then show "obj c i j \<in> chunk_block c" by (auto simp: word_bytes_def within_def)
qed

text \<open>The record of a slab after one more object was carved.\<close>

definition bumped :: "lz_slab \<Rightarrow> lz_slab" where
  "bumped r = r\<lparr>sl_bump_ptr := sl_bump_ptr r + ucast (sl_block_size r), sl_used_objects := sl_used_objects r + 1\<rparr>"

lemma struct_bump:
  assumes inv: "heap_struct st G" and c: "gown G c = Some (Slab_of T i)" and m: "gcarved G c < slots i"
    and r: "metas st (c + 64) = MSlab r"
  defines "st' \<equiv> st\<lparr>metas := (metas st)(c + 64 := MSlab (bumped r))\<rparr>"
    and "G' \<equiv> G\<lparr>gcarved := (gcarved G)(c := Suc (gcarved G c))\<rparr>"
  shows "heap_struct st' G'" "evolves {sl_bump_ptr r} st G st' G'" "sl_bump_ptr r \<noteq> 0"
    "\<not> block st G T' (sl_bump_ptr r) n" "block st' G' T (sl_bump_ptr r) (class_bytes i)"
    "sl_bump_ptr r + ucast (sl_block_size r) \<le> sl_memory_end r" "sl_block_size r = of_nat (class_bytes i)"
proof -
  obtain r0 where r0: "metas st (c + 64) = MSlab r0" "slab_rep st c i (gcarved G c) (gfree G c) r0" "chunk_base c" "i < 40"
    by (rule slab_record [OF inv c])
  have rr: "r0 = r" using r r0(1) by simp
  note r1 = r0(2-4) [unfolded rr]
  note bump = slab_bump [OF r1 m]
  let ?x = "obj c i (gcarved G c)"
  have st'': "st' = st\<lparr>mem := mem st, metas := (metas st)(c + 64 := MSlab (bumped r))\<rparr>" by (simp add: st'_def)
  have rep: "slab_rep st' c i (Suc (gcarved G c)) (gfree G c) (bumped r)"
    by (rule slab_rep_cong [OF bump(1)]) (simp_all add: st'_def bumped_def)
  have G'': "G' = G\<lparr>gcarved := (gcarved G)(c := Suc (gcarved G c)), gfree := (gfree G)(c := gfree G c)\<rparr>"
    by (simp add: G'_def)
  have F: "set (gfree G c) \<subseteq> objs c i (gcarved G c)" using r1(1) by (simp add: slab_rep_def)
  have nx: "?x \<notin> objs c i (gcarved G c)" by (rule obj_notin_objs [OF r1(2,3) m])
  have X: "y \<in> objs c i (Suc (gcarved G c)) - set (gfree G c) \<longleftrightarrow> y \<in> slab_used G c i" if "y \<notin> {?x}" for y
    using that by (auto simp: slab_used_def objs_Suc)
  note up = slab_update_evolves [OF inv c st'' _ r _ _ rep G'' X, of "{?x}", simplified]
  show "heap_struct st' G'" "evolves {sl_bump_ptr r} st G st' G'"
    unfolding bump(2) by (rule up; simp add: bumped_def)+
  show "sl_bump_ptr r \<noteq> 0"
    using unat_obj [OF r1(2) _ r1(3), of "gcarved G c"] m bump(2) by auto
  show "\<not> block st G T' (sl_bump_ptr r) n"
    unfolding bump(2) by (rule no_block_slab [OF inv c obj_in_block(1) [OF r1(2,3) m]]) (use nx in \<open>simp add: slab_used_def\<close>)
  have "block_at st' G' c T ?x (class_bytes i)"
    using c nx F by (auto simp: block_at_def slab_used_def G'_def objs_Suc)
  then show "block st' G' T (sl_bump_ptr r) (class_bytes i)" unfolding bump(2) by (auto simp: block_def)
  show "sl_bump_ptr r + ucast (sl_block_size r) \<le> sl_memory_end r" by (rule bump(3))
  show "sl_block_size r = of_nat (class_bytes i)" using r1(1) by (simp add: slab_rep_def slab_shape_def)
qed

lemma struct_exhausted:
  assumes inv: "heap_struct st G" and c: "gown G c = Some (Slab_of T i)" and r: "metas st (c + 64) = MSlab r"
    and e: "sl_bump_ptr r \<noteq> 0" "\<not> sl_bump_ptr r + ucast (sl_block_size r) \<le> sl_memory_end r"
  defines "st' \<equiv> st\<lparr>metas := (metas st)(c + 64 := MSlab (r\<lparr>sl_bump_ptr := 0\<rparr>))\<rparr>"
  shows "heap_struct st' G" "evolves {} st G st' G" "gcarved G c = slots i"
proof -
  obtain r0 where r0: "metas st (c + 64) = MSlab r0" "slab_rep st c i (gcarved G c) (gfree G c) r0" "chunk_base c" "i < 40"
    by (rule slab_record [OF inv c])
  have rr: "r0 = r" using r r0(1) by simp
  note x = slab_exhausted [OF r0(2-4) [unfolded rr] e]
  have st'': "st' = st\<lparr>mem := mem st, metas := (metas st)(c + 64 := MSlab (r\<lparr>sl_bump_ptr := 0\<rparr>))\<rparr>" by (simp add: st'_def)
  have rep: "slab_rep st' c i (gcarved G c) (gfree G c) (r\<lparr>sl_bump_ptr := 0\<rparr>)"
    by (rule slab_rep_cong [OF x(2)]) (simp_all add: st'_def)
  have G'': "G = G\<lparr>gcarved := (gcarved G)(c := gcarved G c), gfree := (gfree G)(c := gfree G c)\<rparr>" by simp
  note up = slab_update_evolves [OF inv c st'' _ r _ _ rep G'', of "{}"]
  show "heap_struct st' G" "evolves {} st G st' G" by (rule up; simp add: slab_used_def)+
  show "gcarved G c = slots i" by (rule x(1))
qed

lemma bump_alloc_run:
  assumes "valid st s" "metas st s = MSlab r"
  shows "bump_alloc s st = (if sl_bump_ptr r + ucast (sl_block_size r) \<le> sl_memory_end r
     then Some (sl_bump_ptr r, st\<lparr>metas := (metas st)(s := MSlab (bumped r))\<rparr>)
     else Some (0, st\<lparr>metas := (metas st)(s := MSlab (r\<lparr>sl_bump_ptr := 0\<rparr>))\<rparr>))"
  using assms by (simp add: bump_alloc_def get_slab_def upd_slab_def set_meta_def valid_def Let_def bumped_def)

lemma struct_put:
  assumes inv: "heap_struct st G" and c: "gown G c = Some (Slab_of T i)" and x: "x \<in> slab_used G c i"
    and r: "metas st (c + 64) = MSlab r"
  defines "r' \<equiv> r\<lparr>sl_free_list_head := x, sl_used_objects := sl_used_objects r - 1\<rparr>"
  defines "st' \<equiv> st\<lparr>mem := store64 x (lz_ptr_obfuscate st (sl_free_list_head r) x) (mem st),
      metas := (metas st)(c + 64 := MSlab r')\<rparr>"
    and "G' \<equiv> G\<lparr>gfree := (gfree G)(c := x # gfree G c)\<rparr>"
  shows "heap_struct st' G'" "evolves {x} st G st' G'" "\<not> block st' G' T' x n"
    "length (gfree G c) < gcarved G c" "unat (sl_used_objects r') = gcarved G c - Suc (length (gfree G c))"
    "unat (sl_max_objects r') = slots i"
proof -
  obtain r0 where r0: "metas st (c + 64) = MSlab r0" "slab_rep st c i (gcarved G c) (gfree G c) r0" "chunk_base c" "i < 40"
    by (rule slab_record [OF inv c])
  have rr: "r0 = r" using r r0(1) by simp
  note r1 = r0(2-4) [unfolded rr]
  have xo: "x \<in> objs c i (gcarved G c)" "x \<notin> set (gfree G c)" using x by (simp_all add: slab_used_def)
  note put = slab_put [OF r1 xo]
  let ?M = "store64 x (lz_ptr_obfuscate st (sl_free_list_head r) x) (mem st)"
  have st'': "st' = st\<lparr>mem := ?M, metas := (metas st)(c + 64 := MSlab r')\<rparr>" by (simp add: st'_def)
  have rep: "slab_rep st' c i (gcarved G c) (x # gfree G c) r'"
    by (rule slab_rep_cong [OF put(1)]) (simp_all add: st'_def r'_def)
  have G'': "G' = G\<lparr>gcarved := (gcarved G)(c := gcarved G c), gfree := (gfree G)(c := x # gfree G c)\<rparr>"
    by (simp add: G'_def)
  have X: "y \<in> objs c i (gcarved G c) - set (x # gfree G c) \<longleftrightarrow> y \<in> slab_used G c i" if "y \<notin> {x}" for y
    using that by (auto simp: slab_used_def)
  have b: "block_at st G c T x (class_bytes i)" using c x by (simp add: block_at_def)
  have M: "\<exists>z n. z \<in> {x} \<and> block_at st G c T z n \<and> a \<in> bytes z n" if "?M a \<noteq> mem st a" for a
    using store64_outside [of a x] that block_at_bytes(4) [OF inv b] b by blast
  note up = slab_update_evolves [OF inv c st'' M r _ _ rep G'' X]
  show inv': "heap_struct st' G'" "evolves {x} st G st' G'" by (rule up; simp add: r'_def)+
  have "x \<in> chunk_block c" using block_at_bytes(2) [OF inv b] .
  moreover have "gown G' c = Some (Slab_of T i)" using c by (simp add: G'_def)
  ultimately show "\<not> block st' G' T' x n"
    using no_block_slab [OF inv'(1), of c T i x] by (simp add: slab_used_def G'_def)
  show "length (gfree G c) < gcarved G c" by (rule put(2))
  show "unat (sl_used_objects r') = gcarved G c - Suc (length (gfree G c))" "unat (sl_max_objects r') = slots i"
    using slab_rep_used [OF rep r1(2,3)] by simp_all
qed

end
