(* ===== verification/Traces.thy ===== *)
theory Traces
  imports Tlh Vmm_Spec
begin

text \<open>
  The calls into the system: every operation adds its calls to the history, and a memory manager
  that has no chunk to give was refused memory by the system.
\<close>

definition trace_ext :: "lz_state \<Rightarrow> lz_state \<Rightarrow> bool" where
  "trace_ext st st' \<longleftrightarrow> (\<exists>e. trace st' = e @ trace st)"

text \<open>The system refused a mapping between the two states.\<close>

definition refused :: "lz_state \<Rightarrow> lz_state \<Rightarrow> bool" where
  "refused st st' \<longleftrightarrow> (\<exists>e n. trace st' = e @ trace st \<and> MmapFailed n \<in> set e)"

lemma trace_ext_refl [simp]: "trace_ext st st"
  by (simp add: trace_ext_def)

lemma trace_ext_same: "trace st' = trace st \<Longrightarrow> trace_ext st st'"
  by (simp add: trace_ext_def)

lemma trace_ext_trans: "trace_ext st st' \<Longrightarrow> trace_ext st' st'' \<Longrightarrow> trace_ext st st''"
  by (auto simp: trace_ext_def)

lemma refused_ext:
  "trace_ext st st' \<Longrightarrow> refused st' st'' \<Longrightarrow> refused st st''"
  "refused st st' \<Longrightarrow> trace_ext st' st'' \<Longrightarrow> refused st st''"
  unfolding trace_ext_def refused_def by (auto; force)+

lemma sys_trace:
  "sys_mmap env n st = (r, st') \<Longrightarrow> trace_ext st st'"
  "trace_ext st (sys_munmap p n st)"
  "trace_ext st (sys_madvise p n adv st)"
  "sys_mmap env n st = (None, st') \<Longrightarrow> refused st st'"
  by (auto simp: sys_mmap_def sys_munmap_def sys_madvise_def zero_pages_def trace_ext_def refused_def split: option.splits)

lemma push_extent_trace: "push_extent a is st = Some st' \<Longrightarrow> trace st' = trace st"
proof (induction "is" arbitrary: st)
  case (Cons i "is")
  then obtain s where s: "global_push (a + of_nat i * LZ_HUGE_PAGE_SIZE) st = Some s" "push_extent a is s = Some st'"
    by (auto simp: bind_eq_Some_conv)
  have "trace s = trace st" using s(1) by (auto simp: global_push_def upd_hdr_def split: if_splits)
  then show ?case using Cons.IH [OF s(2)] by simp
qed simp

lemma trim_extent_trace: "trim_extent r n st = (a, st') \<Longrightarrow> trace_ext st st'"
  by (auto simp: trim_extent_def Let_def sys_munmap_def trace_ext_def split: if_splits)

lemma alloc_extent_trace:
  assumes "sys_alloc_extent env st = Some st'"
  shows "trace_ext st st'" "os_mmap env (trace st) (LZ_EXTENT_SIZE + LZ_HUGE_PAGE_SIZE) = None \<Longrightarrow> refused st st'"
proof -
  obtain m s where m: "sys_mmap env (LZ_EXTENT_SIZE + LZ_HUGE_PAGE_SIZE) st = (m, s)" by fastforce
  show "trace_ext st st'"
  proof (cases m)
    case None
    then show ?thesis using assms m sys_trace(1) [OF m] by (simp add: sys_alloc_extent_def Let_def)
  next
    case (Some r)
    obtain a s1 where t: "trim_extent r (LZ_EXTENT_SIZE + LZ_HUGE_PAGE_SIZE) s = (a, s1)" by fastforce
    obtain s2 s3 where s: "global_pool_lock (sys_madvise a LZ_EXTENT_SIZE MADV_HUGEPAGE s1) = Some s2"
      "push_extent a [0..<LZ_EXTENT_CHUNKS] s2 = Some s3" "global_pool_unlock s3 = Some st'"
      using assms m Some t by (auto simp: sys_alloc_extent_def Let_def bind_eq_Some_conv)
    have "trace s2 = trace (sys_madvise a LZ_EXTENT_SIZE MADV_HUGEPAGE s1)" "trace st' = trace s3"
      using s(1,3) by (auto simp: global_pool_lock_def global_pool_unlock_def split: if_splits)
    then have "trace_ext (sys_madvise a LZ_EXTENT_SIZE MADV_HUGEPAGE s1) st'"
      using push_extent_trace [OF s(2)] by (intro trace_ext_same) simp
    then show ?thesis
      using trace_ext_trans [OF sys_trace(1) [OF m] trace_ext_trans [OF trim_extent_trace [OF t] trace_ext_trans [OF sys_trace(3)]]] by blast
  qed
  assume "os_mmap env (trace st) (LZ_EXTENT_SIZE + LZ_HUGE_PAGE_SIZE) = None"
  then have "m = None" using m by (auto simp: sys_mmap_def)
  then show "refused st st'" using assms m sys_trace(4) by (simp add: sys_alloc_extent_def Let_def)
qed

lemma alloc_chunk_trace:
  assumes run: "lz_vmm_alloc_chunk env st = Some (c, st')"
  shows "trace_ext st st'"
    "c = 0 \<Longrightarrow> os_mmap env (Getcpu # trace st) (LZ_EXTENT_SIZE + LZ_HUGE_PAGE_SIZE) = None \<Longrightarrow> refused st st'"
proof -
  let ?n = "current_node env st"
  define s where "s = st\<lparr>trace := Getcpu # trace st\<rparr>"
  have ss: "trace_ext st s" by (simp add: s_def trace_ext_def)
  obtain s1 c1 s2 s3 where s1: "pool_lock ?n s = Some s1" "pool_pop (lz_topology_get_pool ?n) s1 = Some (c1, s2)"
    "pool_unlock ?n s2 = Some s3"
    using run unfolding lz_vmm_alloc_chunk_def lz_get_current_node_eq s_def [symmetric]
    by (auto simp: bind_eq_Some_conv Let_def)
  have t3: "trace s3 = trace s"
    using s1 by (auto simp: pool_lock_def pool_pop_def pool_unlock_def get_hdr_def Let_def split: if_splits bind_splits)
  have "trace_ext st st' \<and> (c = 0 \<longrightarrow> os_mmap env (Getcpu # trace st) (LZ_EXTENT_SIZE + LZ_HUGE_PAGE_SIZE) = None \<longrightarrow> refused st st')"
  proof (cases "c1 = 0")
    case False
    then have "upd_hdr c1 (ch_next_update (\<lambda>_. 0)) s3 = Some st'" "c = c1"
      using run s1 unfolding lz_vmm_alloc_chunk_def lz_get_current_node_eq s_def [symmetric]
      by (auto simp: bind_eq_Some_conv Let_def)
    then have "trace st' = trace s" using t3 by (auto simp: upd_hdr_def split: if_splits)
    then show ?thesis using trace_ext_trans [OF ss trace_ext_same] False \<open>c = c1\<close> by simp
  next
    case True
    define refill where "refill u = (if g_global_free_chunks u = 0 then do {
        st \<leftarrow> global_pool_unlock u; st \<leftarrow> sys_alloc_extent env st; global_pool_lock st } else Some u)" for u
    define fin where "fin c2 u = (if c2 = 0 then Some (0, u) else do { st \<leftarrow> upd_hdr c2 (\<lambda>h. h\<lparr>ch_next := 0, ch_owning_tlh := 0,
        ch_node_id := of_nat ?n, ch_magic := LZ_CHUNK_MAGIC_V2, ch_canary := 0, ch_checksum := 0\<rparr>) u; Some (c2, st) })" for c2 u
    have "do { st \<leftarrow> global_pool_lock s3; st \<leftarrow> refill st; (c2, st) \<leftarrow> global_pop st; st \<leftarrow> global_pool_unlock st; fin c2 st } = Some (c, st')"
      using run s1 True unfolding lz_vmm_alloc_chunk_def lz_get_current_node_eq s_def [symmetric] refill_def fin_def
      by (simp add: Let_def)
    then obtain s4 s5 s6 s7 c2 where s4: "global_pool_lock s3 = Some s4" "refill s4 = Some s5"
      "global_pop s5 = Some (c2, s6)" "global_pool_unlock s6 = Some s7" and fin: "fin c2 s7 = Some (c, st')"
      by (auto simp: bind_eq_Some_conv)
    have t4: "trace s4 = trace s" using s4(1) t3 by (auto simp: global_pool_lock_def split: if_splits)
    have t7: "trace s7 = trace s5" "c2 = g_global_free_chunks s5"
      using s4(3,4) by (auto simp: global_pop_def global_pool_unlock_def get_hdr_def split: if_splits bind_splits)
    have t': "trace st' = trace s5" "c = c2" using fin t7(1) by (auto simp: fin_def upd_hdr_def split: if_splits)
    show ?thesis
    proof (cases "g_global_free_chunks s4 = 0")
      case False
      then have "s5 = s4" using s4(2) by (simp add: refill_def)
      then show ?thesis using trace_ext_trans [OF ss trace_ext_same] t' t4 False t7(2) by auto
    next
      case True
      let ?u = "s4\<lparr>g_global_pool_lock := False\<rparr>"
      obtain e where e: "sys_alloc_extent env ?u = Some e" "global_pool_lock e = Some s5"
        using s4(2) True by (auto simp: refill_def global_pool_unlock_def bind_eq_Some_conv)
      have te: "trace s5 = trace e" using e(2) by (auto simp: global_pool_lock_def split: if_splits)
      have tu: "trace_ext st ?u" by (rule trace_ext_trans [OF ss trace_ext_same]) (simp add: t4)
      have es: "trace_ext e st'" by (rule trace_ext_same) (simp add: t'(1) te)
      note a = alloc_extent_trace [OF e(1)]
      have "trace_ext st st'" by (rule trace_ext_trans [OF trace_ext_trans [OF tu a(1)] es])
      moreover have "refused st st'" if "os_mmap env (Getcpu # trace st) (LZ_EXTENT_SIZE + LZ_HUGE_PAGE_SIZE) = None"
        by (rule refused_ext(2) [OF refused_ext(1) [OF tu a(2)] es]) (use that t4 in \<open>simp add: s_def\<close>)
      ultimately show ?thesis by blast
    qed
  qed
  then show "trace_ext st st'"
    "c = 0 \<Longrightarrow> os_mmap env (Getcpu # trace st) (LZ_EXTENT_SIZE + LZ_HUGE_PAGE_SIZE) = None \<Longrightarrow> refused st st'" by blast+
qed

lemma free_chunk_trace: "lz_vmm_free_chunk c st = Some st' \<Longrightarrow> trace_ext st st'"
  by (auto simp: lz_vmm_free_chunk_def get_hdr_def pool_lock_def pool_unlock_def upd_hdr_def Let_def
      global_insert_def global_push_def release_payload_def sys_madvise_def zero_pages_def trace_ext_def
      global_pool_lock_def global_pool_unlock_def split: if_splits bind_splits)

text \<open>
  A computation from \<open>st\<close> only adds to the history; \<open>f\<close> reads the new state off its result.
\<close>

definition tr :: "lz_state \<Rightarrow> ('a \<Rightarrow> lz_state) \<Rightarrow> 'a option \<Rightarrow> bool" where
  "tr st f m \<longleftrightarrow> (\<forall>x. m = Some x \<longrightarrow> trace_ext st (f x))"

abbreviation (input) tr_st :: "lz_state \<Rightarrow> lz_state option \<Rightarrow> bool" where
  "tr_st st m \<equiv> tr st (\<lambda>s. s) m"

named_theorems tr_intros

lemma tr_some [tr_intros]: "trace_ext st (f x) \<Longrightarrow> tr st f (Some x)"
  by (simp add: tr_def)

lemma tr_none [tr_intros]: "tr st f None"
  by (simp add: tr_def)

lemma tr_bind: "tr st f m \<Longrightarrow> (\<And>x. tr (f x) g (k x)) \<Longrightarrow> tr st g (m \<bind> k)"
  by (fastforce simp: tr_def bind_eq_Some_conv intro: trace_ext_trans)

lemma tr_read: "(\<And>x. tr st g (k x)) \<Longrightarrow> tr st g (m \<bind> k)"
  by (auto simp: tr_def bind_eq_Some_conv)

lemma tr_if [tr_intros]: "(b \<Longrightarrow> tr st f m) \<Longrightarrow> (\<not> b \<Longrightarrow> tr st f n) \<Longrightarrow> tr st f (if b then m else n)"
  by simp

lemma tr_let [tr_intros]: "tr st f (k x) \<Longrightarrow> tr st f (Let x k)"
  by simp

lemma tr_pair [tr_intros]: "(\<And>a b. tr st f (k a b)) \<Longrightarrow> tr st f (case x of (a, b) \<Rightarrow> k a b)"
  by (simp add: case_prod_beta)

lemma tr_bind2: "tr st snd m \<Longrightarrow> (\<And>a s. tr s g (k a s)) \<Longrightarrow> tr st g (m \<bind> (\<lambda>(a, s). k a s))"
  by (fastforce simp: tr_def bind_eq_Some_conv intro: trace_ext_trans)

lemma tr_bind3: "tr st (\<lambda>(a, b, s). s) m \<Longrightarrow> (\<And>a b s. tr s g (k a b s)) \<Longrightarrow> tr st g (m \<bind> (\<lambda>(a, b, s). k a b s))"
  by (fastforce simp: tr_def bind_eq_Some_conv intro: trace_ext_trans)

lemma trD: "tr st f m \<Longrightarrow> m = Some x \<Longrightarrow> trace_ext st (f x)"
  by (simp add: tr_def)

lemma tr_prims [tr_intros]:
  "tr_st st (upd_hdr p g st)" "tr_st st (set_meta p m st)" "tr_st st (upd_slab p h st)" "tr_st st (upd_span p i st)"
  "tr_st st (upd_tlh p j st)" "tr_st st (upd_stat p k st)" "tr_st st (upd_bin T n l st)" "tr_st st (write_ptr p v st)"
  by (auto simp: tr_def trace_ext_def upd_hdr_def set_meta_def upd_slab_def upd_span_def upd_tlh_def upd_stat_def upd_bin_def
      write_ptr_def split: if_splits bind_splits lz_meta.splits)


lemmas tr_reads = tr_read [where m = "get_slab s p" for s p] tr_read [where m = "get_span s p" for s p]
  tr_read [where m = "get_hdr s p" for s p] tr_read [where m = "get_tlh s p" for s p] tr_read [where m = "get_bin s p i" for s p i]
  tr_read [where m = "read_ptr s p" for s p] tr_read [where m = "get_direct s p" for s p] tr_read [where m = "lz_rtree_get s p" for s p]

lemma tr_read_if: "(\<And>x. tr st g (k x)) \<Longrightarrow> tr st g ((if b then Some y else n \<bind> (\<lambda>s. Some (z s))) \<bind> k)"
  by (rule tr_read)

lemma rtree_set_tr [tr_intros]: "tr_st st (lz_rtree_set env a m st)" "tr_st st (lz_rtree_clear env a st)"
proof -
  have se: "tr_st u (store_entry x y z u)" "tr_st u (store_entry x y z (u\<lparr>g_rtree_root := w\<rparr>))" for x y z u w
    by (auto simp: tr_def store_entry_def trace_ext_def split: if_splits)
  have "tr_st st (lz_rtree_set env a m st)" for m
  proof (cases "g_rtree_root st (rtree_l1_idx a) = 0 \<and> m \<noteq> 0")
    case True
    obtain l s where l: "alloc_internal_node env sizeof_lz_rtree_leaf st = (l, s)" by fastforce
    have "trace_ext st s \<and> g_rtree_root s = g_rtree_root st" using l
      by (auto simp: alloc_internal_node_def sys_mmap_def zero_pages_def trace_ext_def split: option.splits)
    then show ?thesis
      using True l se trace_ext_trans by (simp add: lz_rtree_set_def tr_def Let_def) blast
  next
    case False
    then show ?thesis using se by (auto simp: lz_rtree_set_def tr_def Let_def)
  qed
  then show "tr_st st (lz_rtree_set env a m st)" "tr_st st (lz_rtree_clear env a st)" by (simp_all add: lz_rtree_clear_def)
qed

lemma vmm_tr [tr_intros]: "tr st snd (lz_vmm_alloc_chunk env st)" "tr_st st (lz_vmm_free_chunk c st)"
  using alloc_chunk_trace(1) free_chunk_trace by (fastforce simp: tr_def)+

lemma fatal_ext [tr_intros]: "trace_ext st (LZ_FATAL m st)"
  by (simp add: trace_ext_def LZ_FATAL_def)


lemma slab_destroy_tr [tr_intros]: "tr_st st (lz_slab_destroy env slab st)"
  unfolding lz_slab_destroy_def Let_def by (rule tr_reads tr_intros tr_bind | simp)+

lemma slab_unlink_tr: "(\<And>v s. tr_st s (h v s)) \<Longrightarrow> tr_st st (slab_unlink h slab st)"
  unfolding slab_unlink_def by (rule tr_reads tr_intros tr_bind | simp)+

lemma slab_push_tr: "(\<And>v s. tr_st s (h v s)) \<Longrightarrow> tr_st st (slab_push p h slab st)"
  unfolding slab_push_def by (rule tr_reads tr_intros tr_bind | simp)+

lemma promote_tr [tr_intros]: "tr st snd (promote_partial T i st)"
  unfolding promote_partial_def by (rule tr_reads tr_intros tr_bind | simp)+

lemma rescue_tr [tr_intros]: "tr_st st (lz_tlh_rescue_from_full T slab st)"
  unfolding lz_tlh_rescue_from_full_def by (rule tr_reads tr_intros slab_unlink_tr slab_push_tr tr_bind | simp)+

lemma recycle_tr [tr_intros]: "tr_st st (lz_tlh_recycle_empty_slab env T slab st)"
  unfolding lz_tlh_recycle_empty_slab_def by (rule tr_reads tr_intros slab_unlink_tr tr_bind2 tr_bind | simp)+

lemma telemetry_tr [tr_intros]: "tr_st st (telemetry_free_batch T n st)" "tr_st st (telemetry_alloc_batch T m st)"
  unfolding telemetry_free_batch_def telemetry_alloc_batch_def by (rule tr_reads tr_intros tr_bind | simp)+

lemma slab_release_tr [tr_intros]: "tr_st st (slab_release env T slab node st)"
  unfolding slab_release_def by (rule tr_reads tr_intros tr_bind | simp)+

lemma span_unlink_tr [tr_intros]: "tr_st st (span_unlink T s st)"
  unfolding span_unlink_def by (rule tr_reads tr_intros tr_bind | simp)+

lemma span_free_tr [tr_intros]: "tr_st st (lz_span_free_local env T c p st)" "tr_st st (lz_span_free_remote env T c p st)"
  unfolding lz_span_free_remote_def lz_span_free_local_def by (rule tr_reads tr_intros tr_bind | simp)+

lemma reap_list_tr [tr_intros]: "tr_st st (reap_list env T head st)"
proof -
  have "trace_ext st x" if "reap_list env T head st = Some x" for x
  proof (rule reap_list.raw_induct [where P = "\<lambda>env T head st x. trace_ext st x", OF _ that])
    fix reap :: "os_env \<Rightarrow> addr \<Rightarrow> addr \<Rightarrow> lz_state \<Rightarrow> lz_state option" and env T head st x
    assume ih: "\<And>env T head st x. reap env T head st = Some x \<Longrightarrow> trace_ext st x"
      and run: "(if head = 0 then Some st
      else do {
        next_clear \<leftarrow> read_ptr st head;
        let chunk = chunk_of head;
        h \<leftarrow> get_hdr st chunk;
        st \<leftarrow> (if ch_chunk_type h = LZ_CHUNK_TYPE_SLAB
               then slab_release env T (chunk + LZ_CACHE_LINE_SIZE) head st
               else if ch_chunk_type h = LZ_CHUNK_TYPE_SPAN
               then lz_span_free_remote env T chunk head st
               else Some st);
        reap env T next_clear st }) = Some x" (is "?m = _")
    have re: "tr_st s (reap env T y s)" for s y using ih by (simp add: tr_def)
    have "tr_st st ?m" by (rule tr_reads tr_intros re tr_bind | simp)+
    from trD [OF this run] show "trace_ext st x" .
  qed
  then show ?thesis by (simp add: tr_def)
qed

lemma reap_tr [tr_intros]: "tr_st st (lz_tlh_reap env T st)"
  unfolding lz_tlh_reap_def by (rule tr_reads tr_intros tr_bind | simp)+

lemma pop_free_tr [tr_intros]: "tr st snd (pop_free slab st)" "tr st snd (bump_alloc slab st)"
  unfolding pop_free_def bump_alloc_def Let_def by (rule tr_reads tr_intros tr_bind | simp)+

lemma alloc_current_tr [tr_intros]: "tr st (\<lambda>(p, n, s). s) (alloc_current env T i st)"
  unfolding alloc_current_def Let_def by (rule tr_reads tr_read_if tr_intros tr_bind2 tr_bind | simp)+

lemma shield_tr [tr_intros]: "tr_st st (shield_chunk c T ty st)"
  unfolding shield_chunk_def by (rule tr_reads tr_intros tr_bind | simp)+

lemma slab_create_tr [tr_intros]: "tr st snd (lz_slab_create env T i st)"
  unfolding lz_slab_create_def Let_def by (rule tr_reads tr_intros tr_bind2 tr_bind | simp)+

lemma retire_tr [tr_intros]: "tr_st st (retire_current T i slab st)"
  unfolding retire_current_def by (rule tr_reads tr_intros slab_push_tr tr_bind | simp)+

lemma alloc_slow_tr [tr_intros]: "tr st snd (lz_tlh_alloc_slow env T i st)"
  unfolding lz_tlh_alloc_slow_def Let_def by (rule tr_reads tr_intros tr_bind2 tr_bind | simp)+

lemma search_spans_tr [tr_intros]: "tr st (\<lambda>(p, n, s). s) (search_spans k cur st)"
proof -
  have "trace_ext st (case x of (p, n, s) \<Rightarrow> s)" if "search_spans k cur st = Some x" for x
  proof (rule search_spans.raw_induct [where P = "\<lambda>k cur st x. trace_ext st (case x of (p, n, s) \<Rightarrow> s)", OF _ that])
    fix search :: "u32 \<Rightarrow> addr \<Rightarrow> lz_state \<Rightarrow> (addr \<times> int \<times> lz_state) option" and k current st x
    assume ih: "\<And>k cur st x. search k cur st = Some x \<Longrightarrow> trace_ext st (case x of (p, n, s) \<Rightarrow> s)"
      and run: "(if current = 0 then Some (0, - 1, st)
      else do {
        span \<leftarrow> get_span st current;
        if 512 - sp_used_pages span \<ge> k then do {
          let (page_idx, span) = find_contiguous_pages span k;
          st \<leftarrow> set_meta current (MSpan span) st;
          if page_idx \<noteq> -1 then Some (current, page_idx, st)
          else search k (sp_next span) st }
        else search k (sp_next span) st }) = Some x" (is "?m = _")
    have re: "tr s (\<lambda>(p, n, s). s) (search k y s)" for s y using ih by (simp add: tr_def)
    have "tr st (\<lambda>(p, n, s). s) ?m" by (rule tr_reads tr_intros re tr_bind | simp)+
    from trD [OF this run] show "trace_ext st (case x of (p, n, s) \<Rightarrow> s)" .
  qed
  then show ?thesis by (simp add: tr_def)
qed

lemma new_span_tr [tr_intros]: "tr st snd (new_span env T c st)"
  unfolding new_span_def Let_def by (rule tr_reads tr_intros tr_bind | simp)+

lemma finish_span_tr [tr_intros]: "tr st snd (finish_span c i k st)"
  unfolding finish_span_def Let_def by (rule tr_reads tr_intros tr_bind | simp)+

lemma span_alloc_tr [tr_intros]: "tr st snd (lz_span_alloc env T sz st)"
  unfolding lz_span_alloc_def Let_def by (rule tr_reads tr_intros tr_bind3 tr_bind2 tr_bind | simp)+

lemma tlh_alloc_tr [tr_intros]: "tr st snd (lz_tlh_alloc env T sz st)"
  unfolding lz_tlh_alloc_def Let_def by (rule tr_reads tr_intros tr_bind3 tr_bind2 tr_bind | simp)+

lemma flush_tr [tr_intros]: "tr_st st (lz_tlh_flush_outgoing_batch T st)"
  unfolding lz_tlh_flush_outgoing_batch_def Let_def by (rule tr_reads tr_intros tr_bind | simp)+

lemma batch_free_tr [tr_intros]: "tr_st st (batch_free T U x st)"
  unfolding batch_free_def Let_def by (rule tr_reads tr_intros tr_bind | simp)+

lemma tlh_free_tr [tr_intros]: "tr_st st (lz_tlh_free env T p st)"
  unfolding lz_tlh_free_def Let_def
  by (rule tr_reads tr_read [where m = "if b then lz_rtree_get s q else Some c" for b s q c] tr_intros tr_bind | simp)+

end
