(* ===== verification/Heap_Chunks.thy ===== *)
theory Heap_Chunks
  imports Heap_Slabs Traces
begin

text \<open>
  Chunks between the memory manager and the heaps: taking one, formatting it and recording it in the
  index, and giving one back.
\<close>

section \<open>Steps outside the heaps\<close>

lemma keeps_chunk_same:
  assumes k: "keeps C st st'" and c: "chunk_at st c" "chunk_block c \<inter> C = {}"
  shows "chunk_same st st' c" "node_same st st' (c + 64)" "metas st' (c + 64) = metas st (c + 64)"
proof -
  have v: "valid st a" if "a \<in> chunk_block c" for a using c(1) that by (simp add: chunk_at_def chunk_block_def)
  have same: "mem st' a = mem st a" "hdrs st' a = hdrs st a" "metas st' a = metas st a" if "a \<in> chunk_block c" for a
    using keepsD(1,2,3) [OF k v [OF that]] that c(2) by auto
  have in_c: "c \<in> chunk_block c" "c + 64 \<in> chunk_block c" by (simp_all add: chunk_block_def within_def)
  show "chunk_same st st' c" using same in_c by (simp add: chunk_same_def)
  show m: "metas st' (c + 64) = metas st (c + 64)" by (rule same(3) [OF in_c(2)])
  show "node_same st st' (c + 64)"
    using m keeps_valid [OF k v [OF in_c(2)]]
    by (simp add: node_same_def meta_next_def meta_prev_def slab_node_def span_node_def)
qed

lemma heap_struct_outer:
  assumes inv: "heap_struct st G" and k: "keeps C st st'"
    and C: "\<And>c u. gown G c = Some u \<Longrightarrow> u \<noteq> Spare \<Longrightarrow> chunk_block c \<inter> C = {}"
    and tl: "\<And>T. T \<in> gheaps G \<Longrightarrow> tlhs st' T = tlhs st T"
    and g: "outer_globals st st'"
    and G': "G' = G\<lparr>gpools := PG, gown := w\<rparr>" and w: "\<And>c u. u \<noteq> Spare \<Longrightarrow> w c = Some u \<longleftrightarrow> gown G c = Some u"
    and new: "vmm_inv st' PG" "rtree_inv st'" "layout_ok st' G'" "index_ok st' G'"
  shows "heap_struct st' G'" "evolves {} st G st' G'"
proof -
  have ch: "chunk_at st c" "chunk_block c \<inter> C = {}" if "gown G c = Some u" "u \<noteq> Spare" for c u
    using struct_chunk [OF inv that(1)] C [OF that] by auto
  have same: "chunk_same st st' c" "node_same st st' (c + 64)" "metas st' (c + 64) = metas st (c + 64)"
    if "gown G c = Some u" "u \<noteq> Spare" for c u
    using keeps_chunk_same [OF k ch [OF that]] by auto
  have T: "tlhs st' T = tlhs st T" "valid st' T" if "T \<in> gheaps G" for T
    using tl [OF that] keeps_valid [OF k lists_okD(4) [OF heap_structD(8) [OF inv that]]] by auto
  have ok: "desc_ok G" by (rule heap_structD(5) [OF inv])
  have ok': "desc_ok G'" using ok w unfolding desc_ok_def G' by simp
  have "slab_ok st' G' c T i" if "gown G' c = Some (Slab_of T i)" for c T i
  proof -
    have o: "gown G c = Some (Slab_of T i)" using that w by (simp add: G')
    show ?thesis
      by (rule slab_ok_same [OF heap_structD(6) [OF inv o] same(1) [OF o chunk_use.distinct(5)] struct_base [OF inv o] desc_okD(2) [OF ok o]])
         (use g in \<open>auto simp: G' outer_globals_def\<close>)
  qed
  moreover have "span_ok st' c T" if "gown G' c = Some (Span_of T)" for c T
  proof -
    have o: "gown G c = Some (Span_of T)" using that w by (simp add: G')
    show ?thesis by (rule span_ok_same [OF heap_structD(7) [OF inv o] same(1) [OF o chunk_use.distinct(9)]])
  qed
  moreover have "lists_ok st' G' T \<and> stat_ok st' T" if "T \<in> gheaps G'" for T
  proof
    have T': "T \<in> gheaps G" using that by (simp add: G')
    show "lists_ok st' G' T"
    proof (rule lists_ok_same [OF heap_structD(8) [OF inv T']])
      fix s i assume "i < 40" "s \<in> desc_slabs G T i"
      then have "gown G (s - 64) = Some (Slab_of T i)" using desc_okD(4) [OF ok T'] by simp
      from same(2) [OF this] show "node_same st st' s" by simp
    next
      fix s assume "s \<in> set (gspans G T)"
      then have "gown G (s - 64) = Some (Span_of T)" using desc_okD(5) [OF ok T'] by simp
      from same(2) [OF this] show "node_same st st' s" by simp
    qed (use T [OF T'] in \<open>simp_all add: G'\<close>)
    show "stat_ok st' T"
      using heap_structD(9) [OF inv T'] T(1) [OF T'] g by (simp add: stat_ok_def outer_globals_def)
  qed
  ultimately show inv': "heap_struct st' G'" using new ok' unfolding heap_struct_def by (simp add: G')
  have b: "block_at st' G' c T y n = block_at st G c T y n" for c T y n
  proof -
    show ?thesis
    proof (cases "\<exists>u. u \<noteq> Spare \<and> gown G c = Some u")
      case True
      then obtain u where u: "u \<noteq> Spare" "gown G c = Some u" by blast
      then have "gown G' c = gown G c" "span_start st' c y n = span_start st c y n"
        using w same(3) [OF u(2,1)] by (auto simp: G' span_start_def)
      then show ?thesis by (simp add: block_at_def slab_used_def G' split: option.splits chunk_use.splits)
    next
      case False
      then have "gown G c = None \<or> gown G c = Some Spare" "gown G' c = None \<or> gown G' c = Some Spare"
        using w [of _ c] by (auto simp: G') (metis not_Some_eq)+
      then show ?thesis by (auto simp: block_at_def)
    qed
  qed
  then have b': "block st' G' T y n = block st G T y n" for T y n by (simp add: block_def)
  have "mem st' a = mem st a" if y: "block st G T y n" "a \<in> bytes y n" for T y n a
  proof -
    obtain c where c: "block_at st G c T y n" using y by (auto simp: block_def)
    obtain u where u: "gown G c = Some u" "u \<noteq> Spare"
      using c by (auto simp: block_at_def split: option.splits chunk_use.splits)
    have "a \<in> chunk_block c" using block_at_bytes(1) [OF inv c] y(2) by blast
    then show ?thesis using same(1) [OF u] by (simp add: chunk_same_def)
  qed
  moreover have "mem st' a = mem st a \<and> hdrs st' a = hdrs st a \<and> metas st' a = metas st a" if "a \<in> direct_memory G" for a
  proof -
    from that obtain c d where c: "gown G c = Some (Direct_of d)" "a \<in> chunk_block c" by (auto simp: direct_memory_def)
    have "valid st a" using struct_chunk [OF inv c(1)] c(2) by (simp add: chunk_at_def chunk_block_def)
    moreover have "a \<notin> C" using C [OF c(1)] c(2) by auto
    ultimately show ?thesis using keepsD(1-3) [OF k] by simp
  qed
  ultimately show "evolves {} st G st' G'"
    unfolding evolves_def using g T b' w keeps_valid [OF k] by (simp add: G')
qed

section \<open>Taking a chunk\<close>

lemma vmm_frame_outer: "vmm_frame st st' \<Longrightarrow> outer_globals st st'"
  by (simp add: vmm_frame_def outer_globals_def)

lemma new_chunks_invalid: "new_chunks st ext \<Longrightarrow> c \<in> set ext \<Longrightarrow> a \<in> chunk_block c \<Longrightarrow> \<not> valid st a"
  unfolding new_chunks_def chunk_block_def by fastforce

lemma index_ok_more:
  assumes "index_ok st G" and "\<And>a. unat a < 2 ^ 48 \<Longrightarrow> lz_rtree_get st' a = lz_rtree_get st a"
    and "\<And>c u. gown G c = Some u \<Longrightarrow> gown G' c = Some u"
  shows "index_ok st' G'"
  unfolding index_ok_def
proof (intro allI impI)
  fix a :: addr assume a: "unat a < 2 ^ 48"
  then obtain v where v: "lz_rtree_get st a = Some v" "v \<noteq> 0 \<Longrightarrow> \<exists>u. gown G (chunk_of a) = Some u \<and> v = use_header (chunk_of a) u"
    using assms(1) unfolding index_ok_def by blast
  have "lz_rtree_get st' a = Some v" using assms(2) [OF a] v(1) by simp
  moreover have "\<exists>u. gown G' (chunk_of a) = Some u \<and> v = use_header (chunk_of a) u" if "v \<noteq> 0"
    using v(2) [OF that] assms(3) by blast
  ultimately show "\<exists>v. lz_rtree_get st' a = Some v \<and>
      (v \<noteq> 0 \<longrightarrow> (\<exists>u. gown G' (chunk_of a) = Some u \<and> v = use_header (chunk_of a) u))" by blast
qed

lemma struct_take:
  assumes ok: "mmap_ok env" and inv: "heap_struct st G"
  shows "\<exists>c st' PG. lz_vmm_alloc_chunk env st = Some (c, st') \<and> (c \<noteq> 0 \<longrightarrow> gown G c = None \<and> fresh_chunk st' c) \<and>
    (c = 0 \<longrightarrow> refused st st') \<and>
    heap_struct st' (G\<lparr>gpools := PG, gown := (if c = 0 then gown G else (gown G)(c \<mapsto> Spare))\<rparr>) \<and>
    evolves {} st G st' (G\<lparr>gpools := PG, gown := (if c = 0 then gown G else (gown G)(c \<mapsto> Spare))\<rparr>)"
proof -
  obtain ext c PG st' where run: "lz_vmm_alloc_chunk env st = Some (c, st')"
    and abs: "vmm_alloc_abs (current_node env st) ext (gpools G) = (c, PG)" and new: "new_chunks st ext"
    and inv': "vmm_inv st' PG" and k: "keeps {c} st st'" and fr: "vmm_frame st st'"
    and fresh: "c \<noteq> 0 \<Longrightarrow> fresh_chunk st' c \<and> c \<notin> idle PG"
    and no_mem: "c = 0 \<Longrightarrow> os_mmap env (Getcpu # trace st) (LZ_EXTENT_SIZE + LZ_HUGE_PAGE_SIZE) = None"
    using alloc_chunk_refines [OF ok heap_structD(1) [OF inv]] by blast
  note idl = alloc_abs_idle [OF abs current_node_less]
  note lay = layout_okD [OF heap_structD(3) [OF inv]]
  have pin: "a \<notin> chunk_block d" if a: "a \<in> pinned st G" and d: "d \<in> idle (gpools G) \<union> set ext" for a d
  proof (cases "d \<in> idle (gpools G)")
    case True
    then show ?thesis using lay(5) [OF a] by blast
  next
    case False
    then show ?thesis using new_chunks_invalid [OF new, of d a] lay(3) [OF a] d by blast
  qed
  have own: "d \<noteq> d'" if d: "gown G d = Some u" and d': "d' \<in> idle (gpools G) \<union> set ext" for d d' u
  proof (cases "d' \<in> idle (gpools G)")
    case True
    then show ?thesis using lay(2) [OF d] by blast
  next
    case False
    have "d' \<in> chunk_block d'" by (simp add: chunk_block_def within_def)
    then have "\<not> valid st d'" using new_chunks_invalid [OF new, of d' d'] False d' by blast
    then show ?thesis using chunk_at_valid [OF lay(1) [OF d]] by blast
  qed
  let ?w = "if c = 0 then gown G else (gown G)(c \<mapsto> Spare)"
  let ?G = "G\<lparr>gpools := PG, gown := ?w\<rparr>"
  have cn: "gown G c = None" if "c \<noteq> 0"
    using own [of c _ c] idl that by (cases "gown G c") auto
  have c_block: "c \<in> chunk_block c" by (simp add: chunk_block_def within_def)
  have wn: "?w d = Some u \<longleftrightarrow> gown G d = Some u" if "u \<noteq> Spare" for d u using cn that by auto
  have C: "chunk_block d \<inter> {c} = {}" if d: "gown G d = Some u" for d u
  proof (cases "c = 0")
    case True
    then show ?thesis using struct_base [OF inv d] unat_gt_0 [of d] by (simp add: chunk_base_block) (simp add: chunk_base_def)
  next
    case False
    have cc: "chunk_at st' c" using fresh [OF False] by (simp add: fresh_chunk_def)
    have "d \<noteq> c" using cn [OF False] d by auto
    then show ?thesis using chunk_blocks_disjoint [OF lay(1) [OF d] cc] c_block by blast
  qed
  have root: "g_rtree_root st' = g_rtree_root st" "g_telemetry_matrix st' = g_telemetry_matrix st"
    using fr by (simp_all add: vmm_frame_def)
  have p: "pinned st' ?G = pinned st G" by (simp add: pinned_def root)
  have leaf: "g_rtree_root st (rtree_l1_idx a) \<notin> {c}" if "g_rtree_root st (rtree_l1_idx a) \<noteq> 0" for a
    using pin [OF leaf_pinned [OF that]] idl c_block that by fastforce
  have pc: "c \<notin> pinned st G" if "c \<noteq> 0" using pin [of c c] idl c_block that by blast
  have get: "lz_rtree_get st' a = lz_rtree_get st a" for a
  proof (rule rtree_get_keeps [OF heap_structD(2) [OF inv] k root(1)])
    fix i assume i: "unat i < 8192" "g_rtree_root st i \<noteq> 0"
    have "within (g_rtree_root st i) 131072 (g_rtree_root st i)" by (simp add: within_def)
    then have "g_rtree_root st i \<in> pinned st G" using i unfolding pinned_def by blast
    then show "g_rtree_root st i \<notin> {c}" using pc i(2) by auto
  qed
  have lay': "layout_ok st' ?G"
    unfolding layout_ok_def p
  proof (intro conjI ballI)
    fix d assume d: "d \<in> dom (gown ?G)"
    show "chunk_at st' d"
    proof (cases "gown G d")
      case None
      then show ?thesis using d fresh by (auto simp: fresh_chunk_def split: if_splits)
    next
      case (Some u)
      show ?thesis by (rule chunk_at_keeps [OF lay(1) [OF Some] k])
    qed
    show "d \<notin> idle (gpools ?G)"
    proof (cases "gown G d")
      case None
      then show ?thesis using d fresh by (auto split: if_splits)
    next
      case (Some u)
      then show ?thesis using own [OF Some] idl by auto
    qed
  next
    fix a assume a: "a \<in> pinned st G"
    show "valid st' a" by (rule keeps_valid [OF k lay(3) [OF a]])
    fix d assume "d \<in> dom (gown ?G) \<union> idle (gpools ?G)"
    then have "(\<exists>u. gown G d = Some u) \<or> d \<in> idle (gpools G) \<union> set ext" using idl by (auto split: if_splits)
    then show "a \<notin> chunk_block d" using lay(4) [OF a] pin [OF a] by blast
  qed
  have idx: "index_ok st' ?G" by (rule index_ok_more [OF heap_structD(4) [OF inv] get]) (use cn in auto)
  have heaps: "tlhs st' T = tlhs st T" if "T \<in> gheaps G" for T
  proof -
    have "T \<noteq> c" using pc heap_pinned [OF that, of st] desc_okD(6) [OF heap_structD(5) [OF inv]] that by auto
    then show ?thesis using keepsD(4) [OF k lay(3) [OF heap_pinned [OF that]]] by simp
  qed
  note o = heap_struct_outer [OF inv k C heaps vmm_frame_outer [OF fr] refl _ inv'
      rtree_inv_keeps [OF heap_structD(2) [OF inv] k root(1)] lay' idx]
  have "heap_struct st' ?G" "evolves {} st G st' ?G" by (rule o, assumption, assumption, erule wn)+
  moreover have "c = 0 \<longrightarrow> refused st st'" using alloc_chunk_trace(2) [OF run _ no_mem] by blast
  ultimately show ?thesis using run fresh cn by blast
qed

section \<open>Recording a chunk in the index\<close>

lemma chunk_of_mask: "chunk_of a = a AND NOT (mask 21)"
  by (simp add: chunk_of_def mask_eq_exp_minus_1)

lemma chunk_of_self:
  assumes "chunk_base c"
  shows "chunk_of c = c"
proof (rule chunk_of_block [OF assms])
  show "c \<in> chunk_block c" by (simp add: chunk_block_def within_def)
qed

lemma block_of_chunk:
  assumes "unat a < 2 ^ 48" "chunk_base c"
  shows "block_of a = block_of c \<longleftrightarrow> chunk_of a = c"
proof -
  have "unat c < 2 ^ 48" using assms(2) by (simp add: chunk_base_def)
  from block_of_eq_iff [OF assms(1) this] show ?thesis
    unfolding chunk_of_mask [symmetric] chunk_of_self [OF assms(2)] .
qed

lemma rtree_set_outer: "lz_rtree_set env a m st = Some st' \<Longrightarrow> outer_globals st st'"
  using rtree_set_globals [of env a m st st'] unfolding outer_globals_def by blast

lemma struct_record:
  assumes ok: "mmap_ok env" and inv: "heap_struct st G" and c: "gown G c = Some u" and m: "m = 0 \<or> m = use_header c u"
  shows "\<exists>st'. lz_rtree_set env c m st = Some st' \<and> heap_struct st' G \<and> evolves {} st G st' G \<and>
    (\<forall>a. valid st a \<longrightarrow> mem st' a = mem st a \<and> hdrs st' a = hdrs st a \<and> metas st' a = metas st a) \<and>
    (\<forall>p. lz_rtree_get st' p =
       (if \<not> rtree_refuses env c m st \<and> block_of p = block_of c then Some m else lz_rtree_get st p))"
proof -
  let ?leaf = "g_rtree_root st (rtree_l1_idx c)"
  note lay = layout_okD [OF heap_structD(3) [OF inv]]
  obtain st' where run: "lz_rtree_set env c m st = Some st'" and rt: "rtree_inv st'" and k: "keeps {?leaf} st st'"
    and get: "\<And>p. lz_rtree_get st' p =
       (if \<not> rtree_refuses env c m st \<and> block_of p = block_of c then Some m else lz_rtree_get st p)"
    using rtree_set_spec [OF ok heap_structD(2) [OF inv]] by blast
  note views = rtree_set_views [OF ok run]
  have g: "outer_globals st st'" by (rule rtree_set_outer [OF run])
  have leaf: "?leaf \<notin> chunk_block d" if "chunk_base d" "d \<in> dom (gown G) \<union> idle (gpools G)" for d
  proof (cases "?leaf = 0")
    case True
    then show ?thesis using that(1) unat_gt_0 [of d] by (simp add: chunk_base_block) (simp add: chunk_base_def)
  next
    case False
    then show ?thesis using lay(4,5) [OF leaf_pinned [OF False]] that(2) by blast
  qed
  have C: "chunk_block d \<inter> {?leaf} = {}" if "gown G d = Some v" for d v
    using leaf [OF struct_base [OF inv that]] that by blast
  have vmm: "vmm_inv st' (gpools G)"
  proof (rule vmm_inv_frame [OF heap_structD(1) [OF inv] k])
    have "?leaf \<noteq> d" if "d \<in> idle (gpools G)" for d
      using leaf [OF chunk_at_base [OF vmm_invD(4) [OF heap_structD(1) [OF inv] that]]] that
      by (auto simp: chunk_block_def within_def)
    then show "{?leaf} \<inter> idle (gpools G) = {}" by blast
    show "g_numa_pools st' = g_numa_pools st" "g_global_free_chunks st' = g_global_free_chunks st" "locks_free st'"
      using rtree_set_globals [OF run] vmm_invD(5) [OF heap_structD(1) [OF inv]] by (simp_all add: locks_free_def)
  qed
  have lay': "layout_ok st' G"
    unfolding layout_ok_def
  proof (intro conjI ballI)
    fix d assume "d \<in> dom (gown G)"
    then obtain v where d: "gown G d = Some v" by blast
    show "chunk_at st' d" by (rule chunk_at_keeps [OF lay(1) [OF d] k])
    show "d \<notin> idle (gpools G)" by (rule lay(2) [OF d])
  next
    fix a assume a: "a \<in> pinned st' G"
    have mx: "g_telemetry_matrix st' = g_telemetry_matrix st" using g by (simp add: outer_globals_def)
    have old: "a \<in> pinned st G \<or> valid st' a \<and> \<not> valid st a"
    proof (cases "\<exists>j. unat j < 8192 \<and> g_rtree_root st' j \<noteq> 0 \<and> within (g_rtree_root st' j) 131072 a")
      case True
      then obtain j where j: "unat j < 8192" "g_rtree_root st' j \<noteq> 0" "within (g_rtree_root st' j) 131072 a" by blast
      from rtree_set_root [OF ok run, of j] show ?thesis
      proof
        assume "g_rtree_root st' j = g_rtree_root st j"
        then show ?thesis using j unfolding pinned_def by auto
      qed (use j(3) in blast)
    next
      case False
      then have "a \<in> gheaps G \<or> g_telemetry_matrix st \<noteq> 0 \<and> within (g_telemetry_matrix st) 262144 a"
        using a mx by (auto simp: pinned_def)
      then show ?thesis by (auto simp: pinned_def)
    qed
    then show "valid st' a" using lay(3) keeps_valid [OF k] by blast
    fix d assume d: "d \<in> dom (gown G) \<union> idle (gpools G)"
    show "a \<notin> chunk_block d"
    proof (cases "a \<in> pinned st G")
      case True
      then show ?thesis using lay(4,5) d by blast
    next
      case False
      then have "\<not> valid st a" using old by blast
      moreover have "chunk_at st d" using d lay(1) vmm_invD(4) [OF heap_structD(1) [OF inv]] by blast
      ultimately show ?thesis by (auto simp: chunk_at_def chunk_block_def)
    qed
  qed
  have idx: "index_ok st' G"
    unfolding index_ok_def
  proof (intro allI impI)
    fix a :: addr assume a: "unat a < 2 ^ 48"
    show "\<exists>v. lz_rtree_get st' a = Some v \<and> (v \<noteq> 0 \<longrightarrow> (\<exists>u. gown G (chunk_of a) = Some u \<and> v = use_header (chunk_of a) u))"
    proof (cases "\<not> rtree_refuses env c m st \<and> block_of a = block_of c")
      case True
      then have "chunk_of a = c" using block_of_chunk [OF a struct_base [OF inv c]] by blast
      then show ?thesis using get [of a] True m c by auto
    next
      case False
      then have "lz_rtree_get st' a = lz_rtree_get st a" using get [of a] by (simp only: if_False)
      then show ?thesis using heap_structD(4) [OF inv] a unfolding index_ok_def by simp
    qed
  qed
  have heaps: "tlhs st' T = tlhs st T" if "T \<in> gheaps G" for T by (rule views(4) [OF lay(3) [OF heap_pinned [OF that]]])
  have G': "G = G\<lparr>gpools := gpools G, gown := gown G\<rparr>" by simp
  note o = heap_struct_outer [OF inv k C heaps g G' _ vmm rt lay' idx]
  have "heap_struct st' G" "evolves {} st G st' G" by (rule o, assumption, assumption, rule refl)+
  then show ?thesis using run get views(1-3) by blast
qed

section \<open>Writing to a spare chunk and giving it back\<close>

lemma spare_disjoint:
  assumes "heap_struct st G" "gown G c = Some Spare" "gown G d = Some u" "u \<noteq> Spare"
  shows "chunk_block d \<inter> chunk_block c = {}"
  using chunk_blocks_disjoint [OF struct_chunk [OF assms(1,3)] struct_chunk [OF assms(1,2)]] assms
  by (metis option.inject)

lemma spare_get:
  assumes inv: "heap_struct st G" and c: "gown G c = Some u"
    and k: "keeps (chunk_block c) st st'" and root: "g_rtree_root st' = g_rtree_root st"
  shows "lz_rtree_get st' a = lz_rtree_get st a"
proof (rule rtree_get_keeps [OF heap_structD(2) [OF inv] k root])
  fix i assume i: "unat i < 8192" "g_rtree_root st i \<noteq> 0"
  have "within (g_rtree_root st i) 131072 (g_rtree_root st i)" by (simp add: within_def)
  then have "g_rtree_root st i \<in> pinned st G" using i unfolding pinned_def by blast
  then show "g_rtree_root st i \<notin> chunk_block c" by (rule layout_okD(4) [OF heap_structD(3) [OF inv] _ c])
qed

lemma spare_heaps:
  assumes inv: "heap_struct st G" and c: "gown G c = Some u" and k: "keeps (chunk_block c) st st'" and T: "T \<in> gheaps G"
  shows "tlhs st' T = tlhs st T"
  using keepsD(4) [OF k layout_okD(3) [OF heap_structD(3) [OF inv] heap_pinned [OF T]]]
    layout_okD(4) [OF heap_structD(3) [OF inv] heap_pinned [OF T] c] by blast

lemma struct_spare:
  assumes inv: "heap_struct st G" and c: "gown G c = Some Spare"
    and k: "keeps (chunk_block c) st st'" and g: "same_globals st st'"
  shows "heap_struct st' G" "evolves {} st G st' G"
proof -
  note lay = layout_okD [OF heap_structD(3) [OF inv]]
  have root: "g_rtree_root st' = g_rtree_root st" "g_telemetry_matrix st' = g_telemetry_matrix st"
    using g by (simp_all add: same_globals_def)
  have vmm: "vmm_inv st' (gpools G)"
  proof (rule vmm_inv_frame [OF heap_structD(1) [OF inv] k])
    have "d \<notin> chunk_block c" if "d \<in> idle (gpools G)" for d
    proof -
      have "d \<noteq> c" using lay(2) [OF c] that by blast
      moreover have "d \<in> chunk_block d" by (simp add: chunk_block_def within_def)
      ultimately show ?thesis
        using chunk_blocks_disjoint [OF vmm_invD(4) [OF heap_structD(1) [OF inv] that] lay(1) [OF c]] by blast
    qed
    then show "chunk_block c \<inter> idle (gpools G) = {}" by blast
    show "g_numa_pools st' = g_numa_pools st" "g_global_free_chunks st' = g_global_free_chunks st" "locks_free st'"
      using g vmm_invD(5) [OF heap_structD(1) [OF inv]] by (simp_all add: locks_free_def same_globals_def)
  qed
  have "pinned st' G = pinned st G" by (simp add: pinned_def root)
  then have lay': "layout_ok st' G"
    using heap_structD(3) [OF inv] chunk_at_keeps [OF _ k] keeps_valid [OF k] unfolding layout_ok_def by auto
  have idx: "index_ok st' G" by (rule index_ok_more [OF heap_structD(4) [OF inv] spare_get [OF inv c k root(1)]])
  have og: "outer_globals st st'" using g by (simp add: same_globals_def outer_globals_def)
  have G': "G = G\<lparr>gpools := gpools G, gown := gown G\<rparr>" by simp
  note o = heap_struct_outer [OF inv k spare_disjoint [OF inv c] spare_heaps [OF inv c k] og G' _ vmm
      rtree_inv_keeps [OF heap_structD(2) [OF inv] k root(1)] lay' idx]
  show "heap_struct st' G" "evolves {} st G st' G" by (rule o, assumption+, rule refl)+
qed

lemma free_chunk_metas:
  "lz_vmm_free_chunk c st = Some st' \<Longrightarrow> x \<notin> payload_block c \<Longrightarrow> metas st' x = metas st x"
  by (auto simp: lz_vmm_free_chunk_def get_hdr_def pool_lock_def pool_unlock_def upd_hdr_def Let_def
      global_insert_def global_push_def release_payload_def sys_madvise_def zero_pages_def fill_def payload_block_def
      global_pool_lock_def global_pool_unlock_def split: if_splits bind_splits)

lemma struct_give:
  assumes inv: "heap_struct st G" and c: "gown G c = Some Spare"
    and h: "ch_magic (hdrs st c) = LZ_CHUNK_MAGIC_V2" "unat (ch_node_id (hdrs st c)) < 16"
    and idx0: "\<And>a. unat a < 2 ^ 48 \<Longrightarrow> chunk_of a = c \<Longrightarrow> lz_rtree_get st a = Some 0"
  shows "\<exists>st' PG. lz_vmm_free_chunk c st = Some st' \<and>
    heap_struct st' (G\<lparr>gpools := PG, gown := (gown G)(c := None)\<rparr>) \<and>
    evolves {} st G st' (G\<lparr>gpools := PG, gown := (gown G)(c := None)\<rparr>) \<and>
    metas st' (c + 64) = metas st (c + 64) \<and> valid st' (c + 64)"
proof -
  note lay = layout_okD [OF heap_structD(3) [OF inv]]
  define n where "n = unat (ch_node_id (hdrs st c))"
  have n: "n < 16" "ch_node_id (hdrs st c) = of_nat n" using h(2) by (simp_all add: n_def)
  let ?PG = "vmm_free_abs n c (gpools G)"
  let ?G = "G\<lparr>gpools := ?PG, gown := (gown G)(c := None)\<rparr>"
  obtain st' where run: "lz_vmm_free_chunk c st = Some st'" and vmm: "vmm_inv st' ?PG"
    and k: "keeps (chunk_block c) st st'" and fr: "vmm_frame st st'"
    using free_chunk_refines [OF heap_structD(1) [OF inv] lay(1,2) [OF c] h(1) n] by blast
  have root: "g_rtree_root st' = g_rtree_root st" "g_telemetry_matrix st' = g_telemetry_matrix st"
    using fr by (simp_all add: vmm_frame_def)
  have p: "pinned st' ?G = pinned st G" by (simp add: pinned_def root)
  have lay': "layout_ok st' ?G"
    unfolding layout_ok_def p
  proof (intro conjI ballI)
    fix d assume "d \<in> dom (gown ?G)"
    then obtain u where d: "gown G d = Some u" "d \<noteq> c" by (auto split: if_splits)
    show "chunk_at st' d" by (rule chunk_at_keeps [OF lay(1) [OF d(1)] k])
    show "d \<notin> idle (gpools ?G)" using lay(2) [OF d(1)] d(2) free_abs_idle [OF n(1)] by simp
  next
    fix a assume a: "a \<in> pinned st G"
    show "valid st' a" by (rule keeps_valid [OF k lay(3) [OF a]])
    fix d assume "d \<in> dom (gown ?G) \<union> idle (gpools ?G)"
    then have "(\<exists>u. gown G d = Some u) \<or> d \<in> idle (gpools G)"
      using c free_abs_idle [OF n(1), of c "gpools G"] by (auto split: if_splits)
    then show "a \<notin> chunk_block d" using lay(4,5) [OF a] by blast
  qed
  have idx: "index_ok st' ?G"
    unfolding index_ok_def
  proof (intro allI impI)
    fix a :: addr assume a: "unat a < 2 ^ 48"
    obtain v where v: "lz_rtree_get st a = Some v" "v \<noteq> 0 \<Longrightarrow> \<exists>u. gown G (chunk_of a) = Some u \<and> v = use_header (chunk_of a) u"
      using heap_structD(4) [OF inv] a unfolding index_ok_def by blast
    have "lz_rtree_get st' a = Some v" using spare_get [OF inv c k root(1)] v(1) by simp
    moreover have "\<exists>u. gown ?G (chunk_of a) = Some u \<and> v = use_header (chunk_of a) u" if "v \<noteq> 0"
    proof -
      have "chunk_of a \<noteq> c" using idx0 [OF a] v(1) that by auto
      then show ?thesis using v(2) [OF that] by auto
    qed
    ultimately show "\<exists>v. lz_rtree_get st' a = Some v \<and> (v \<noteq> 0 \<longrightarrow> (\<exists>u. gown ?G (chunk_of a) = Some u \<and> v = use_header (chunk_of a) u))"
      by blast
  qed
  have w: "((gown G)(c := None)) d = Some u \<longleftrightarrow> gown G d = Some u" if "u \<noteq> Spare" for d u using c that by auto
  note o = heap_struct_outer [OF inv k spare_disjoint [OF inv c] spare_heaps [OF inv c k] vmm_frame_outer [OF fr] refl _ vmm
      rtree_inv_keeps [OF heap_structD(2) [OF inv] k root(1)] lay' idx]
  have "heap_struct st' ?G" "evolves {} st G st' ?G" by (rule o, assumption+, erule w)+
  moreover have "c + 64 \<notin> payload_block c"
    using payload_block_iff [OF lay(1) [OF c], of "c + 64"] struct_base [OF inv c]
    by (simp add: chunk_base_def unat_word_ariths)
  then have "metas st' (c + 64) = metas st (c + 64)" by (rule free_chunk_metas [OF run])
  moreover have "valid st' (c + 64)" by (rule keeps_valid [OF k meta_in_chunk(2) [OF lay(1) [OF c]]])
  ultimately show ?thesis using run by blast
qed

text \<open>Destroying a chunk: the entry of the index is cleared first.\<close>

lemma struct_discard:
  assumes ok: "mmap_ok env" and inv: "heap_struct st G" and c: "gown G c = Some Spare"
    and h: "ch_magic (hdrs st c) = LZ_CHUNK_MAGIC_V2" "unat (ch_node_id (hdrs st c)) < 16"
  shows "\<exists>st' PG. (do { st \<leftarrow> lz_rtree_clear env c st; lz_vmm_free_chunk c st }) = Some st' \<and>
    heap_struct st' (G\<lparr>gpools := PG, gown := (gown G)(c := None)\<rparr>) \<and>
    evolves {} st G st' (G\<lparr>gpools := PG, gown := (gown G)(c := None)\<rparr>) \<and>
    metas st' (c + 64) = metas st (c + 64) \<and> valid st' (c + 64)"
proof -
  obtain st1 where st1: "lz_rtree_set env c 0 st = Some st1" "heap_struct st1 G" "evolves {} st G st1 G"
    and same: "\<forall>a. valid st a \<longrightarrow> mem st1 a = mem st a \<and> hdrs st1 a = hdrs st a \<and> metas st1 a = metas st a"
    and get: "\<forall>p. lz_rtree_get st1 p = (if \<not> rtree_refuses env c 0 st \<and> block_of p = block_of c then Some 0 else lz_rtree_get st p)"
    using struct_record [OF ok inv c, of 0] by blast
  have v: "valid st c" "valid st (c + 64)"
    using chunk_at_valid [OF struct_chunk [OF inv c]] meta_in_chunk(2) [OF struct_chunk [OF inv c]] by blast+
  have idx0: "lz_rtree_get st1 a = Some 0" if "unat a < 2 ^ 48" "chunk_of a = c" for a
    using get block_of_chunk [OF that(1) struct_base [OF inv c]] that(2) by (simp add: rtree_refuses_def)
  have h1: "hdrs st1 c = hdrs st c" using same v(1) by blast
  obtain st2 PG where st2: "lz_vmm_free_chunk c st1 = Some st2"
    "heap_struct st2 (G\<lparr>gpools := PG, gown := (gown G)(c := None)\<rparr>)"
    "evolves {} st1 G st2 (G\<lparr>gpools := PG, gown := (gown G)(c := None)\<rparr>)"
    "metas st2 (c + 64) = metas st1 (c + 64)" "valid st2 (c + 64)"
    using struct_give [OF st1(2) c h [folded h1] idx0] by blast
  moreover have "evolves {} st G st2 (G\<lparr>gpools := PG, gown := (gown G)(c := None)\<rparr>)"
    using evolves_trans [OF st1(3) st2(3)] by simp
  moreover have "metas st2 (c + 64) = metas st (c + 64)" using st2(4) same v(2) by simp
  moreover have "(do { st \<leftarrow> lz_rtree_clear env c st; lz_vmm_free_chunk c st }) = Some st2"
    by (simp add: lz_rtree_clear_def st1(1) st2(1))
  ultimately show ?thesis by blast
qed

end
