(* ===== verification/Heap_Bins.thy ===== *)
theory Heap_Bins
  imports Heap_Chunks
begin

text \<open>
  Moving slabs between the lists of their bin, and the counters of a heap: the blocks stay what they
  are.
\<close>

section \<open>Counters\<close>

lemma struct_tlh:
  assumes inv: "heap_struct st G" and st': "st' = st\<lparr>stats := S, tlhs := (tlhs st)(T := h)\<rparr>"
    and h: "tl_bins h = tl_bins (tlhs st T)" "tl_active_spans h = tl_active_spans (tlhs st T)"
      "tl_stat_slot h = tl_stat_slot (tlhs st T)"
  shows "heap_struct st' G" "tlh_outer h = tlh_outer (tlhs st T) \<Longrightarrow> evolves {} st G st' G"
proof -
  have s: "inner_step st st'" using h(3) by (simp add: st' inner_step_def same_globals_def)
  have same: "chunk_same st st' c" "node_same st st' a" for c a
    by (simp_all add: st' chunk_same_def node_same_def meta_next_def meta_prev_def slab_node_def span_node_def valid_def)
  show "heap_struct st' G"
  proof (rule heap_struct_inner [OF inv s heap_structD(5) [OF inv] refl refl])
    show "slab_ok st' G c T' i" if o: "gown G c = Some (Slab_of T' i)" for c T' i
      by (rule slab_ok_same [OF heap_structD(6) [OF inv o] same(1) struct_base [OF inv o]
            desc_okD(2) [OF heap_structD(5) [OF inv] o]]) (simp_all add: st')
    show "span_ok st' c T'" if o: "gown G c = Some (Span_of T')" for c T'
      by (rule span_ok_same [OF heap_structD(7) [OF inv o] same(1)])
    show "lists_ok st' G T'" if T': "T' \<in> gheaps G" for T'
      by (rule lists_ok_same [OF heap_structD(8) [OF inv T'] same(2) same(2)])
         (use lists_okD(4) [OF heap_structD(8) [OF inv T']] h in \<open>simp_all add: st' valid_def\<close>)
  qed simp
  have "span_start st' = span_start st" by (simp add: span_start_def fun_eq_iff st')
  then have "block st' G T' y n = block st G T' y n" for T' y n
    by (simp only: block_def block_at_def)
  then show "evolves {} st G st' G" if "tlh_outer h = tlh_outer (tlhs st T)"
    by (intro evolves_inner [OF s refl]) (use that in \<open>simp_all add: st'\<close>)
qed

text \<open>A step that only counts: nothing but counters of one heap and its statistics changes.\<close>

definition counts :: "addr \<Rightarrow> lz_state \<Rightarrow> lz_state \<Rightarrow> bool" where
  "counts T st st' \<longleftrightarrow> (\<exists>S h. st' = st\<lparr>stats := S, tlhs := (tlhs st)(T := h)\<rparr> \<and>
     tl_bins h = tl_bins (tlhs st T) \<and> tl_active_spans h = tl_active_spans (tlhs st T) \<and>
     tl_stat_slot h = tl_stat_slot (tlhs st T) \<and> tlh_outer h = tlh_outer (tlhs st T))"

lemma countsI:
  assumes "st' = st\<lparr>stats := S, tlhs := (tlhs st)(T := h)\<rparr>"
    "tl_bins h = tl_bins (tlhs st T)" "tl_active_spans h = tl_active_spans (tlhs st T)"
    "tl_stat_slot h = tl_stat_slot (tlhs st T)" "tlh_outer h = tlh_outer (tlhs st T)"
  shows "counts T st st'"
  unfolding counts_def using assms by blast

lemma counts_struct:
  assumes inv: "heap_struct st G" and "counts T st st'"
  shows "heap_struct st' G" "evolves {} st G st' G" "metas st' = metas st" "mem st' = mem st"
proof -
  obtain S h where s: "st' = st\<lparr>stats := S, tlhs := (tlhs st)(T := h)\<rparr>" "tl_bins h = tl_bins (tlhs st T)"
    "tl_active_spans h = tl_active_spans (tlhs st T)" "tl_stat_slot h = tl_stat_slot (tlhs st T)"
    "tlh_outer h = tlh_outer (tlhs st T)"
    using assms(2) by (auto simp: counts_def)
  show "heap_struct st' G" "evolves {} st G st' G" using struct_tlh [OF inv s(1-4)] s(5) by blast+
  show "metas st' = metas st" "mem st' = mem st" by (simp_all add: s(1))
qed

lemma free_batch_counts:
  assumes v: "valid st T" and s: "tl_stat_slot (tlhs st T) = 0 \<or> valid st (tl_stat_slot (tlhs st T))"
  shows "\<exists>st'. telemetry_free_batch T n st = Some st' \<and> counts T st st'"
proof -
  let ?h = "tlhs st T"
  let ?n = "tl_local_bytes_free_batch ?h + n"
  have c: "counts T st st"
    by (rule countsI [where S = "stats st" and h = ?h]) simp_all
  have c1: "counts T st (st\<lparr>tlhs := (tlhs st)(T := ?h\<lparr>tl_local_bytes_free_batch := ?n\<rparr>)\<rparr>)"
    by (rule countsI [where S = "stats st"]) (rule refl | simp add: tlh_outer_def)+
  have c2: "counts T st (st\<lparr>stats := S, tlhs := (tlhs st)(T := ?h\<lparr>tl_local_bytes_free_batch := 0\<rparr>)\<rparr>)" for S
    by (rule countsI [where S = S]) (rule refl | simp add: tlh_outer_def)+
  show ?thesis
    using v s c c1 c2
    by (cases "tl_stat_slot ?h = 0") (simp_all add: telemetry_free_batch_def get_tlh_def upd_tlh_def upd_stat_def valid_def Let_def)
qed

lemma alloc_batch_counts:
  assumes v: "valid st T" and s: "tl_stat_slot (tlhs st T) = 0 \<or> valid st (tl_stat_slot (tlhs st T))"
  shows "\<exists>st'. telemetry_alloc_batch T n st = Some st' \<and> counts T st st'"
proof -
  let ?h = "tlhs st T"
  let ?b = "tl_bytes_allocated ?h + n"
  have c1: "counts T st (st\<lparr>tlhs := (tlhs st)(T := ?h\<lparr>tl_bytes_allocated := ?b\<rparr>)\<rparr>)"
    by (rule countsI [where S = "stats st"]) (rule refl | simp add: tlh_outer_def)+
  have c2: "counts T st (st\<lparr>tlhs := (tlhs st)(T := ?h\<lparr>tl_bytes_allocated := ?b, tl_local_bytes_alloc_batch := k\<rparr>)\<rparr>)" for k
    by (rule countsI [where S = "stats st"]) (rule refl | simp add: tlh_outer_def)+
  have c3: "counts T st (st\<lparr>stats := S, tlhs := (tlhs st)(T := ?h\<lparr>tl_bytes_allocated := ?b, tl_local_bytes_alloc_batch := k\<rparr>)\<rparr>)" for S k
    by (rule countsI [where S = S]) (rule refl | simp add: tlh_outer_def)+
  show ?thesis
    using v s c1 c2 c3
    by (cases "tl_stat_slot ?h = 0") (simp_all add: telemetry_alloc_batch_def get_tlh_def upd_tlh_def upd_stat_def valid_def Let_def)
qed

lemma stat_valid:
  assumes inv: "heap_struct st G" and T: "T \<in> gheaps G"
  shows "valid st T" "tl_stat_slot (tlhs st T) = 0 \<or> valid st (tl_stat_slot (tlhs st T))"
  using lists_okD(4) [OF heap_structD(8) [OF inv T]] stat_pinned [OF heap_structD(9) [OF inv T]]
    layout_okD(3) [OF heap_structD(3) [OF inv]] by blast+

section \<open>Moves between the lists of a bin\<close>

lemma slab_eqI:
  "r\<lparr>sl_next := 0, sl_prev := 0\<rparr> = s\<lparr>sl_next := 0, sl_prev := 0\<rparr> \<Longrightarrow> sl_next r = sl_next s \<Longrightarrow> sl_prev r = sl_prev s \<Longrightarrow> r = s"
  by (cases r; cases s) simp

lemma span_eqI:
  "r\<lparr>sp_next := 0, sp_prev := 0\<rparr> = s\<lparr>sp_next := 0, sp_prev := 0\<rparr> \<Longrightarrow> sp_next r = sp_next s \<Longrightarrow> sp_prev r = sp_prev s \<Longrightarrow> r = s"
  by (cases r; cases s) simp

lemma meta_eqI: "mcore m = mcore m' \<Longrightarrow> mnext m = mnext m' \<Longrightarrow> mprev m = mprev m' \<Longrightarrow> m = m'"
  by (cases m; cases m') (simp_all add: slab_eqI span_eqI)

lemma bin_step_metas:
  assumes "bin_step T i X st st'" "a \<notin> X"
  shows "metas st' a = metas st a"
proof (rule meta_eqI)
  show "mcore (metas st' a) = mcore (metas st a)" by (rule bin_stepD(3) [OF assms(1)])
  have "node_same st st' a" by (rule bin_stepD(7) [OF assms])
  then show "mnext (metas st' a) = mnext (metas st a)" "mprev (metas st' a) = mprev (metas st a)"
    by (simp_all add: node_same_def meta_next_def meta_prev_def)
qed

lemma other_bins_outer: "other_bins i h' = other_bins i h \<Longrightarrow> tlh_outer h' = tlh_outer h"
proof -
  assume "other_bins i h' = other_bins i h"
  from arg_cong [OF this, of tlh_outer] show ?thesis by (simp add: erase_bin_def tlh_outer_def)
qed

lemma slab_meta_outside:
  assumes inv: "heap_struct st G" and s: "gown G (s - 64) = Some u" "\<And>d. u \<noteq> Direct_of d" and a: "a \<in> direct_memory G"
  shows "a \<noteq> s"
  using direct_outside [OF inv s a] meta_in_chunk(1) [OF struct_chunk [OF inv s(1)]] by auto

lemma bin_update_evolves:
  assumes inv: "heap_struct st G" and T: "T \<in> gheaps G" "i < 40"
    and step: "bin_step T i X st st'" and X: "\<And>s. s \<in> X \<Longrightarrow> gown G (s - 64) \<in> {Some (Slab_of T i), Some Spare}"
    and l: "bin_lists T i cur ps fs st'"
    and new: "\<And>s. s \<in> bin_slabs cur ps fs \<Longrightarrow> gown G (s - 64) = Some (Slab_of T i) \<or>
       gown G (s - 64) = Some Spare \<and> slab_ok st G (s - 64) T i \<and> slab_used G (s - 64) i = {}"
    and old: "\<And>c. gown G c = Some (Slab_of T i) \<Longrightarrow> c + 64 \<notin> bin_slabs cur ps fs \<Longrightarrow> slab_used G c i = {}"
  shows "evolves {} st G st' (bin_desc T i cur ps fs G)"
proof (rule evolves_inner)
  note D = bin_stepD [OF step]
  let ?G = "bin_desc T i cur ps fs G"
  show "inner_step st st'" by (rule D(1))
  show "tlh_outer (tlhs st' T') = tlh_outer (tlhs st T')" for T'
    using D(5) [of T'] other_bins_outer [OF D(6)] by (cases "T' = T") auto
  have own: "gown ?G c = (if c + 64 \<in> bin_slabs cur ps fs then Some (Slab_of T i)
      else if gown G c = Some (Slab_of T i) then Some Spare else gown G c)" for c
    by (simp add: bin_desc_def)
  show "gown ?G c = Some (Direct_of d) \<longleftrightarrow> gown G c = Some (Direct_of d)" for c d
    unfolding own using new [of "c + 64"] by auto
  show "mem st' a = mem st a \<and> metas st' a = metas st a" if "a \<in> direct_memory G" for a
  proof -
    have "a \<notin> X"
    proof
      assume "a \<in> X"
      then show False using X [of a] slab_meta_outside [OF inv, of a _ a] that by auto
    qed
    then show ?thesis using bin_step_metas [OF step] D(2) by simp
  qed
  have "block_at st' ?G c T' y n = block_at st G c T' y n" for c T' y n
  proof -
    have u: "slab_used ?G c j = slab_used G c j" for j by (simp add: slab_used_def bin_desc_def)
    show ?thesis
    proof (cases "gown G c = Some (Slab_of T i) \<or> c + 64 \<in> bin_slabs cur ps fs")
      case True
      then show ?thesis using new [of "c + 64"] old [of c] u by (auto simp: block_at_def own)
    next
      case False
      then have o: "gown ?G c = gown G c" by (simp add: own)
      have "span_start st' c y n = span_start st c y n" if "gown G c = Some (Span_of T'')" for T''
      proof -
        have "c + 64 \<notin> X" using X [of "c + 64"] that by auto
        then show ?thesis by (simp add: span_start_def bin_step_metas [OF step])
      qed
      then show ?thesis unfolding block_at_def o u by (simp split: option.splits chunk_use.splits)
    qed
  qed
  then show "block st' ?G T' y n = block st G T' y n" for T' y n by (simp add: block_def)
qed (simp_all add: bin_desc_def bin_stepD(2) [OF step])

lemmas bin_move = bin_update bin_update_evolves

end
