(* ===== verification/Heap_Release.thy ===== *)
theory Heap_Release
  imports Heap_Bins
begin

text \<open>
  Freeing an object of a slab: \<open>slab_release\<close> with the moves of the slab it may cause, rescue from
  the full list and recycling of a slab that became empty.
\<close>

section \<open>The status of the slabs of one bin\<close>

text \<open>Two descriptions that differ in one slab and the lists of its bin.\<close>

definition near :: "addr \<Rightarrow> nat \<Rightarrow> addr \<Rightarrow> heap_desc \<Rightarrow> heap_desc \<Rightarrow> bool" where
  "near T i c G G' \<longleftrightarrow> gheaps G' = gheaps G \<and>
     (\<forall>d. d \<noteq> c \<longrightarrow> gcarved G' d = gcarved G d \<and> gfree G' d = gfree G d) \<and>
     (\<forall>T' j. T' \<noteq> T \<or> j \<noteq> i \<longrightarrow> gpart G' T' j = gpart G T' j \<and> gfull G' T' j = gfull G T' j) \<and>
     set (gpart G' T i) \<subseteq> insert (c + 64) (set (gpart G T i)) \<and>
     set (gfull G' T i) \<subseteq> insert (c + 64) (set (gfull G T i))"

lemma near_refl [simp]: "near T i c G G"
  by (auto simp: near_def)

lemma near_trans: "near T i c G G' \<Longrightarrow> near T i c G' G'' \<Longrightarrow> near T i c G G''"
  unfolding near_def by (simp, blast)

lemma near_slab: "near T i c G (G\<lparr>gcarved := (gcarved G)(c := m), gfree := (gfree G)(c := F)\<rparr>)"
    "near T i c G (G\<lparr>gcarved := (gcarved G)(c := m)\<rparr>)" "near T i c G (G\<lparr>gfree := (gfree G)(c := F)\<rparr>)"
    "near T i c G (G\<lparr>gpools := P, gown := w\<rparr>)"
  by (auto simp: near_def)

lemma near_bin:
  "set ps \<subseteq> insert (c + 64) (set (gpart G T i)) \<Longrightarrow> set fs \<subseteq> insert (c + 64) (set (gfull G T i)) \<Longrightarrow>
    near T i c G (bin_desc T i cur ps fs G)"
  by (auto simp: near_def bin_desc_def)

lemma status_near:
  assumes ok: "status_ok G" "desc_ok G" and c: "\<And>T' j. gown G c = Some (Slab_of T' j) \<Longrightarrow> T' = T \<and> j = i"
    and n: "near T i c G G'"
    and p: "c + 64 \<in> set (gpart G' T i) \<Longrightarrow> gcarved G' c = slots i \<and> gfree G' c \<noteq> [] \<and> length (gfree G' c) < slots i"
    and f: "c + 64 \<in> set (gfull G' T i) \<Longrightarrow> gcarved G' c = slots i \<and> gfree G' c = []"
  shows "status_ok G'"
proof -
  have other: "s - 64 \<noteq> c \<or> (T' = T \<and> j = i)" if "T' \<in> gheaps G" "j < 40" "s \<in> desc_slabs G T' j" for T' j s
    using desc_okD(4) [OF ok(2) that(1,2)] that(3) c by auto
  have h: "gheaps G' = gheaps G" using n by (simp add: near_def)
  have d: "gcarved G' d = gcarved G d" "gfree G' d = gfree G d" if "d \<noteq> c" for d using n that by (simp_all add: near_def)
  have l: "gpart G' T' j = gpart G T' j" "gfull G' T' j = gfull G T' j" if "T' \<noteq> T \<or> j \<noteq> i" for T' j
    using n that by (auto simp: near_def)
  have c64: "s = c + 64" if "s - 64 = c" for s :: addr using that by auto
  have "gcarved G' (s - 64) = slots j \<and> gfree G' (s - 64) \<noteq> [] \<and> length (gfree G' (s - 64)) < slots j"
    if T': "T' \<in> gheaps G" "j < 40" "s \<in> set (gpart G' T' j)" for T' j s
  proof (cases "s - 64 = c")
    case True
    have "T' = T \<and> j = i"
    proof (rule ccontr)
      assume no: "\<not> (T' = T \<and> j = i)"
      then have "s \<in> desc_slabs G T' j" using T'(3) l [of T' j] by (simp add: bin_slabs_def)
      then show False using other [OF T'(1,2)] no True by blast
    qed
    then show ?thesis using p c64 [OF True] True T'(3) by simp
  next
    case False
    then have "s \<in> set (gpart G T' j)" using n T'(3) l by (cases "T' = T \<and> j = i") (auto simp: near_def)
    then show ?thesis using status_okD(1) [OF ok(1) T'(1,2)] d [OF False] by simp
  qed
  moreover have "gcarved G' (s - 64) = slots j \<and> gfree G' (s - 64) = []"
    if T': "T' \<in> gheaps G" "j < 40" "s \<in> set (gfull G' T' j)" for T' j s
  proof (cases "s - 64 = c")
    case True
    have "T' = T \<and> j = i"
    proof (rule ccontr)
      assume no: "\<not> (T' = T \<and> j = i)"
      then have "s \<in> desc_slabs G T' j" using T'(3) l [of T' j] by (simp add: bin_slabs_def)
      then show False using other [OF T'(1,2)] no True by blast
    qed
    then show ?thesis using f c64 [OF True] True T'(3) by simp
  next
    case False
    then have "s \<in> set (gfull G T' j)" using n T'(3) l by (cases "T' = T \<and> j = i") (auto simp: near_def)
    then show ?thesis using status_okD(2) [OF ok(1) T'(1,2)] d [OF False] by simp
  qed
  ultimately show ?thesis unfolding status_ok_def h by blast
qed

section \<open>Rescue\<close>

lemma bin_desc_same:
  assumes "desc_ok G" "T \<in> gheaps G" "i < 40" "bin_slabs cur ps fs = desc_slabs G T i"
  shows "gown (bin_desc T i cur ps fs G) = gown G"
proof
  fix c show "gown (bin_desc T i cur ps fs G) c = gown G c"
    using desc_okD(4) [OF assms(1-3), of "c + 64"] assms(4) by (simp add: bin_desc_def)
qed

lemma bin_desc_sel [simp]:
  "gpools (bin_desc T i cur ps fs G) = gpools G" "gheaps (bin_desc T i cur ps fs G) = gheaps G"
  "gcarved (bin_desc T i cur ps fs G) = gcarved G" "gfree (bin_desc T i cur ps fs G) = gfree G"
  "gspans (bin_desc T i cur ps fs G) = gspans G"
  "gcur (bin_desc T i cur ps fs G) T i = cur" "gpart (bin_desc T i cur ps fs G) T i = ps"
  "gfull (bin_desc T i cur ps fs G) T i = fs"
  by (simp_all add: bin_desc_def)

lemma slab_of_bin:
  assumes inv: "heap_struct st G" and c: "gown G c = Some (Slab_of T i)"
  shows "T \<in> gheaps G" "i < 40" "c + 64 \<in> desc_slabs G T i" "c + 64 \<noteq> 0"
    "bin_lists T i (gcur G T i) (gpart G T i) (gfull G T i) st"
proof -
  note ok = heap_structD(5) [OF inv]
  show T: "T \<in> gheaps G" "i < 40" by (rule desc_okD(1,2) [OF ok c])+
  show "c + 64 \<in> desc_slabs G T i" using desc_okD(4) [OF ok T, of "c + 64"] c by simp
  show l: "bin_lists T i (gcur G T i) (gpart G T i) (gfull G T i) st" by (rule lists_okD(1) [OF heap_structD(8) [OF inv T(1)] T(2)])
  show "c + 64 \<noteq> 0" using bin_listsD(8) [OF l] \<open>c + 64 \<in> desc_slabs G T i\<close> by blast
qed

lemma slab_core:
  assumes "mcore (metas st' s) = mcore (metas st s)" "metas st s = MSlab r"
  obtains r' where "metas st' s = MSlab r'" "sl_used_objects r' = sl_used_objects r" "sl_max_objects r' = sl_max_objects r"
    "sl_block_size r' = sl_block_size r" "sl_size_class r' = sl_size_class r"
proof -
  have "mcore (metas st' s) = mcore (MSlab r)" using assms by simp
  from mcore_slab [OF this] obtain r' where r': "metas st' s = MSlab r'"
    "r'\<lparr>sl_next := 0, sl_prev := 0\<rparr> = r\<lparr>sl_next := 0, sl_prev := 0\<rparr>" by blast
  show thesis
  proof (rule that [OF r'(1)])
    show "sl_used_objects r' = sl_used_objects r" using arg_cong [OF r'(2), of sl_used_objects] by simp
    show "sl_max_objects r' = sl_max_objects r" using arg_cong [OF r'(2), of sl_max_objects] by simp
    show "sl_block_size r' = sl_block_size r" using arg_cong [OF r'(2), of sl_block_size] by simp
    show "sl_size_class r' = sl_size_class r" using arg_cong [OF r'(2), of sl_size_class] by simp
  qed
qed

lemma struct_rescue:
  assumes inv: "heap_struct st G" and c: "gown G c = Some (Slab_of T i)" and f: "c + 64 \<in> set (gfull G T i)"
  defines "G' \<equiv> bin_desc T i (gcur G T i) ((c + 64) # gpart G T i) (remove1 (c + 64) (gfull G T i)) G"
  shows "\<exists>st'. lz_tlh_rescue_from_full T (c + 64) st = Some st' \<and> heap_struct st' G' \<and> evolves {} st G st' G' \<and>
    gown G' = gown G \<and> mcore (metas st' (c + 64)) = mcore (metas st (c + 64)) \<and> hdrs st' = hdrs st"
proof -
  note b = slab_of_bin [OF inv c]
  obtain xs ys where fs: "gfull G T i = xs @ (c + 64) # ys" using split_list [OF f] by blast
  have dist: "distinct (gfull G T i)" by (rule fulls.listed_distinct [OF bin_listsD(4) [OF b(5)]])
  then have rm: "remove1 (c + 64) (gfull G T i) = xs @ ys" using fs by (simp add: remove1_append)
  obtain r where r: "metas st (c + 64) = MSlab r" "slab_rep st c i (gcarved G c) (gfree G c) r" by (rule slab_record [OF inv c])
  have sc: "sl_size_class r = of_nat i" using r(2) by (simp add: slab_rep_def slab_shape_def)
  obtain st' where run: "lz_tlh_rescue_from_full T (c + 64) st = Some st'"
    and l: "bin_lists T i (gcur G T i) ((c + 64) # gpart G T i) (xs @ ys) st'"
    and step: "bin_step T i (desc_slabs G T i) st st'"
    using rescue_moves [OF b(5) [unfolded fs] r(1) sc] b(2) fs by auto
  have eq: "bin_slabs (gcur G T i) ((c + 64) # gpart G T i) (xs @ ys) = desc_slabs G T i"
    unfolding bin_slabs_def fs by auto
  have own: "gown G (s - 64) = Some (Slab_of T i)" if "s \<in> desc_slabs G T i" for s
    using that desc_okD(4) [OF heap_structD(5) [OF inv] b(1,2)] by blast
  have "heap_struct st' G'"
    unfolding G'_def rm by (rule bin_update [OF inv b(1,2) step _ l]) (use own eq in auto)
  moreover have "evolves {} st G st' G'"
    unfolding G'_def rm by (rule bin_update_evolves [OF inv b(1,2) step _ l])
      (use own eq desc_okD(4) [OF heap_structD(5) [OF inv] b(1,2)] in auto)
  moreover have "gown G' = gown G" unfolding G'_def rm by (rule bin_desc_same [OF heap_structD(5) [OF inv] b(1,2) eq])
  ultimately show ?thesis using run bin_stepD(1,3) [OF step] by (auto simp: inner_step_def)
qed

section \<open>Recycling\<close>

lemma chunk_of_meta: "chunk_at st c \<Longrightarrow> chunk_of (c + 64) = c"
  by (rule chunk_of_block [OF chunk_at_base meta_in_chunk(1)])

lemma struct_destroy:
  assumes ok: "mmap_ok env" and inv: "heap_struct st G" and c: "gown G c = Some Spare" and h: "hdr_ok st c T ty"
  shows "\<exists>st' PG. lz_slab_destroy env (c + 64) st = Some st' \<and>
    heap_struct st' (G\<lparr>gpools := PG, gown := (gown G)(c := None)\<rparr>) \<and>
    evolves {} st G st' (G\<lparr>gpools := PG, gown := (gown G)(c := None)\<rparr>) \<and>
    metas st' (c + 64) = metas st (c + 64) \<and> valid st' (c + 64)"
proof -
  have "get_hdr st c = Some (hdrs st c)" using chunk_at_valid [OF struct_chunk [OF inv c]] by (simp add: get_hdr_def)
  then have "lz_slab_destroy env (c + 64) st = (do { st \<leftarrow> lz_rtree_clear env c st; lz_vmm_free_chunk c st })"
    using h chunk_of_meta [OF struct_chunk [OF inv c]] by (simp add: lz_slab_destroy_def hdr_ok_def)
  then show ?thesis using struct_discard [OF ok inv c] h by (simp add: hdr_ok_def)
qed

text \<open>A slab without an object in use leaves its bin and is destroyed.\<close>

lemma struct_drop:
  assumes ok: "mmap_ok env" and inv: "heap_struct st G" and c: "gown G c = Some (Slab_of T i)"
    and e: "slab_used G c i = {}" and step: "bin_step T i (desc_slabs G T i) st st'" and l: "bin_lists T i cur ps fs st'"
    and s: "bin_slabs cur ps fs = desc_slabs G T i - {c + 64}"
    and p: "set ps \<subseteq> set (gpart G T i)" "set fs \<subseteq> set (gfull G T i)"
  shows "\<exists>st'' G'. lz_slab_destroy env (c + 64) st' = Some st'' \<and> heap_struct st'' G' \<and> evolves {} st G st'' G' \<and>
    near T i c G G' \<and> c + 64 \<notin> set (gpart G' T i) \<union> set (gfull G' T i) \<and>
    mcore (metas st'' (c + 64)) = mcore (metas st (c + 64)) \<and> valid st'' (c + 64)"
proof -
  note b = slab_of_bin [OF inv c]
  let ?G = "bin_desc T i cur ps fs G"
  have own: "s \<in> desc_slabs G T i \<longleftrightarrow> gown G (s - 64) = Some (Slab_of T i)" for s
    by (rule desc_okD(4) [OF heap_structD(5) [OF inv] b(1,2)])
  have old: "slab_used G d i = {}" if "gown G d = Some (Slab_of T i)" "d + 64 \<notin> bin_slabs cur ps fs" for d
  proof -
    have "d = c" using own [of "d + 64"] that s by auto
    then show ?thesis using e by simp
  qed
  have new: "gown G (s - 64) = Some (Slab_of T i)" if "s \<in> bin_slabs cur ps fs" for s using own that s by blast
  have inv1: "heap_struct st' ?G" by (rule bin_update [OF inv b(1,2) step _ l]) (use own new in auto)
  have ev1: "evolves {} st G st' ?G"
    by (rule bin_update_evolves [OF inv b(1,2) step _ l _ old]) (use own new in auto)
  have c1: "gown ?G c = Some Spare" using c s by (simp add: bin_desc_def)
  have "hdrs st' = hdrs st" using bin_stepD(1) [OF step] by (simp add: inner_step_def)
  then have h: "hdr_ok st' c T LZ_CHUNK_TYPE_SLAB" using heap_structD(6) [OF inv c] by (simp add: slab_ok_def hdr_ok_def)
  obtain st'' PG where st'': "lz_slab_destroy env (c + 64) st' = Some st''"
    "heap_struct st'' (?G\<lparr>gpools := PG, gown := (gown ?G)(c := None)\<rparr>)"
    "evolves {} st' ?G st'' (?G\<lparr>gpools := PG, gown := (gown ?G)(c := None)\<rparr>)"
    "metas st'' (c + 64) = metas st' (c + 64)" "valid st'' (c + 64)"
    using struct_destroy [OF ok inv1 c1 h] by blast
  let ?G2 = "?G\<lparr>gpools := PG, gown := (gown ?G)(c := None)\<rparr>"
  have "evolves {} st G st'' ?G2" using evolves_trans [OF ev1 st''(3)] by simp
  moreover have "near T i c G ?G2" by (rule near_trans [OF near_bin near_slab(4)]) (use p in auto)
  moreover have "c + 64 \<notin> set (gpart ?G2 T i) \<union> set (gfull ?G2 T i)" using s by (auto simp: bin_slabs_def)
  moreover have "mcore (metas st'' (c + 64)) = mcore (metas st (c + 64))" using st''(4) bin_stepD(3) [OF step] by simp
  ultimately show ?thesis using st''(1,2,5) by blast
qed

lemma bin_step_mono: "bin_step T i X st st' \<Longrightarrow> X \<subseteq> Y \<Longrightarrow> bin_step T i Y st st'"
  unfolding bin_step_def by (blast intro: links_same_mono)

lemma struct_recycle:
  assumes ok: "mmap_ok env" and inv: "heap_struct st G" and c: "gown G c = Some (Slab_of T i)"
    and e: "slab_used G c i = {}" and f: "c + 64 \<notin> set (gfull G T i)"
  shows "\<exists>st' G'. lz_tlh_recycle_empty_slab env T (c + 64) st = Some st' \<and> heap_struct st' G' \<and> evolves {} st G st' G' \<and>
    near T i c G G' \<and> c + 64 \<notin> set (gpart G' T i) \<union> set (gfull G' T i) \<and>
    mcore (metas st' (c + 64)) = mcore (metas st (c + 64)) \<and> valid st' (c + 64)"
proof -
  note b = slab_of_bin [OF inv c]
  note d = bin_listsD [OF b(5)]
  obtain r where r: "metas st (c + 64) = MSlab r" "slab_rep st c i (gcarved G c) (gfree G c) r" "valid st (c + 64)"
    "get_slab st (c + 64) = Some r" by (rule slab_record [OF inv c])
  have sc: "unat (sl_size_class r) = i"
    using r(2) b(2) by (simp add: slab_rep_def slab_shape_def unsigned_of_nat take_bit_nat_eq_self)
  have bin: "get_bin st T i = Some (the_bin T i st)" by (rule get_bin_ready [OF d(1)])
  show ?thesis
  proof (cases "c + 64 = gcur G T i")
    case cur: True
    have cn: "c + 64 \<notin> set (gpart G T i) \<union> set (gfull G T i)" using d(7) cur b(4) by auto
    show ?thesis
    proof (cases "gpart G T i")
      case Nil
      then have "partial_list (the_bin T i st) = 0" using partials.listed_head [OF d(3)] by simp
      then have "lz_tlh_recycle_empty_slab env T (c + 64) st = Some st"
        using r(4) sc bin cur d(2) by (simp add: lz_tlh_recycle_empty_slab_def)
      then show ?thesis using inv cn r(3) near_refl evolves_refl by blast
    next
      case (Cons p ps)
      have pn: "partial_list (the_bin T i st) = p" "p \<noteq> 0"
        using partials.listed_head [OF d(3)] Cons d(8) [of p] by (auto simp: bin_slabs_def)
      obtain st1 where st1: "promote_partial T i st = Some (p, st1)" "bin_lists T i p ps (gfull G T i) st1"
        "bin_step T i (set (p # ps)) st st1"
        using promote_moves [OF d(1) d(3) [unfolded Cons] d(4)] d(5) Cons by auto
      have step: "bin_step T i (desc_slabs G T i) st st1" by (rule bin_step_mono [OF st1(3)]) (auto simp: bin_slabs_def Cons)
      have s: "bin_slabs p ps (gfull G T i) = desc_slabs G T i - {c + 64}"
        using cn cur b(4) pn(2) Cons by (auto simp: bin_slabs_def)
      have "lz_tlh_recycle_empty_slab env T (c + 64) st = lz_slab_destroy env (c + 64) st1"
        using r(4) sc bin cur d(2) pn st1(1) by (simp add: lz_tlh_recycle_empty_slab_def)
      then show ?thesis using struct_drop [OF ok inv c e step st1(2) s] Cons by auto
    qed
  next
    case False
    then have "c + 64 \<in> set (gpart G T i)" using b(3) f by (auto simp: bin_slabs_def split: if_splits)
    then obtain xs ys where ps: "gpart G T i = xs @ (c + 64) # ys" using split_list by metis
    have dist: "distinct (gpart G T i)" by (rule partials.listed_distinct [OF d(3)])
    obtain st1 where st1: "slab_unlink (recycle_head T i (c + 64)) (c + 64) st = Some st1"
      "bin_lists T i (gcur G T i) (xs @ ys) (gfull G T i) st1" "bin_step T i (desc_slabs G T i) st st1"
      using recycle_moves [OF b(5) [unfolded ps]] ps by auto
    have s: "bin_slabs (gcur G T i) (xs @ ys) (gfull G T i) = desc_slabs G T i - {c + 64}"
      using f False dist ps by (auto simp: bin_slabs_def)
    have "recycle_head T i (c + 64) = (\<lambda>v st. do {
               b \<leftarrow> get_bin st T i;
               if partial_list b = c + 64 then upd_bin T i (partial_list_update (\<lambda>_. v)) st
               else if full_list b = c + 64 then upd_bin T i (full_list_update (\<lambda>_. v)) st
               else Some st })"
      by (simp add: recycle_head_def fun_eq_iff)
    then have "lz_tlh_recycle_empty_slab env T (c + 64) st = lz_slab_destroy env (c + 64) st1"
      using r(4) sc bin False d(2) st1(1) by (simp add: lz_tlh_recycle_empty_slab_def)
    then show ?thesis using struct_drop [OF ok inv c e st1(3,2) s] ps by auto
  qed
qed

section \<open>Freeing an object\<close>

lemma rescue_when_full:
  assumes "unat (u :: u32) = m - Suc (length F)" "unat (k :: u32) = n" "length F < m" "m \<le> n"
  shows "u = k - 1 \<longleftrightarrow> m = n \<and> F = []" "u = 0 \<longleftrightarrow> m = Suc (length F)"
proof -
  have "k \<noteq> 0" using assms by auto
  then have "unat (k - 1) = n - 1" using assms(2) by (simp add: unat_minus_one)
  then have "u = k - 1 \<longleftrightarrow> m - Suc (length F) = n - 1" using assms(1) by (simp add: word_unat_eq_iff)
  also have "\<dots> \<longleftrightarrow> m = n \<and> length F = 0" using assms(3,4) by arith
  finally show "u = k - 1 \<longleftrightarrow> m = n \<and> F = []" by simp
  have "u = 0 \<longleftrightarrow> m - Suc (length F) = 0" using assms(1) by (simp add: word_unat_eq_iff)
  then show "u = 0 \<longleftrightarrow> m = Suc (length F)" using assms(3) by arith
qed

text \<open>The slab is where it was, or it moves from the full to the partial list.\<close>

lemma struct_rescue_if_full:
  assumes inv: "heap_struct st G" and c: "gown G c = Some (Slab_of T i)" and r: "metas st (c + 64) = MSlab r"
    and used: "unat (sl_used_objects r) = gcarved G c - length (gfree G c)" "gfree G c = x # F" "Suc (length F) \<le> gcarved G c"
    and p: "c + 64 \<in> set (gpart G T i) \<Longrightarrow> gcarved G c = slots i \<and> F \<noteq> []"
    and f: "c + 64 \<in> set (gfull G T i) \<Longrightarrow> gcarved G c = slots i \<and> F = []"
  shows "\<exists>st' G'. (if sl_used_objects r = sl_max_objects r - 1 then lz_tlh_rescue_from_full T (c + 64) st else Some st) = Some st' \<and>
    heap_struct st' G' \<and> evolves {} st G st' G' \<and> gown G' = gown G \<and> gcarved G' = gcarved G \<and> gfree G' = gfree G \<and>
    near T i c G G' \<and> mcore (metas st' (c + 64)) = mcore (metas st (c + 64)) \<and>
    c + 64 \<notin> set (gfull G' T i) \<and> (c + 64 \<in> set (gpart G' T i) \<longrightarrow> gcarved G c = slots i)"
proof -
  let ?s = "c + 64"
  note b = slab_of_bin [OF inv c]
  obtain r0 where r0: "metas st ?s = MSlab r0" "slab_rep st c i (gcarved G c) (gfree G c) r0" "chunk_base c"
    by (rule slab_record [OF inv c])
  have rep: "slab_rep st c i (gcarved G c) (gfree G c) r" using r r0 by simp
  have u: "unat (sl_used_objects r) = gcarved G c - Suc (length F)" "unat (sl_max_objects r) = slots i"
    "length F < gcarved G c" "gcarved G c \<le> slots i"
    using used slab_rep_used [OF rep r0(3) b(2)] slab_rep_length(2) [OF rep r0(3) b(2)] by simp_all
  note resc = rescue_when_full(1) [OF u]
  show ?thesis
  proof (cases "?s \<in> set (gfull G T i)")
    case True
    let ?G = "bin_desc T i (gcur G T i) (?s # gpart G T i) (remove1 ?s (gfull G T i)) G"
    obtain st' where s2: "lz_tlh_rescue_from_full T ?s st = Some st'" "heap_struct st' ?G" "evolves {} st G st' ?G"
      "gown ?G = gown G" "mcore (metas st' ?s) = mcore (metas st ?s)"
      using struct_rescue [OF inv c True] by blast
    have "distinct (gfull G T i)" by (rule fulls.listed_distinct [OF bin_listsD(4) [OF b(5)]])
    then have "?s \<notin> set (gfull ?G T i)" by simp
    moreover have "near T i c G ?G" by (rule near_bin) (use set_remove1_subset [of ?s "gfull G T i"] in auto)
    moreover have "(if sl_used_objects r = sl_max_objects r - 1 then lz_tlh_rescue_from_full T ?s st else Some st) = Some st'"
      using s2(1) f [OF True] resc by simp
    ultimately show ?thesis using s2(2-5) f [OF True] bin_desc_sel(3,4) by blast
  next
    case False
    have "(if sl_used_objects r = sl_max_objects r - 1 then lz_tlh_rescue_from_full T ?s st else Some st) = Some st"
    proof (cases "sl_used_objects r = sl_max_objects r - 1")
      case True
      then have "?s \<notin> set (gpart G T i)" using resc p by auto
      then have cur: "?s = gcur G T i" using b(3) False by (auto simp: bin_slabs_def split: if_splits)
      have "unat (sl_size_class r) = i"
        using rep b(2) by (simp add: slab_rep_def slab_shape_def unsigned_of_nat take_bit_nat_eq_self)
      then show ?thesis
        using r bin_listsD(2,6) [OF b(5)] b(4) cur get_bin_ready [OF bin_listsD(1) [OF b(5)]]
        by (simp add: lz_tlh_rescue_from_full_def get_slab_def slab_node_def)
    qed simp
    then show ?thesis using inv False p near_refl evolves_refl by blast
  qed
qed

lemma struct_recycle_if_empty:
  assumes ok: "mmap_ok env" and inv: "heap_struct st G" and c: "gown G c = Some (Slab_of T i)"
    and r: "metas st (c + 64) = MSlab r" and f: "c + 64 \<notin> set (gfull G T i)"
  shows "\<exists>st' G'. (if sl_used_objects r = 0 then lz_tlh_recycle_empty_slab env T (c + 64) st else Some st) = Some st' \<and>
    heap_struct st' G' \<and> evolves {} st G st' G' \<and> near T i c G G' \<and> c + 64 \<notin> set (gfull G' T i) \<and>
    (c + 64 \<in> set (gpart G' T i) \<longrightarrow> G' = G \<and> length (gfree G c) < gcarved G c) \<and>
    mcore (metas st' (c + 64)) = mcore (metas st (c + 64)) \<and> valid st' (c + 64)"
proof -
  obtain r0 where r0: "metas st (c + 64) = MSlab r0" "slab_rep st c i (gcarved G c) (gfree G c) r0" "valid st (c + 64)"
    "chunk_base c" "i < 40" by (rule slab_record [OF inv c])
  have rep: "slab_rep st c i (gcarved G c) (gfree G c) r" using r r0 by simp
  note len = slab_rep_length [OF rep r0(4,5)]
  have used: "unat (sl_used_objects r) = gcarved G c - length (gfree G c)" using slab_rep_used [OF rep r0(4,5)] by simp
  show ?thesis
  proof (cases "sl_used_objects r = 0")
    case True
    have "card (set (gfree G c)) = card (objs c i (gcarved G c))"
      using True used len distinct_card [OF len(3)] card_objs [OF r0(4,5) len(2)] by simp
    then have "set (gfree G c) = objs c i (gcarved G c)"
      by (intro card_subset_eq) (use rep in \<open>auto simp: slab_rep_def objs_def\<close>)
    then have "slab_used G c i = {}" by (simp add: slab_used_def)
    from struct_recycle [OF ok inv c this f] show ?thesis using True by (simp del: Un_iff) blast
  next
    case False
    then have "0 < unat (sl_used_objects r)" by (simp add: unat_gt_0)
    then have "length (gfree G c) < gcarved G c" using used by simp
    then show ?thesis using False inv r0(3) f near_refl evolves_refl by auto
  qed
qed

lemma release_steps:
  assumes "metas st s = MSlab r" "valid st s" "valid st x" "valid st (x + 7)"
    and "st1 = st\<lparr>mem := store64 x (lz_ptr_obfuscate st (sl_free_list_head r) x) (mem st),
      metas := (metas st)(s := MSlab r1)\<rparr>" "r1 = r\<lparr>sl_free_list_head := x, sl_used_objects := sl_used_objects r - 1\<rparr>"
    and "(if sl_used_objects r1 = sl_max_objects r1 - 1 then lz_tlh_rescue_from_full T s st1 else Some st1) = Some st2"
    and "metas st2 s = MSlab r2" "valid st2 s"
    and "(if sl_used_objects r2 = 0 then lz_tlh_recycle_empty_slab env T s st2 else Some st2) = Some st3"
    and "metas st3 s = MSlab r3" "valid st3 s" "valid st3 T"
  shows "slab_release env T s x st =
    (if tl_stat_slot (tlhs st3 T) \<noteq> 0 then telemetry_free_batch T (sl_block_size r3) st3 else Some st3)"
proof -
  have "slab_release env T s x st = (do {
     st \<leftarrow> (if sl_used_objects r1 = sl_max_objects r1 - 1 then lz_tlh_rescue_from_full T s st1 else Some st1);
     r \<leftarrow> get_slab st s;
     st \<leftarrow> (if sl_used_objects r = 0 then lz_tlh_recycle_empty_slab env T s st else Some st);
     h \<leftarrow> get_tlh st T;
     if tl_stat_slot h \<noteq> 0 then do { r \<leftarrow> get_slab st s; telemetry_free_batch T (sl_block_size r) st } else Some st })"
    using assms(1-6) by (simp add: slab_release_def get_slab_def write_ptr_def upd_slab_def set_meta_def valid_def)
  also have "\<dots> = (if tl_stat_slot (tlhs st3 T) \<noteq> 0 then telemetry_free_batch T (sl_block_size r3) st3 else Some st3)"
    unfolding assms(7) using assms(8-) by (simp add: get_slab_def get_tlh_def)
  finally show ?thesis .
qed

lemma struct_slab_release:
  assumes ok: "mmap_ok env" and inv: "heap_struct st G" and stat: "status_ok G"
    and c: "gown G c = Some (Slab_of T i)" and x: "x \<in> slab_used G c i"
  shows "\<exists>st' G'. slab_release env T (c + 64) x st = Some st' \<and> heap_struct st' G' \<and> status_ok G' \<and>
    evolves {x} st G st' G' \<and> (\<forall>T' n. \<not> block st' G' T' x n)"
proof -
  let ?s = "c + 64"
  note b = slab_of_bin [OF inv c]
  obtain r where r: "metas st ?s = MSlab r" "valid st ?s" by (rule slab_record [OF inv c])
  define r1 where "r1 = r\<lparr>sl_free_list_head := x, sl_used_objects := sl_used_objects r - 1\<rparr>"
  define st1 where "st1 = st\<lparr>mem := store64 x (lz_ptr_obfuscate st (sl_free_list_head r) x) (mem st),
      metas := (metas st)(?s := MSlab r1)\<rparr>"
  define G1 where "G1 = G\<lparr>gfree := (gfree G)(c := x # gfree G c)\<rparr>"
  note put = struct_put [OF inv c x r(1), folded r1_def, folded st1_def G1_def]
  have c1: "gown G1 c = Some (Slab_of T i)" and m1: "metas st1 ?s = MSlab r1" using c by (simp_all add: G1_def st1_def)
  have lists1: "gpart G1 = gpart G" "gfull G1 = gfull G" "gcarved G1 = gcarved G" "gfree G1 c = x # gfree G c"
    by (simp_all add: G1_def)
  obtain st2 G2 where st2: "(if sl_used_objects r1 = sl_max_objects r1 - 1
        then lz_tlh_rescue_from_full T ?s st1 else Some st1) = Some st2"
    "heap_struct st2 G2" "evolves {} st1 G1 st2 G2" "gown G2 = gown G1" "gcarved G2 = gcarved G1" "gfree G2 = gfree G1"
    "near T i c G1 G2" "mcore (metas st2 ?s) = mcore (metas st1 ?s)" "?s \<notin> set (gfull G2 T i)"
    "?s \<in> set (gpart G2 T i) \<longrightarrow> gcarved G1 c = slots i"
    using struct_rescue_if_full [OF put(1) c1 m1 _ lists1(4)] put(4,5) lists1 status_okD [OF stat b(1,2), of ?s]
    by (auto simp: Suc_le_eq)
  have c2: "gown G2 c = Some (Slab_of T i)" using st2(4) c1 by simp
  obtain r2 where r2: "metas st2 ?s = MSlab r2" "valid st2 ?s" by (rule slab_record [OF st2(2) c2])
  obtain st3 G3 where st3: "(if sl_used_objects r2 = 0 then lz_tlh_recycle_empty_slab env T ?s st2 else Some st2) = Some st3"
    "heap_struct st3 G3" "evolves {} st2 G2 st3 G3" "near T i c G2 G3" "?s \<notin> set (gfull G3 T i)"
    "?s \<in> set (gpart G3 T i) \<longrightarrow> G3 = G2 \<and> length (gfree G2 c) < gcarved G2 c"
    "mcore (metas st3 ?s) = mcore (metas st2 ?s)" "valid st3 ?s"
    using struct_recycle_if_empty [OF ok st2(2) c2 r2(1) st2(9)] by blast
  obtain r3 where r3: "metas st3 ?s = MSlab r3" by (rule slab_core [OF st3(7) r2(1)])
  have near3: "near T i c G G3"
    using near_trans [OF near_trans [OF near_slab(3) [of T i c G "x # gfree G c", folded G1_def] st2(7)] st3(4)] .
  have stat3: "status_ok G3"
    by (rule status_near [OF stat heap_structD(5) [OF inv] _ near3]) (use c st2(5,6,10) st3(5,6) lists1 in auto)
  have "evolves ({x} \<union> {} \<union> {}) st G st3 G3" by (rule evolves_trans [OF evolves_trans [OF put(2) st2(3)] st3(3)])
  then have ev3: "evolves {x} st G st3 G3" by simp
  have nb3: "\<not> block st3 G3 T' x n" for T' n
    using evolvesD(8) [OF st2(3), of x] evolvesD(8) [OF st3(3), of x] put(3) by simp
  have T3: "T \<in> gheaps G3" using evolvesD(2) [OF ev3] b(1) by simp
  note v3 = stat_valid [OF st3(2) T3]
  have xo: "x \<in> objs c i (gcarved G c)" using x by (simp add: slab_used_def)
  note run = release_steps [OF r obj_readable [OF inv c xo] st1_def r1_def st2(1) r2 st3(1) r3 st3(8) v3(1)]
  obtain st4 where st4: "telemetry_free_batch T (sl_block_size r3) st3 = Some st4" "counts T st3 st4"
    using free_batch_counts [OF v3] by blast
  note cs = counts_struct [OF st3(2) st4(2)]
  have "evolves {x} st G st4 G3" using evolves_trans [OF ev3 cs(2)] by simp
  moreover have "\<not> block st4 G3 T' x n" for T' n using evolvesD(8) [OF cs(2), of x] nb3 by simp
  ultimately show ?thesis using run st4(1) cs(1) st3(2) stat3 ev3 nb3 by (cases "tl_stat_slot (tlhs st3 T) = 0") auto
qed

end
