(* ===== verification/Heap_Format.thy ===== *)
theory Heap_Format
  imports Heap_Release
begin

text \<open>
  Chunks taken from the memory manager and formatted by the engines: \<open>lz_slab_create\<close> and the new
  span of \<open>lz_span_alloc\<close>.
\<close>

section \<open>A header of an engine\<close>

lemma shield_chunk_runs:
  assumes "valid st c"
  shows "\<exists>h. shield_chunk c T ty st = Some (st\<lparr>hdrs := (hdrs st)(c := h)\<rparr>) \<and> ch_magic h = ch_magic (hdrs st c) \<and>
    ch_node_id h = ch_node_id (hdrs st c) \<and> ch_owning_tlh h = T \<and> ch_chunk_type h = ty \<and> ch_checksum h = lz_calc_checksum h"
proof -
  let ?h = "(hdrs st c)\<lparr>ch_owning_tlh := T, ch_chunk_type := ty\<rparr>"
  have "shield_chunk c T ty st = Some (st\<lparr>hdrs := (hdrs st)(c := ?h\<lparr>ch_checksum := lz_calc_checksum ?h\<rparr>)\<rparr>)"
    using assms by (simp add: shield_chunk_def upd_hdr_valid valid_def)
  moreover have "lz_calc_checksum (?h\<lparr>ch_checksum := k\<rparr>) = lz_calc_checksum ?h" for k by (simp add: lz_calc_checksum_def)
  ultimately show ?thesis by (intro exI [of _ "?h\<lparr>ch_checksum := lz_calc_checksum ?h\<rparr>"]) simp
qed

lemma struct_shield:
  assumes inv: "heap_struct st G" and c: "gown G c = Some Spare" and f: "fresh_chunk st c"
  shows "\<exists>st'. shield_chunk c T ty st = Some st' \<and> heap_struct st' G \<and> evolves {} st G st' G \<and> hdr_ok st' c T ty"
proof -
  have "valid st c" by (rule chunk_at_valid [OF struct_chunk [OF inv c]])
  from shield_chunk_runs [OF this] obtain h where h:
    "shield_chunk c T ty st = Some (st\<lparr>hdrs := (hdrs st)(c := h)\<rparr>)" "ch_magic h = ch_magic (hdrs st c)"
    "ch_node_id h = ch_node_id (hdrs st c)" "ch_owning_tlh h = T" "ch_chunk_type h = ty" "ch_checksum h = lz_calc_checksum h"
    by blast
  let ?st = "st\<lparr>hdrs := (hdrs st)(c := h)\<rparr>"
  have k: "keeps (chunk_block c) st ?st"
    by (rule keeps_mono [OF keeps_hdr]) (simp add: chunk_block_def within_def)
  have g: "same_globals st ?st" by (simp add: same_globals_def)
  have "hdr_ok ?st c T ty" using h f by (simp add: hdr_ok_def fresh_chunk_def)
  then show ?thesis using h(1) struct_spare [OF inv c k g] by blast
qed

text \<open>Header and index entry together: what both engines do first.\<close>

lemma struct_adopt:
  assumes ok: "mmap_ok env" and inv: "heap_struct st G" and c: "gown G c = Some Spare" and f: "fresh_chunk st c"
  shows "\<exists>st'. (do { st \<leftarrow> shield_chunk c T ty st; lz_rtree_set env c c st }) = Some st' \<and>
    heap_struct st' G \<and> evolves {} st G st' G \<and> hdr_ok st' c T ty"
proof -
  obtain st1 where st1: "shield_chunk c T ty st = Some st1" "heap_struct st1 G" "evolves {} st G st1 G" "hdr_ok st1 c T ty"
    using struct_shield [OF inv c f] by blast
  obtain st2 where st2: "lz_rtree_set env c c st1 = Some st2" "heap_struct st2 G" "evolves {} st1 G st2 G"
    and same: "\<forall>a. valid st1 a \<longrightarrow> mem st2 a = mem st1 a \<and> hdrs st2 a = hdrs st1 a \<and> metas st2 a = metas st1 a"
    using struct_record [OF ok st1(2) c, of c] by auto
  have "hdrs st2 c = hdrs st1 c" using same chunk_at_valid [OF struct_chunk [OF st1(2) c]] by blast
  then have "hdr_ok st2 c T ty" using st1(4) by (simp add: hdr_ok_def)
  moreover have "evolves {} st G st2 G" using evolves_trans [OF st1(3) st2(3)] by simp
  ultimately show ?thesis using st1(1) st2(1,2) by simp
qed

lemma struct_set_meta:
  fixes m :: lz_meta
  assumes inv: "heap_struct st G" and c: "gown G c = Some Spare" and h: "hdr_ok st c T ty"
  defines "st' \<equiv> st\<lparr>metas := (metas st)(c + 64 := m)\<rparr>"
  shows "set_meta (c + 64) m st = Some st'" "heap_struct st' G" "evolves {} st G st' G" "hdr_ok st' c T ty"
proof -
  have v: "valid st (c + 64)" "c + 64 \<in> chunk_block c" using meta_in_chunk struct_chunk [OF inv c] by blast+
  show "set_meta (c + 64) m st = Some st'" using v(1) by (simp add: set_meta_def st'_def)
  have k: "keeps (chunk_block c) st st'"
    using v(2) by (auto simp: keeps_def same_at_def st'_def valid_def)
  have g: "same_globals st st'" by (simp add: same_globals_def st'_def)
  show "heap_struct st' G" "evolves {} st G st' G" by (rule struct_spare [OF inv c k g])+
  show "hdr_ok st' c T ty" using h by (simp add: hdr_ok_def st'_def)
qed

text \<open>What the description says of the objects of a spare chunk does not matter.\<close>

lemma struct_reset:
  fixes m :: nat and F :: "addr list"
  assumes inv: "heap_struct st G" and c: "gown G c = Some Spare"
  defines "G' \<equiv> G\<lparr>gcarved := (gcarved G)(c := m), gfree := (gfree G)(c := F)\<rparr>"
  shows "heap_struct st G'" "evolves {} st G st G'"
proof -
  show "heap_struct st G'"
  proof (rule heap_struct_inner [OF inv inner_step_refl])
    show "desc_ok G'" using heap_structD(5) [OF inv] by (simp add: desc_ok_def G'_def)
    show "slab_ok st G' d T i" if o: "gown G' d = Some (Slab_of T i)" for d T i
    proof -
      have o': "gown G d = Some (Slab_of T i)" and "d \<noteq> c" using o c by (auto simp: G'_def)
      then show ?thesis using heap_structD(6) [OF inv o'] by (simp add: slab_ok_def G'_def)
    qed
    show "lists_ok st G' T" if "T \<in> gheaps G" for T
      using heap_structD(8) [OF inv that] by (simp add: lists_ok_def G'_def)
  qed (use heap_structD(7) [OF inv] in \<open>auto simp: G'_def\<close>)
  have "block_at st G' d T y n = block_at st G d T y n" for d T y n
    using c by (cases "d = c") (auto simp: block_at_def slab_used_def G'_def split: option.splits chunk_use.splits)
  then show "evolves {} st G st G'"
    by (intro evolves_inner [OF inner_step_refl]) (simp_all add: G'_def block_def)
qed

section \<open>A new slab\<close>

lemma slab_data_start:
  assumes "chunk_base c"
  shows "LZ_ALIGN_UP (c + 64 + 64) 64 = c + 128"
proof -
  have c: "unat c mod 2097152 = 0" "unat c + 2097152 \<le> 2 ^ 47" using assms by (auto simp: chunk_base_def)
  then obtain q where q: "unat c = 2097152 * q" by (metis mod_0_imp_dvd dvd_def)
  have u: "unat (c + 128) = unat c + 128" using c by (simp add: unat_word_ariths)
  have "unat (LZ_ALIGN_UP (c + 128) (2 ^ 6)) = (unat c + 191) div 64 * 64"
    by (subst unat_align_up) (use c u in auto)
  moreover have "(2097152 * q + 191) div 64 = 32768 * q + 2" by presburger
  ultimately show ?thesis using q u by (simp add: word_unat_eq_iff add.assoc)
qed

lemma slab_capacity:
  assumes "i < 40"
  shows "(ucast (lz_class_to_size (of_nat i)) :: u32) = of_nat (class_bytes i)"
    "(ucast ((c + LZ_HUGE_PAGE_SIZE - (c + 128)) div ucast (of_nat (class_bytes i) :: u32) :: u64) :: u32) = of_nat (slots i)"
proof -
  have b: "class_bytes i \<le> 32768" "16 \<le> class_bytes i" using class_bytes_bounds [OF assms] by auto
  have "unat (lz_class_to_size (of_nat i)) = class_bytes i"
    by (subst unat_class_to_size) (use assms in \<open>simp_all add: unsigned_of_nat take_bit_nat_eq_self\<close>)
  then show "(ucast (lz_class_to_size (of_nat i)) :: u32) = of_nat (class_bytes i)"
    by (metis of_nat_unat)
  have "unat (ucast (of_nat (class_bytes i) :: u32) :: u64) = class_bytes i"
    using b by (simp add: unat_ucast unsigned_of_nat take_bit_nat_eq_self)
  then have "unat ((c + LZ_HUGE_PAGE_SIZE - (c + 128)) div ucast (of_nat (class_bytes i) :: u32) :: u64) = slots i"
    by (simp add: unat_div slots_def)
  then show "(ucast ((c + LZ_HUGE_PAGE_SIZE - (c + 128)) div ucast (of_nat (class_bytes i) :: u32) :: u64) :: u32) = of_nat (slots i)"
    by (metis of_nat_unat)
qed

text \<open>The record of a slab with nothing carved yet.\<close>

definition empty_slab :: "addr \<Rightarrow> nat \<Rightarrow> lz_slab" where
  "empty_slab c i = \<lparr>sl_next = 0, sl_prev = 0, sl_memory_base = c + 128, sl_memory_end = c + LZ_HUGE_PAGE_SIZE,
     sl_bump_ptr = c + 128, sl_free_list_head = 0, sl_size_class = of_nat i, sl_block_size = of_nat (class_bytes i),
     sl_max_objects = of_nat (slots i), sl_used_objects = 0\<rparr>"

lemma empty_slab_rep: "slab_rep st c i 0 [] (empty_slab c i)"
  by (simp add: slab_rep_def slab_shape_def empty_slab_def obj_def)

lemma slab_create_run:
  assumes "lz_vmm_alloc_chunk env st = Some (c, st1)" "c \<noteq> 0" "chunk_base c" "i < 40"
    and "(do { st \<leftarrow> shield_chunk c T LZ_CHUNK_TYPE_SLAB st1; lz_rtree_set env c c st }) = Some st2"
    and "set_meta (c + 64) (MSlab (empty_slab c i)) st2 = Some st3"
  shows "lz_slab_create env T (of_nat i) st = Some (c + 64, st3)"
proof -
  obtain s where s: "shield_chunk c T LZ_CHUNK_TYPE_SLAB st1 = Some s" "lz_rtree_set env c c s = Some st2"
    using assms(5) by (auto simp: bind_eq_Some_conv)
  note cap = slab_capacity [OF assms(4)]
  show ?thesis
    using assms(1,2,6) s
    by (simp add: lz_slab_create_def Let_def slab_data_start [OF assms(3), simplified] cap [simplified] empty_slab_def)
qed

lemma struct_slab_create:
  assumes ok: "mmap_ok env" and inv: "heap_struct st G" and i: "i < 40"
  shows "\<exists>c st' PG. lz_slab_create env T (of_nat i) st = Some (if c = 0 then 0 else c + 64, st') \<and> (c = 0 \<longrightarrow> refused st st') \<and>
    (let G' = (if c = 0 then G\<lparr>gpools := PG\<rparr>
       else G\<lparr>gpools := PG, gown := (gown G)(c \<mapsto> Spare), gcarved := (gcarved G)(c := 0), gfree := (gfree G)(c := [])\<rparr>)
     in heap_struct st' G' \<and> evolves {} st G st' G' \<and>
       (c \<noteq> 0 \<longrightarrow> gown G c = None \<and> slab_ok st' G' c T i \<and> metas st' (c + 64) = MSlab (empty_slab c i)))"
proof -
  obtain c st1 PG where st1: "lz_vmm_alloc_chunk env st = Some (c, st1)" "c \<noteq> 0 \<longrightarrow> gown G c = None \<and> fresh_chunk st1 c"
    "heap_struct st1 (G\<lparr>gpools := PG, gown := (if c = 0 then gown G else (gown G)(c \<mapsto> Spare))\<rparr>)"
    "evolves {} st G st1 (G\<lparr>gpools := PG, gown := (if c = 0 then gown G else (gown G)(c \<mapsto> Spare))\<rparr>)"
    "c = 0 \<longrightarrow> refused st st1"
    using struct_take [OF ok inv] by blast
  show ?thesis
  proof (cases "c = 0")
    case True
    then have "lz_slab_create env T (of_nat i) st = Some (0, st1)" using st1(1) by (simp add: lz_slab_create_def)
    then show ?thesis using st1(3-5) True by (intro exI [of _ 0] exI [of _ st1] exI [of _ PG]) simp
  next
    case False
    let ?G = "G\<lparr>gpools := PG, gown := (gown G)(c \<mapsto> Spare)\<rparr>"
    let ?G' = "G\<lparr>gpools := PG, gown := (gown G)(c \<mapsto> Spare), gcarved := (gcarved G)(c := 0), gfree := (gfree G)(c := [])\<rparr>"
    have s1: "heap_struct st1 ?G" "evolves {} st G st1 ?G" using st1(3,4) False by simp_all
    have c: "gown ?G c = Some Spare" by simp
    obtain st2 where st2: "(do { st \<leftarrow> shield_chunk c T LZ_CHUNK_TYPE_SLAB st1; lz_rtree_set env c c st }) = Some st2"
      "heap_struct st2 ?G" "evolves {} st1 ?G st2 ?G" "hdr_ok st2 c T LZ_CHUNK_TYPE_SLAB"
      using struct_adopt [OF ok s1(1) c] st1(2) False by blast
    note st3 = struct_set_meta [OF st2(2) c st2(4), of "MSlab (empty_slab c i)"]
    let ?st = "st2\<lparr>metas := (metas st2)(c + 64 := MSlab (empty_slab c i))\<rparr>"
    note re = struct_reset [OF st3(2) c, where m = 0 and F = "[]"]
    have G': "?G\<lparr>gcarved := (gcarved ?G)(c := 0), gfree := (gfree ?G)(c := [])\<rparr> = ?G'" by simp
    have "evolves ({} \<union> {} \<union> {} \<union> {}) st G ?st ?G'"
      by (rule evolves_trans [OF evolves_trans [OF evolves_trans [OF s1(2) st2(3)] st3(3)] re(2) [unfolded G']])
    then have "evolves {} st G ?st ?G'" by simp
    moreover have "slab_ok ?st ?G' c T i" using st3(4) empty_slab_rep by (simp add: slab_ok_def)
    moreover have "lz_slab_create env T (of_nat i) st = Some (c + 64, ?st)"
      by (rule slab_create_run [OF st1(1) False struct_base [OF s1(1) c] i st2(1) st3(1)])
    ultimately show ?thesis
      using re(1) [unfolded G'] st1(2) False
      by (intro exI [of _ c] exI [of _ ?st] exI [of _ PG]) (simp add: Let_def)
  qed
qed

end
