(* ===== verification/Heap_Spans.thy ===== *)
theory Heap_Spans
  imports Heap_Format
begin

text \<open>
  Spans inside the heaps: a run of pages is taken or given back, and spans enter and leave the list
  of their heap.
\<close>

section \<open>A change in one span\<close>

lemma span_record:
  assumes inv: "heap_struct st G" and c: "gown G c = Some (Span_of T)"
  obtains r where "metas st (c + 64) = MSpan r" "span_inv r" "valid st (c + 64)" "get_span st (c + 64) = Some r"
    "chunk_base c" "T \<in> gheaps G" "hdr_ok st c T LZ_CHUNK_TYPE_SPAN"
proof -
  obtain r where r: "metas st (c + 64) = MSpan r" "span_inv r" "hdr_ok st c T LZ_CHUNK_TYPE_SPAN"
    using heap_structD(7) [OF inv c] by (auto simp: span_ok_def)
  have v: "valid st (c + 64)" by (rule meta_in_chunk(2) [OF struct_chunk [OF inv c]])
  then have "get_span st (c + 64) = Some r" using r by (simp add: get_span_def)
  then show thesis using that r v struct_base [OF inv c] desc_okD(3) [OF heap_structD(5) [OF inv] c] by blast
qed

lemma span_update:
  assumes inv: "heap_struct st G" and c: "gown G c = Some (Span_of T)" and r: "metas st (c + 64) = MSpan r"
    and r': "span_inv r'" "sp_next r' = sp_next r" "sp_prev r' = sp_prev r"
    and X: "\<And>j. j < 512 \<Longrightarrow> c + of_nat (4096 * j) \<notin> X \<Longrightarrow> pages_of r' j = pages_of r j"
  defines "st' \<equiv> st\<lparr>metas := (metas st)(c + 64 := MSpan r')\<rparr>"
  shows "heap_struct st' G" "evolves X st G st' G"
proof -
  have s: "inner_step st st'" by (simp add: inner_step_def st'_def same_globals_def)
  have same: "chunk_same st st' d" if "d \<noteq> c" for d using that by (simp add: chunk_same_def st'_def)
  show "heap_struct st' G"
  proof (rule heap_struct_inner [OF inv s heap_structD(5) [OF inv]])
    show "slab_ok st' G d T' i" if o: "gown G d = Some (Slab_of T' i)" for d T' i
    proof -
      have "d \<noteq> c" using o c by auto
      from slab_ok_same [OF heap_structD(6) [OF inv o] same [OF this] struct_base [OF inv o]
          desc_okD(2) [OF heap_structD(5) [OF inv] o]] show ?thesis by (simp add: st'_def)
    qed
    show "span_ok st' d T'" if o: "gown G d = Some (Span_of T')" for d T'
    proof (cases "d = c")
      case True
      then show ?thesis using heap_structD(7) [OF inv o] r'(1) by (simp add: span_ok_def hdr_ok_def st'_def)
    qed (rule span_ok_same [OF heap_structD(7) [OF inv o] same])
    show "lists_ok st' G T'" if T': "T' \<in> gheaps G" for T'
    proof (rule lists_ok_same [OF heap_structD(8) [OF inv T']])
      have "node_same st st' a" for a
        using r r' by (cases "a = c + 64") (auto simp: node_same_def meta_next_def meta_prev_def slab_node_def span_node_def st'_def valid_def)
      then show "node_same st st' a" "node_same st st' a" for a by blast+
      show "valid st' T'" using lists_okD(4) [OF heap_structD(8) [OF inv T']] by (simp add: st'_def valid_def)
    qed (simp_all add: st'_def)
  qed simp_all
  show "evolves X st G st' G"
  proof (rule evolves_inner [OF s refl])
    show "mem st' a = mem st a \<and> metas st' a = metas st a" if "a \<in> direct_memory G" for a
      using slab_meta_outside [OF inv, of "c + 64" _ a] c that by (auto simp: st'_def)
    have "block_at st' G d T' y n = block_at st G d T' y n" if y: "y \<notin> X" for d T' y n
    proof (cases "d = c")
      case False
      then have "span_start st' d y n = span_start st d y n" by (simp add: span_start_def st'_def)
      then show ?thesis by (simp add: block_at_def split: option.splits chunk_use.splits)
    next
      case True
      have "span_start st' c y n = span_start st c y n"
        unfolding span_start_def st'_def r by (auto dest: X) (use X y in force)+
      then show ?thesis using True c by (simp add: block_at_def)
    qed
    then show "block st' G T' y n = block st G T' y n" if "y \<notin> X" for T' y n using that by (simp add: block_def)
  qed (simp_all add: st'_def)
qed

section \<open>A change in the list of spans\<close>

definition span_step :: "addr \<Rightarrow> addr set \<Rightarrow> lz_state \<Rightarrow> lz_state \<Rightarrow> bool" where
  "span_step T X st st' \<longleftrightarrow> relinks T (tl_active_spans_update (\<lambda>_. 0)) st st' \<and> links_same X st st' \<and>
     span_node st' = span_node st"

lemma active_eqD:
  assumes "h'\<lparr>tl_active_spans := 0\<rparr> = h\<lparr>tl_active_spans := 0\<rparr>"
  shows "tl_stat_slot h' = tl_stat_slot h" "tl_bins h' = tl_bins h" "tlh_outer h' = tlh_outer h"
proof -
  show "tl_stat_slot h' = tl_stat_slot h" using arg_cong [OF assms, of tl_stat_slot] by simp
  show "tl_bins h' = tl_bins h" using arg_cong [OF assms, of tl_bins] by simp
  show "tlh_outer h' = tlh_outer h" using arg_cong [OF assms, of tlh_outer] by (simp add: tlh_outer_def)
qed

lemma span_stepD:
  assumes "span_step T X st st'"
  shows "inner_step st st'" "mem st' = mem st" "mcore (metas st' a) = mcore (metas st a)" "chunk_same st st' c"
    "a \<noteq> T \<Longrightarrow> tlhs st' a = tlhs st a" "tl_bins (tlhs st' a) = tl_bins (tlhs st a)"
    "tlh_outer (tlhs st' a) = tlh_outer (tlhs st a)"
    "s \<notin> X \<Longrightarrow> node_same st st' s" "s \<notin> X \<Longrightarrow> metas st' s = metas st s"
proof -
  obtain M h where st': "st' = st\<lparr>metas := M, tlhs := (tlhs st)(T := h)\<rparr>"
    and M: "\<And>a. mcore (M a) = mcore (metas st a)" and h: "h\<lparr>tl_active_spans := 0\<rparr> = (tlhs st T)\<lparr>tl_active_spans := 0\<rparr>"
    using assms by (auto simp: span_step_def relinks_def)
  note e = active_eqD [OF h]
  show "inner_step st st'" using e(1) by (simp add: st' inner_step_def same_globals_def)
  show "mem st' = mem st" "mcore (metas st' a) = mcore (metas st a)" "chunk_same st st' c"
    "a \<noteq> T \<Longrightarrow> tlhs st' a = tlhs st a" "tl_bins (tlhs st' a) = tl_bins (tlhs st a)"
    "tlh_outer (tlhs st' a) = tlh_outer (tlhs st a)"
    using M e(2,3) by (simp_all add: st' chunk_same_def)
  show n: "node_same st st' s" if "s \<notin> X"
    using assms M mcore_cases(1) [OF M, of s] that
    by (auto simp: span_step_def links_same_def node_same_def slab_node_def st' valid_def)
  show "metas st' s = metas st s" if "s \<notin> X"
  proof (rule meta_eqI)
    show "mcore (metas st' s) = mcore (metas st s)" using M by (simp add: st')
    show "mnext (metas st' s) = mnext (metas st s)" "mprev (metas st' s) = mprev (metas st s)"
      using n [OF that] by (simp_all add: node_same_def meta_next_def meta_prev_def)
  qed
qed

definition span_desc :: "addr \<Rightarrow> addr list \<Rightarrow> heap_desc \<Rightarrow> heap_desc" where
  "span_desc T xs G = G\<lparr>
     gown := (\<lambda>c. if c + 64 \<in> set xs then Some (Span_of T)
                  else if gown G c = Some (Span_of T) then Some Spare else gown G c),
     gspans := (gspans G)(T := xs)\<rparr>"

definition span_empty :: "lz_state \<Rightarrow> addr \<Rightarrow> bool" where
  "span_empty st c \<longleftrightarrow> (\<forall>y n. \<not> span_start st c y n)"

lemma span_start_core:
  assumes "mcore (metas st' (c + 64)) = mcore (metas st (c + 64))"
  shows "span_start st' c y n = span_start st c y n"
proof (cases "\<exists>r. metas st (c + 64) = MSpan r")
  case True
  then obtain r where r: "metas st (c + 64) = MSpan r" by blast
  then have "mcore (metas st' (c + 64)) = mcore (MSpan r)" using assms by simp
  from mcore_span [OF this] obtain r' where r': "metas st' (c + 64) = MSpan r'"
    "r'\<lparr>sp_next := 0, sp_prev := 0\<rparr> = r\<lparr>sp_next := 0, sp_prev := 0\<rparr>" by blast
  show ?thesis by (simp add: span_start_def r r'(1) span_inv_links(2) [OF r'(2)])
next
  case False
  then show ?thesis using mcore_cases(2) [OF assms] by (auto simp: span_start_def)
qed

lemma span_list_update:
  assumes inv: "heap_struct st G" and T: "T \<in> gheaps G" and step: "span_step T X st st'"
    and X: "\<And>s. s \<in> X \<Longrightarrow> gown G (s - 64) \<in> {Some (Span_of T), Some Spare}"
    and l: "actives.listed T st' xs"
    and new: "\<And>s. s \<in> set xs \<Longrightarrow> gown G (s - 64) = Some (Span_of T) \<or>
       gown G (s - 64) = Some Spare \<and> span_ok st (s - 64) T \<and> span_empty st (s - 64)"
    and old: "\<And>c. gown G c = Some (Span_of T) \<Longrightarrow> c + 64 \<notin> set xs \<Longrightarrow> span_empty st c"
  shows "heap_struct st' (span_desc T xs G)" "evolves {} st G st' (span_desc T xs G)"
proof -
  note D = span_stepD [OF step]
  let ?G = "span_desc T xs G"
  have ok: "desc_ok G" by (rule heap_structD(5) [OF inv])
  have own: "gown ?G c = Some (Slab_of T' i) \<longleftrightarrow> gown G c = Some (Slab_of T' i)"
    "gown ?G c = Some (Span_of T') \<longleftrightarrow> (if T' = T then c + 64 \<in> set xs else gown G c = Some (Span_of T'))" for c T' i
    using new [of "c + 64"] by (auto simp: span_desc_def)
  have g: "gpools ?G = gpools G" "gheaps ?G = gheaps G" "gcarved ?G = gcarved G" "gfree ?G = gfree G"
    "gcur ?G = gcur G" "gpart ?G = gpart G" "gfull ?G = gfull G" by (simp_all add: span_desc_def)
  have ls: "gspans ?G T' = (if T' = T then xs else gspans G T')" for T' by (simp add: span_desc_def)
  show "heap_struct st' ?G"
  proof (rule heap_struct_inner [OF inv D(1) _ g(1,2)])
    show "desc_ok ?G" using ok T unfolding desc_ok_def g own ls by (auto split: if_splits)
    show "gown ?G c = gown G c \<or> gown G c \<noteq> None \<and> gown ?G c \<noteq> None \<and>
         use_header c (the (gown ?G c)) = use_header c (the (gown G c))" for c
      using new [of "c + 64"] by (auto simp: span_desc_def)
    show "slab_ok st' ?G c T' i" if o: "gown ?G c = Some (Slab_of T' i)" for c T' i
    proof -
      have o': "gown G c = Some (Slab_of T' i)" using o own(1) by blast
      show ?thesis
        by (rule slab_ok_same [OF heap_structD(6) [OF inv o'] D(4) struct_base [OF inv o'] desc_okD(2) [OF ok o']])
           (use D(1) g in \<open>auto simp: inner_step_def same_globals_def\<close>)
    qed
    show "span_ok st' c T'" if "gown ?G c = Some (Span_of T')" for c T'
    proof -
      have "span_ok st c T'" using that own(2) [of c T'] new [of "c + 64"] heap_structD(7) [OF inv, of c] by (auto split: if_splits)
      then show ?thesis by (rule span_ok_same [OF _ D(4)])
    qed
    show "lists_ok st' ?G T'" if T': "T' \<in> gheaps G" for T'
    proof -
      note lT = heap_structD(8) [OF inv T']
      have v: "valid st' T'" using lists_okD(4) [OF lT] inner_step_valid [OF D(1)] by simp
      have same: "node_same st st' s" if "gown G (s - 64) \<noteq> Some (Span_of T)" "gown G (s - 64) \<noteq> Some Spare" for s
        using D(8) X that by blast
      have "bin_lists T' j (gcur G T' j) (gpart G T' j) (gfull G T' j) st'" if j: "j < 40" for j
        by (rule bin_lists_same [OF lists_okD(1) [OF lT j] same])
           (use desc_okD(4) [OF ok T' j] v D(6) lists_okD(3) [OF lT] j in \<open>auto simp: bin_ready_def the_bin_def\<close>)
      moreover have "actives.listed T' st' (gspans ?G T')"
      proof (cases "T' = T")
        case False
        have "actives.listed T' st' (gspans G T')"
          by (rule actives_same [OF lists_okD(2) [OF lT] same v])
             (use desc_okD(5) [OF ok T'] D(5) [OF False] False in auto)
        then show ?thesis using False ls by simp
      qed (use l ls in simp)
      ultimately show ?thesis using lists_okD(3) [OF lT] D(6) by (simp add: lists_ok_def g)
    qed
  qed
  show "evolves {} st G st' ?G"
  proof (rule evolves_inner [OF D(1) g(2) D(7)])
    show "gown ?G c = Some (Direct_of d) \<longleftrightarrow> gown G c = Some (Direct_of d)" for c d
      using new [of "c + 64"] by (auto simp: span_desc_def)
    show "mem st' a = mem st a \<and> metas st' a = metas st a" if "a \<in> direct_memory G" for a
    proof -
      have "a \<notin> X"
      proof
        assume "a \<in> X"
        then show False using X [of a] slab_meta_outside [OF inv, of a _ a] that by auto
      qed
      then show ?thesis using D(2,9) by simp
    qed
    have "block_at st' ?G c T' y n = block_at st G c T' y n" for c T' y n
    proof -
      have u: "slab_used ?G c j = slab_used G c j" "span_start st' c y n = span_start st c y n" for j
        using span_start_core [OF D(3)] by (simp_all add: slab_used_def g)
      show ?thesis
      proof (cases "gown G c = Some (Span_of T) \<or> c + 64 \<in> set xs")
        case True
        then show ?thesis
          using new [of "c + 64"] old [of c] u by (auto simp: block_at_def span_desc_def span_empty_def)
      next
        case False
        then have "gown ?G c = gown G c" by (simp add: span_desc_def)
        then show ?thesis unfolding block_at_def u by simp
      qed
    qed
    then show "block st' ?G T' y n = block st G T' y n" for T' y n by (simp add: block_def)
  qed (simp_all add: D(2))
qed

section \<open>Giving pages back\<close>

lemma span_give_starts:
  assumes c: "chunk_base c" and r: "span_inv r" "j < 512" "0 < pages_of r j" and k: "k < 512" "c + of_nat (4096 * k) \<noteq> c + of_nat (4096 * j)"
  shows "pages_of (span_give j r) k = pages_of r k"
  using pages_of_give [OF r(1,2), of k] k(2) by auto

lemma span_free_record:
  assumes c: "chunk_base c" and r: "span_inv r" "j < 512" "0 < pages_of r j"
  shows "unat (ucast ((c + of_nat (4096 * j) - c) div LZ_PAGE_SIZE) :: u32) = j"
    "unat (ucast (sp_alloc_size_pages r ! j) :: u32) = pages_of r j"
    "r\<lparr>sp_free_bitmap := set_pages [j..<j + pages_of r j] (sp_free_bitmap r),
       sp_alloc_size_pages := (sp_alloc_size_pages r)[j := 0],
       sp_used_pages := sp_used_pages r - ucast (sp_alloc_size_pages r ! j)\<rparr> = span_give j r"
proof -
  have "unat (of_nat (4096 * j) :: u64) = 4096 * j"
    by (subst unat_of_nat) (use r(2) in simp)
  then have "unat ((c + of_nat (4096 * j) - c) div LZ_PAGE_SIZE) = j" by (simp add: unat_div)
  then show "unat (ucast ((c + of_nat (4096 * j) - c) div LZ_PAGE_SIZE) :: u32) = j"
    using r(2) by (simp add: unat_ucast)
  show u: "unat (ucast (sp_alloc_size_pages r ! j) :: u32) = pages_of r j"
    using r(2) unsigned_less [of "sp_alloc_size_pages r ! j", where 'a = nat] by (simp add: pages_of_def unat_ucast)
  have "(ucast (sp_alloc_size_pages r ! j) :: u32) = of_nat (pages_of r j)" unfolding u [symmetric] by simp
  then show "r\<lparr>sp_free_bitmap := set_pages [j..<j + pages_of r j] (sp_free_bitmap r),
       sp_alloc_size_pages := (sp_alloc_size_pages r)[j := 0],
       sp_used_pages := sp_used_pages r - ucast (sp_alloc_size_pages r ! j)\<rparr> = span_give j r"
    by (simp add: span_give_def)
qed

lemma span_all_free:
  assumes "span_inv r" "sp_used_pages r = 1" "metas st (c + 64) = MSpan r"
  shows "span_empty st c"
proof -
  have "pages_sum r = 0" using span_invD(7) [OF assms(1)] assms(2) by simp
  then have "pages_of r j = 0" if "j < 512" for j using that unfolding pages_sum_def by simp
  then show ?thesis using assms(3) by (auto simp: span_empty_def span_start_def)
qed

lemma span_unlink_run:
  assumes y: "span_node st y"
    and run: "(if meta_prev st y \<noteq> 0 then set_span_next (meta_prev st y) (meta_next st y) st
        else upd_tlh T (tl_active_spans_update (\<lambda>_. meta_next st y)) st) \<bind>
      (\<lambda>s. if meta_next s y \<noteq> 0 then set_span_prev (meta_next s y) (meta_prev s y) s else Some s) = Some st'"
  shows "span_unlink T y st = Some st'"
proof -
  from run obtain s where s: "(if meta_prev st y \<noteq> 0 then set_span_next (meta_prev st y) (meta_next st y) st
        else upd_tlh T (tl_active_spans_update (\<lambda>_. meta_next st y)) st) = Some s"
    "(if meta_next s y \<noteq> 0 then set_span_prev (meta_next s y) (meta_prev s y) s else Some s) = Some st'"
    by (auto simp: bind_eq_Some_conv)
  obtain r where r: "get_span st y = Some r" "metas st y = MSpan r" using y by (auto simp: span_node_def get_span_def)
  have "span_node s y"
  proof (cases "meta_prev st y = 0")
    case True
    then show ?thesis using s(1) y by (auto simp: upd_tlh_def span_node_def valid_def split: if_splits)
  next
    case False
    then have n: "upd_span (meta_prev st y) (sp_next_update (\<lambda>_. meta_next st y)) st = Some s"
      using s(1) by (simp add: set_span_next_def)
    show ?thesis using n y
      by (auto simp: upd_span_def get_span_def set_meta_def span_node_def valid_def
          split: if_splits lz_meta.splits bind_splits)
  qed
  then obtain r' where r': "get_span s y = Some r'" "metas s y = MSpan r'" by (auto simp: span_node_def get_span_def)
  show ?thesis
    using s [unfolded set_span_next_def set_span_prev_def meta_next_def meta_prev_def r(2) r'(2) mnext.simps mprev.simps]
      r(1) r'(1) by (simp add: span_unlink_def)
qed

lemma span_unlink_moves:
  assumes "actives.listed T st (xs @ y # ys)"
  shows "\<exists>st'. span_unlink T y st = Some st' \<and> actives.listed T st' (xs @ ys) \<and> span_step T (set (xs @ ys)) st st'"
proof -
  have "span_node st y" using assms by (simp add: actives.listed_def)
  note run = span_unlink_run [OF this]
  from actives.unlink [OF assms] show ?thesis
    unfolding links_same_def span_step_def by (elim exE conjE) (intro exI conjI, rule run)
qed

lemma status_cong:
  assumes "status_ok G" "gheaps G' = gheaps G" "gpart G' = gpart G" "gfull G' = gfull G" "gcarved G' = gcarved G" "gfree G' = gfree G"
  shows "status_ok G'"
  using assms unfolding status_ok_def by simp

lemma span_desc_sel [simp]:
  "gpools (span_desc T xs G) = gpools G" "gheaps (span_desc T xs G) = gheaps G"
  "gcarved (span_desc T xs G) = gcarved G" "gfree (span_desc T xs G) = gfree G"
  "gcur (span_desc T xs G) = gcur G" "gpart (span_desc T xs G) = gpart G" "gfull (span_desc T xs G) = gfull G"
  by (simp_all add: span_desc_def)

text \<open>A span without pages in use leaves the list and its chunk goes back.\<close>

lemma struct_span_drop:
  assumes ok: "mmap_ok env" and inv: "heap_struct st G" and stat: "status_ok G" and c: "gown G c = Some (Span_of T)"
    and e: "span_empty st c"
  shows "\<exists>st' G'. (do { st \<leftarrow> span_unlink T (c + 64) st; st \<leftarrow> lz_rtree_clear env c st; lz_vmm_free_chunk c st }) = Some st' \<and>
    heap_struct st' G' \<and> status_ok G' \<and> evolves {} st G st' G'"
proof -
  obtain r where T: "T \<in> gheaps G" and h: "hdr_ok st c T LZ_CHUNK_TYPE_SPAN" by (rule span_record [OF inv c])
  have own: "s \<in> set (gspans G T) \<longleftrightarrow> gown G (s - 64) = Some (Span_of T)" for s by (rule desc_okD(5) [OF heap_structD(5) [OF inv] T])
  have "c + 64 \<in> set (gspans G T)" using own c by simp
  then obtain xs ys where xs: "gspans G T = xs @ (c + 64) # ys" using split_list by metis
  have l: "actives.listed T st (xs @ (c + 64) # ys)" using lists_okD(2) [OF heap_structD(8) [OF inv T]] xs by simp
  have dist: "distinct (xs @ (c + 64) # ys)" by (rule actives.listed_distinct [OF l])
  obtain st1 where st1: "span_unlink T (c + 64) st = Some st1" "actives.listed T st1 (xs @ ys)" "span_step T (set (xs @ ys)) st st1"
    using span_unlink_moves [OF l] by blast
  let ?G1 = "span_desc T (xs @ ys) G"
  have mem: "gown G (s - 64) = Some (Span_of T)" if "s \<in> set (xs @ ys)" for s using own xs that by auto
  have old: "span_empty st d" if "gown G d = Some (Span_of T)" "d + 64 \<notin> set (xs @ ys)" for d
  proof -
    have "d + 64 \<in> set (xs @ (c + 64) # ys)" using own [of "d + 64"] that(1) xs by simp
    then have "d = c" using that(2) by auto
    then show ?thesis using e by simp
  qed
  note up = span_list_update [OF inv T st1(3) _ st1(2) _ old]
  have s1: "heap_struct st1 ?G1" "evolves {} st G st1 ?G1" by (rule up; use mem in blast)+
  have c1: "gown ?G1 c = Some Spare" using c dist by (simp add: span_desc_def)
  have "hdrs st1 = hdrs st" using span_stepD(1) [OF st1(3)] by (simp add: inner_step_def)
  then obtain st2 PG where st2: "(do { st \<leftarrow> lz_rtree_clear env c st1; lz_vmm_free_chunk c st }) = Some st2"
    "heap_struct st2 (?G1\<lparr>gpools := PG, gown := (gown ?G1)(c := None)\<rparr>)"
    "evolves {} st1 ?G1 st2 (?G1\<lparr>gpools := PG, gown := (gown ?G1)(c := None)\<rparr>)"
    using struct_discard [OF ok s1(1) c1] h by (auto simp: hdr_ok_def)
  let ?G2 = "?G1\<lparr>gpools := PG, gown := (gown ?G1)(c := None)\<rparr>"
  have "evolves {} st G st2 ?G2" using evolves_trans [OF s1(2) st2(3)] by simp
  moreover have "status_ok ?G2" by (rule status_cong [OF stat]) simp_all
  ultimately show ?thesis using st1(1) st2(1,2) by auto
qed

lemma span_free_steps:
  assumes c: "chunk_base c" and r: "metas st (c + 64) = MSpan r" "valid st (c + 64)" "span_inv r" "j < 512" "0 < pages_of r j"
    and "telemetry_free_batch T (ucast (sp_alloc_size_pages r ! j) * ucast LZ_PAGE_SIZE)
      (st\<lparr>metas := (metas st)(c + 64 := MSpan (span_give j r))\<rparr>) = Some st2" "metas st2 (c + 64) = MSpan r2" "valid st2 (c + 64)"
  shows "lz_span_free_local env T c (c + of_nat (4096 * j)) st =
    (if sp_used_pages r2 = 1 then do { st \<leftarrow> span_unlink T (c + 64) st2; st \<leftarrow> lz_rtree_clear env c st; lz_vmm_free_chunk c st }
     else Some st2)"
proof -
  note f = span_free_record [OF c r(3-5)]
  have nz: "j \<noteq> 0" "(ucast (sp_alloc_size_pages r ! j) :: u32) \<noteq> 0"
    using r(5) span_invD(3) [OF r(3)] f(2) by (metis less_irrefl, metis less_irrefl unat_0)
  have "get_span st (c + 64) = Some r" "get_span st2 (c + 64) = Some r2" using r assms(8,9) by (simp_all add: get_span_def)
  moreover have "set_meta (c + 64) m st = Some (st\<lparr>metas := (metas st)(c + 64 := m)\<rparr>)" for m using r(2) by (simp add: set_meta_def)
  ultimately show ?thesis
    using nz r(4) assms(7)
    unfolding lz_span_free_local_def Let_def f(1) by (simp add: f(2,3) [simplified])
qed

lemma struct_span_free:
  assumes ok: "mmap_ok env" and inv: "heap_struct st G" and stat: "status_ok G"
    and c: "gown G c = Some (Span_of T)" and p: "span_start st c p n"
  shows "\<exists>st' G'. lz_span_free_local env T c p st = Some st' \<and> heap_struct st' G' \<and> status_ok G' \<and>
    evolves {p} st G st' G' \<and> (\<forall>T' m. \<not> block st' G' T' p m)"
proof -
  obtain r where r: "metas st (c + 64) = MSpan r" "span_inv r" "valid st (c + 64)" "chunk_base c" and T: "T \<in> gheaps G"
    by (rule span_record [OF inv c])
  obtain j where j: "j < 512" "0 < pages_of r j" "p = c + of_nat (4096 * j)" using p r(1) by (auto simp: span_start_def)
  let ?st1 = "st\<lparr>metas := (metas st)(c + 64 := MSpan (span_give j r))\<rparr>"
  have "sp_next (span_give j r) = sp_next r" "sp_prev (span_give j r) = sp_prev r" by (simp_all add: span_give_def)
  note up = span_update [OF inv c r(1) span_give_inv [OF r(2) j(1,2)] this, of "{p}"]
  have s1: "heap_struct ?st1 G" "evolves {p} st G ?st1 G"
    by (rule up; use span_give_starts [OF r(4,2) j(1,2)] j(3) in simp)+
  have nb1: "\<not> block ?st1 G T' p m" for T' m
  proof
    assume b: "block ?st1 G T' p m"
    obtain k where b0: "block_at st G c T p k" using p c by (auto simp: block_at_def)
    have "chunk_of p = c" by (rule chunk_of_block [OF r(4) block_at_bytes(2) [OF inv b0]])
    then have "span_start ?st1 c p m" using b c unfolding block_iff [OF s1(1)] by (simp add: block_at_def)
    then obtain k where k: "k < 512" "0 < pages_of (span_give j r) k" "p = c + of_nat (4096 * k)" by (auto simp: span_start_def)
    have u: "unat (of_nat (4096 * k) :: u64) = 4096 * k" "unat (of_nat (4096 * j) :: u64) = 4096 * j"
      by (subst unat_of_nat; use k(1) j(1) in simp)+
    have "(of_nat (4096 * k) :: u64) = of_nat (4096 * j)" using k(3) j(3) by (simp only: add_left_cancel)
    from arg_cong [OF this, of unat] have "4096 * k = 4096 * j" unfolding u .
    then have "k = j" by simp
    then show False using k(2) pages_of_give [OF r(2) j(1), of j] by simp
  qed
  obtain st2 where st2: "telemetry_free_batch T (ucast (sp_alloc_size_pages r ! j) * ucast LZ_PAGE_SIZE) ?st1 = Some st2" "counts T ?st1 st2"
    using free_batch_counts [OF stat_valid [OF s1(1) T]] by blast
  note cs = counts_struct [OF s1(1) st2(2)]
  have m2: "metas st2 (c + 64) = MSpan (span_give j r)" "valid st2 (c + 64)"
    using cs(3) evolvesD(7) [OF cs(2), of "c + 64"] r(3) by (simp_all add: valid_def)
  note run = span_free_steps [OF r(4,1,3,2) j(1,2) st2(1) m2, of env, folded j(3)]
  have "evolves ({p} \<union> {}) st G st2 G" by (rule evolves_trans [OF s1(2) cs(2)])
  then have ev2: "evolves {p} st G st2 G" by simp
  have nb2: "\<not> block st2 G T' p m" for T' m using evolvesD(8) [OF cs(2), of p] nb1 by simp
  show ?thesis
  proof (cases "sp_used_pages (span_give j r) = 1")
    case False
    then show ?thesis using run cs(1) stat ev2 nb2 by auto
  next
    case True
    obtain st3 G3 where st3: "(do { st \<leftarrow> span_unlink T (c + 64) st2; st \<leftarrow> lz_rtree_clear env c st; lz_vmm_free_chunk c st }) = Some st3"
      "heap_struct st3 G3" "status_ok G3" "evolves {} st2 G st3 G3"
      using struct_span_drop [OF ok cs(1) stat c span_all_free [OF span_give_inv [OF r(2) j(1,2)] True m2(1)]] by blast
    have "evolves {p} st G st3 G3" using evolves_trans [OF ev2 st3(4)] by simp
    moreover have "\<not> block st3 G3 T' p m" for T' m using evolvesD(8) [OF st3(4), of p] nb2 by simp
    ultimately show ?thesis using run True st3(1-3) by auto
  qed
qed

end
