(* ===== verification/Heap_Messages.thy ===== *)
theory Heap_Messages
  imports Heap_Spans
begin

text \<open>
  Blocks freed by a thread that does not own them: they are collected in the outgoing batch of the
  freeing heap, pushed to the mailbox of the owner, and given back when the owner reaps its mailbox.
  A block in a batch or a mailbox is still a block of its slab or span; its first word is a link.
\<close>

section \<open>Writing to a block\<close>

text \<open>Whatever is written to a block in use, the heaps stay intact: their own data is elsewhere.\<close>

lemma struct_write_slab:
  assumes inv: "heap_struct st G" and c: "gown G c = Some (Slab_of T i)" and x: "x \<in> slab_used G c i"
    and M: "\<And>a. a \<notin> bytes x (class_bytes i) \<Longrightarrow> M a = mem st a"
  shows "heap_struct (st\<lparr>mem := M\<rparr>) G" "evolves {x} st G (st\<lparr>mem := M\<rparr>) G"
proof -
  obtain r where r: "metas st (c + 64) = MSlab r" "slab_rep st c i (gcarved G c) (gfree G c) r" "chunk_base c" "i < 40"
    by (rule slab_record [OF inv c])
  let ?st = "st\<lparr>mem := M\<rparr>"
  have st': "?st = st\<lparr>mem := M, metas := (metas st)(c + 64 := MSlab r)\<rparr>" using r(1) by (simp add: fun_upd_idem)
  have b: "block_at st G c T x (class_bytes i)" using c x by (simp add: block_at_def)
  obtain j where j: "j < slots i" "x = obj c i j" using slab_used_obj [OF inv c x] by blast
  have "load64 M y = load64 (mem st) y" if y: "y \<in> set (gfree G c)" for y
  proof (rule load64_same)
    fix a assume a: "a \<in> word_bytes y"
    have "y \<in> objs c i (gcarved G c)" using r(2) y by (auto simp: slab_rep_def)
    then obtain k where k: "k < slots i" "y = obj c i k" using objs_nth slab_rep_length(2) [OF r(2-4)] by blast
    have "x \<noteq> y" using x y by (auto simp: slab_used_def)
    then have "k \<noteq> j" using j k by auto
    from obj_bytes_disjoint [OF r(3) k(1) j(1) r(4) this] have "a \<notin> obj_bytes i x"
      using word_in_obj [OF r(4), of y] a j(2) k(2) by blast
    then have "a \<notin> bytes x (class_bytes i)" using obj_bytes_iff [OF r(3) j(1) r(4), of a] j unat_obj [OF r(3) _ r(4), of j] by (auto simp: bytes_def)
    then show "M a = mem st a" by (rule M)
  qed
  then have rep: "slab_rep ?st c i (gcarved G c) (gfree G c) r" by (intro slab_rep_cong [OF r(2)]) simp_all
  have M': "\<exists>z n. z \<in> {x} \<and> block_at st G c T z n \<and> a \<in> bytes z n" if "M a \<noteq> mem st a" for a
    using M [of a] that b by blast
  note up = slab_update_evolves [OF inv c st' M' r(1) refl refl rep, of G]
  show "heap_struct ?st G" "evolves {x} st G ?st G" by (rule up; simp add: slab_used_def)+
qed

lemma struct_write_span:
  assumes inv: "heap_struct st G" and c: "gown G c = Some (Span_of T)" and x: "span_start st c x n"
    and M: "\<And>a. a \<notin> bytes x n \<Longrightarrow> M a = mem st a"
  shows "heap_struct (st\<lparr>mem := M\<rparr>) G" "evolves {x} st G (st\<lparr>mem := M\<rparr>) G"
proof -
  let ?st = "st\<lparr>mem := M\<rparr>"
  have b: "block_at st G c T x n" using c x by (simp add: block_at_def)
  have in_c: "bytes x n \<subseteq> chunk_block c" by (rule block_at_bytes(1) [OF inv b])
  have s: "inner_step st ?st" by (simp add: inner_step_def same_globals_def)
  have out: "M a = mem st a" if "a \<notin> chunk_block c" for a using M in_c that by blast
  show "heap_struct ?st G"
  proof (rule heap_struct_inner [OF inv s heap_structD(5) [OF inv]])
    show "slab_ok ?st G d T' i" if o: "gown G d = Some (Slab_of T' i)" for d T' i
    proof -
      have "d \<noteq> c" using o c by auto
      then have "chunk_same st ?st d" using other_chunk_mem [OF inv c o] out by (auto simp: chunk_same_def)
      from slab_ok_same [OF heap_structD(6) [OF inv o] this struct_base [OF inv o] desc_okD(2) [OF heap_structD(5) [OF inv] o]]
      show ?thesis by simp
    qed
    show "span_ok ?st d T'" if "gown G d = Some (Span_of T')" for d T'
      using heap_structD(7) [OF inv that] by (simp add: span_ok_def hdr_ok_def)
    show "lists_ok ?st G T'" if T': "T' \<in> gheaps G" for T'
      by (rule lists_ok_same [OF heap_structD(8) [OF inv T']])
         (use lists_okD(4) [OF heap_structD(8) [OF inv T']] in \<open>simp_all add: node_same_def meta_next_def meta_prev_def slab_node_def span_node_def valid_def\<close>)
  qed simp_all
  have "block ?st G T' y m = block st G T' y m" for T' y m
  proof -
    have "span_start ?st = span_start st" by (simp add: span_start_def fun_eq_iff)
    then show ?thesis by (simp only: block_def block_at_def)
  qed
  then show "evolves {x} st G ?st G"
  proof (intro evolves_inner [OF s refl])
    fix T' y m a assume y: "y \<notin> {x}" "block st G T' y m" "a \<in> bytes y m"
    have "block st G T x n" using b by (auto simp: block_def)
    from blocks_disjoint_heap [OF inv y(2) this] show "mem ?st a = mem st a" using y M by auto
  next
    fix a assume "a \<in> direct_memory G"
    then show "mem ?st a = mem st a \<and> metas ?st a = metas st a" using direct_outside [OF inv c, of a] out by simp
  qed simp_all
qed

lemma struct_write:
  assumes inv: "heap_struct st G" and b: "block st G T x n" and M: "\<And>a. a \<notin> bytes x n \<Longrightarrow> M a = mem st a"
  shows "heap_struct (st\<lparr>mem := M\<rparr>) G" "evolves {x} st G (st\<lparr>mem := M\<rparr>) G" "block (st\<lparr>mem := M\<rparr>) G T' y m \<longleftrightarrow> block st G T' y m"
proof -
  obtain c where c: "block_at st G c T x n" using b by (auto simp: block_def)
  have "heap_struct (st\<lparr>mem := M\<rparr>) G \<and> evolves {x} st G (st\<lparr>mem := M\<rparr>) G"
    using c
  proof (cases rule: block_at_cases)
    case (slab i)
    then show ?thesis using struct_write_slab [OF inv slab(1,2)] M by simp
  next
    case span
    then show ?thesis using struct_write_span [OF inv span] M by simp
  qed
  then show "heap_struct (st\<lparr>mem := M\<rparr>) G" "evolves {x} st G (st\<lparr>mem := M\<rparr>) G" by blast+
  have "span_start (st\<lparr>mem := M\<rparr>) = span_start st" by (simp add: span_start_def fun_eq_iff)
  then show "block (st\<lparr>mem := M\<rparr>) G T' y m \<longleftrightarrow> block st G T' y m" by (simp only: block_def block_at_def)
qed

section \<open>Freeing a block at its owner\<close>

definition free_block :: "os_env \<Rightarrow> addr \<Rightarrow> addr \<Rightarrow> lz_state \<Rightarrow> lz_state option" where
  "free_block env T x st = do {
     h \<leftarrow> get_hdr st (chunk_of x);
     if ch_chunk_type h = LZ_CHUNK_TYPE_SLAB then slab_release env T (chunk_of x + 64) x st
     else if ch_chunk_type h = LZ_CHUNK_TYPE_SPAN then lz_span_free_local env T (chunk_of x) x st
     else Some st }"

lemma struct_free_block:
  assumes ok: "mmap_ok env" and inv: "heap_struct st G" and stat: "status_ok G" and b: "block st G T x n"
  shows "\<exists>st' G'. free_block env T x st = Some st' \<and> heap_struct st' G' \<and> status_ok G' \<and>
    evolves {x} st G st' G' \<and> (\<forall>T' m. \<not> block st' G' T' x m)"
proof -
  let ?c = "chunk_of x"
  have b: "block_at st G ?c T x n" using b block_iff [OF inv] by simp
  then obtain u where u: "gown G ?c = Some u" using block_at_range(5) [OF inv] by blast
  have h: "get_hdr st ?c = Some (hdrs st ?c)" using chunk_at_valid [OF struct_chunk [OF inv u]] by (simp add: get_hdr_def)
  from b show ?thesis
  proof (cases rule: block_at_cases)
    case (slab i)
    have "ch_chunk_type (hdrs st ?c) = LZ_CHUNK_TYPE_SLAB"
      using heap_structD(6) [OF inv slab(1)] by (simp add: slab_ok_def hdr_ok_def)
    then have "free_block env T x st = slab_release env T (?c + 64) x st" by (simp add: free_block_def h)
    then show ?thesis using struct_slab_release [OF ok inv stat slab(1,2)] by simp
  next
    case span
    have "ch_chunk_type (hdrs st ?c) = LZ_CHUNK_TYPE_SPAN"
      using heap_structD(7) [OF inv span(1)] by (simp add: span_ok_def hdr_ok_def)
    then have "free_block env T x st = lz_span_free_local env T ?c x st" by (simp add: free_block_def h)
    then show ?thesis using struct_span_free [OF ok inv stat span] by simp
  qed
qed

section \<open>Reaping a mailbox\<close>

definition clear_link :: "lz_state \<Rightarrow> addr \<Rightarrow> addr" where
  "clear_link st x = load64 (mem st) x"

lemma block_word:
  assumes inv: "heap_struct st G" and b: "block st G T x n"
  shows "word_bytes x \<subseteq> bytes x n" "valid st x" "valid st (x + 7)" "x \<noteq> 0" "read_ptr st x = Some (clear_link st x)"
proof -
  obtain c where c: "block_at st G c T x n" using b by (auto simp: block_def)
  show w: "word_bytes x \<subseteq> bytes x n" by (rule block_at_bytes(4) [OF inv c])
  have "x \<in> word_bytes x" "x + 7 \<in> word_bytes x" by (simp_all add: word_bytes_def within_def)
  then show v: "valid st x" "valid st (x + 7)" using w block_valid [OF inv b] by blast+
  show "read_ptr st x = Some (clear_link st x)" using v by (simp add: read_ptr_def clear_link_def)
  show "x \<noteq> 0" using block_at_range(2) [OF inv c] by auto
qed

lemma clear_link_evolves:
  assumes inv: "heap_struct st G" and ev: "evolves X st G st' G'" and b: "block st G T y n" "y \<notin> X"
  shows "clear_link st' y = clear_link st y"
  unfolding clear_link_def
  by (rule load64_same) (use evolvesD(9) [OF ev b(2,1)] block_word(1) [OF inv b(1)] in blast)

lemma reap_list_step:
  "x \<noteq> 0 \<Longrightarrow> read_ptr st x = Some nx \<Longrightarrow> free_block env T x st = Some st' \<Longrightarrow>
    reap_list env T x st = reap_list env T nx st'"
  by (subst reap_list.simps) (auto simp: free_block_def lz_span_free_remote_def bind_eq_Some_conv Let_def)

lemma reap_list_spec:
  assumes ok: "mmap_ok env" and "heap_struct st G" "status_ok G" "chain (clear_link st) head xs"
    "\<forall>x\<in>set xs. \<exists>n. block st G T x n"
  shows "\<exists>st' G'. reap_list env T head st = Some st' \<and> heap_struct st' G' \<and> status_ok G' \<and>
    evolves (set xs) st G st' G' \<and> (\<forall>x\<in>set xs. \<forall>T' m. \<not> block st' G' T' x m)"
  using assms(2-)
proof (induction xs arbitrary: st G head)
  case Nil
  then have "reap_list env T head st = Some st" by (subst reap_list.simps) simp
  then show ?case using Nil by auto
next
  case (Cons x xs)
  have x: "head = x" "x \<noteq> 0" "chain (clear_link st) (clear_link st x) xs" using Cons.prems(3) by auto
  have dist: "x \<notin> set xs" using chain_distinct [OF Cons.prems(3)] by simp
  obtain n where b: "block st G T x n" using Cons.prems(4) by auto
  obtain st1 G1 where st1: "free_block env T x st = Some st1" "heap_struct st1 G1" "status_ok G1"
    "evolves {x} st G st1 G1" "\<And>T' m. \<not> block st1 G1 T' x m"
    using struct_free_block [OF ok Cons.prems(1,2) b] by blast
  have bl: "\<exists>n. block st G T y n \<and> block st1 G1 T y n \<and> clear_link st1 y = clear_link st y" if y: "y \<in> set xs" for y
  proof -
    obtain m where m: "block st G T y m" using Cons.prems(4) y by auto
    have "y \<notin> {x}" using y dist by auto
    then show ?thesis using m evolvesD(8) [OF st1(4), of y] clear_link_evolves [OF Cons.prems(1) st1(4) m] by blast
  qed
  have ch: "chain (clear_link st1) (clear_link st x) xs"
    using x(3) chain_cong [of xs "clear_link st1" "clear_link st"] bl by blast
  have "\<forall>y\<in>set xs. \<exists>n. block st1 G1 T y n" using bl by blast
  from Cons.IH [OF st1(2,3) ch this] obtain st2 G2 where st2: "reap_list env T (clear_link st x) st1 = Some st2"
    "heap_struct st2 G2" "status_ok G2" "evolves (set xs) st1 G1 st2 G2" "\<forall>y\<in>set xs. \<forall>T' m. \<not> block st2 G2 T' y m"
    by blast
  have "reap_list env T head st = Some st2"
    using reap_list_step [OF x(2) block_word(5) [OF Cons.prems(1) b] st1(1)] st2(1) x(1) by simp
  moreover have "\<not> block st2 G2 T' x m" for T' m using evolvesD(8) [OF st2(4) dist] st1(5) by simp
  moreover have "evolves (set (x # xs)) st G st2 G2" using evolves_trans [OF st1(4) st2(4)] by simp
  ultimately show ?case using st2(2,3,5) by auto
qed

end
