(* ===== verification/Heap_Mail.thy ===== *)
theory Heap_Mail
  imports Heap_Messages
begin

text \<open>
  The mailboxes and outgoing batches of all heaps. \<open>M T\<close> is the content of the mailbox of \<open>T\<close> and
  \<open>B T\<close> that of its batch, first block first.
\<close>

section \<open>The invariant of the messages\<close>

definition mail_ok :: "lz_state \<Rightarrow> heap_desc \<Rightarrow> addr \<Rightarrow> addr list \<Rightarrow> bool" where
  "mail_ok st G T xs \<longleftrightarrow> chain (clear_link st) (tl_remote_free_head (tlhs st T)) xs \<and>
     (\<forall>x\<in>set xs. \<exists>n. block st G T x n)"

definition batch_ok :: "lz_state \<Rightarrow> heap_desc \<Rightarrow> addr \<Rightarrow> addr list \<Rightarrow> bool" where
  "batch_ok st G T ys \<longleftrightarrow> (let b = tl_outgoing_batch (tlhs st T) in
     chain (clear_link st) (bt_head b) ys \<and> unat (bt_count b) = length ys \<and> length ys \<le> 64 \<and>
     (ys \<noteq> [] \<longrightarrow> bt_tail b = last ys \<and> bt_target_tlh b \<in> gheaps G) \<and>
     (\<forall>y\<in>set ys. \<exists>n. block st G (bt_target_tlh b) y n))"

definition apart :: "addr set \<Rightarrow> (addr \<Rightarrow> addr list) \<Rightarrow> (addr \<Rightarrow> addr list) \<Rightarrow> bool" where
  "apart H M B \<longleftrightarrow> (\<forall>T\<in>H. \<forall>T'\<in>H. (T \<noteq> T' \<longrightarrow> set (M T) \<inter> set (M T') = {} \<and> set (B T) \<inter> set (B T') = {}) \<and>
     set (M T) \<inter> set (B T') = {})"

definition pending :: "heap_desc \<Rightarrow> (addr \<Rightarrow> addr list) \<Rightarrow> (addr \<Rightarrow> addr list) \<Rightarrow> addr set" where
  "pending G M B = (\<Union>T\<in>gheaps G. set (M T) \<union> set (B T))"

definition msgs_ok :: "lz_state \<Rightarrow> heap_desc \<Rightarrow> (addr \<Rightarrow> addr list) \<Rightarrow> (addr \<Rightarrow> addr list) \<Rightarrow> bool" where
  "msgs_ok st G M B \<longleftrightarrow> (\<forall>T\<in>gheaps G. mail_ok st G T (M T) \<and> batch_ok st G T (B T)) \<and> apart (gheaps G) M B"

definition heap_inv :: "lz_state \<Rightarrow> heap_desc \<Rightarrow> (addr \<Rightarrow> addr list) \<Rightarrow> (addr \<Rightarrow> addr list) \<Rightarrow> bool" where
  "heap_inv st G M B \<longleftrightarrow> heap_struct st G \<and> status_ok G \<and> msgs_ok st G M B"

lemma heap_invD:
  assumes "heap_inv st G M B"
  shows "heap_struct st G" "status_ok G" "msgs_ok st G M B"
  using assms by (simp_all add: heap_inv_def)

lemma msgs_okD:
  assumes "msgs_ok st G M B"
  shows "T \<in> gheaps G \<Longrightarrow> mail_ok st G T (M T)" "T \<in> gheaps G \<Longrightarrow> batch_ok st G T (B T)" "apart (gheaps G) M B"
  using assms by (simp_all add: msgs_ok_def)

lemma apartD:
  assumes "apart H M B" "T \<in> H" "T' \<in> H"
  shows "T \<noteq> T' \<Longrightarrow> set (M T) \<inter> set (M T') = {}" "T \<noteq> T' \<Longrightarrow> set (B T) \<inter> set (B T') = {}" "set (M T) \<inter> set (B T') = {}"
  using assms unfolding apart_def by blast+

lemma batch_okD:
  assumes "batch_ok st G T ys"
  shows "chain (clear_link st) (bt_head (tl_outgoing_batch (tlhs st T))) ys"
    "unat (bt_count (tl_outgoing_batch (tlhs st T))) = length ys" "length ys \<le> 64"
    "ys \<noteq> [] \<Longrightarrow> bt_tail (tl_outgoing_batch (tlhs st T)) = last ys"
    "ys \<noteq> [] \<Longrightarrow> bt_target_tlh (tl_outgoing_batch (tlhs st T)) \<in> gheaps G"
    "y \<in> set ys \<Longrightarrow> \<exists>n. block st G (bt_target_tlh (tl_outgoing_batch (tlhs st T))) y n"
  using assms unfolding batch_ok_def Let_def by blast+

lemma pending_block:
  assumes "msgs_ok st G M B" "x \<in> pending G M B"
  shows "\<exists>T n. block st G T x n"
proof -
  obtain T where T: "T \<in> gheaps G" "x \<in> set (M T) \<or> x \<in> set (B T)" using assms(2) by (auto simp: pending_def)
  then show ?thesis
    using msgs_okD(1) [OF assms(1) T(1)] batch_okD(6) [OF msgs_okD(2) [OF assms(1) T(1)]] unfolding mail_ok_def by blast
qed

text \<open>A step that leaves the links and the blocks of some messages alone.\<close>

lemma mail_ok_same:
  assumes "mail_ok st G T xs" and "tl_remote_free_head (tlhs st' T) = tl_remote_free_head (tlhs st T)"
    and "\<And>x n. x \<in> set xs \<Longrightarrow> block st G T x n \<Longrightarrow> block st' G' T x n \<and> clear_link st' x = clear_link st x"
  shows "mail_ok st' G' T xs"
proof -
  have b: "\<exists>n. block st G T x n" if "x \<in> set xs" for x using assms(1) that by (simp add: mail_ok_def)
  have "clear_link st' x = clear_link st x" if "x \<in> set xs" for x using b [OF that] assms(3) [OF that] by blast
  then have "chain (clear_link st') p xs = chain (clear_link st) p xs" for p by (rule chain_cong)
  moreover have "\<exists>n. block st' G' T x n" if "x \<in> set xs" for x using b [OF that] assms(3) [OF that] by blast
  ultimately show ?thesis using assms(1,2) by (simp add: mail_ok_def)
qed

lemma batch_ok_same:
  assumes "batch_ok st G T ys" and "tl_outgoing_batch (tlhs st' T) = tl_outgoing_batch (tlhs st T)" "gheaps G \<subseteq> gheaps G'"
    and "\<And>x U n. x \<in> set ys \<Longrightarrow> block st G U x n \<Longrightarrow> block st' G' U x n \<and> clear_link st' x = clear_link st x"
  shows "batch_ok st' G' T ys"
proof -
  note b = batch_okD [OF assms(1)]
  have "clear_link st' x = clear_link st x" if "x \<in> set ys" for x using b(6) [OF that] assms(4) [OF that] by blast
  then have "chain (clear_link st') p ys = chain (clear_link st) p ys" for p by (rule chain_cong)
  moreover have "\<exists>n. block st' G' (bt_target_tlh (tl_outgoing_batch (tlhs st T))) x n" if "x \<in> set ys" for x
    using b(6) [OF that] assms(4) [OF that] by blast
  moreover have "bt_target_tlh (tl_outgoing_batch (tlhs st T)) \<in> gheaps G'" if "ys \<noteq> []" using b(5) [OF that] assms(3) by blast
  ultimately show ?thesis using b(1-4) assms(2) by (simp add: batch_ok_def Let_def)
qed

lemma tlh_outerD:
  assumes "tlh_outer h' = tlh_outer h"
  shows "tl_remote_free_head h' = tl_remote_free_head h" "tl_outgoing_batch h' = tl_outgoing_batch h"
    "tl_next_zombie h' = tl_next_zombie h" "tl_is_zombie h' = tl_is_zombie h" "tl_thread_id h' = tl_thread_id h"
  using assms by (simp_all add: tlh_outer_def)

lemma msgs_evolves:
  assumes inv: "heap_struct st G" and m: "msgs_ok st G M B" and ev: "evolves X st G st' G'" and X: "X \<inter> pending G M B = {}"
  shows "msgs_ok st' G' M B"
proof -
  have h: "gheaps G' = gheaps G" by (rule evolvesD(2) [OF ev])
  have same: "block st' G' U x n \<and> clear_link st' x = clear_link st x" if "x \<in> pending G M B" "block st G U x n" for U x n
  proof -
    have "x \<notin> X" using that(1) X by blast
    then show ?thesis using evolvesD(8) [OF ev] that(2) clear_link_evolves [OF inv ev that(2)] by blast
  qed
  have "mail_ok st' G' T (M T)" "batch_ok st' G' T (B T)" if T: "T \<in> gheaps G" for T
  proof -
    note o = tlh_outerD [OF evolvesD(3) [OF ev T]]
    show "mail_ok st' G' T (M T)"
      by (rule mail_ok_same [OF msgs_okD(1) [OF m T] o(1) same]) (use T in \<open>auto simp: pending_def\<close>)
    show "batch_ok st' G' T (B T)"
      by (rule batch_ok_same [OF msgs_okD(2) [OF m T] o(2) _ same]) (use T h in \<open>auto simp: pending_def\<close>)
  qed
  then show ?thesis using msgs_okD(3) [OF m] by (simp add: msgs_ok_def h)
qed

section \<open>Steps of the whole allocator\<close>

text \<open>
  What the messages change is left out: outside \<open>X\<close> the blocks are the same and hold the same bytes,
  and direct mappings, threads and globals are untouched.
\<close>

definition thread_part :: "lz_tlh \<Rightarrow> addr \<times> u32 \<times> u32" where
  "thread_part h = (tl_next_zombie h, tl_is_zombie h, tl_thread_id h)"

definition heap_step :: "addr set \<Rightarrow> lz_state \<Rightarrow> heap_desc \<Rightarrow> lz_state \<Rightarrow> heap_desc \<Rightarrow> bool" where
  "heap_step X st G st' G' \<longleftrightarrow> outer_globals st st' \<and> gheaps G' = gheaps G \<and>
     (\<forall>T\<in>gheaps G. thread_part (tlhs st' T) = thread_part (tlhs st T) \<and>
        tl_stat_slot (tlhs st' T) = tl_stat_slot (tlhs st T)) \<and>
     (\<forall>c d. gown G' c = Some (Direct_of d) \<longleftrightarrow> gown G c = Some (Direct_of d)) \<and>
     (\<forall>a\<in>direct_memory G. mem st' a = mem st a \<and> hdrs st' a = hdrs st a \<and> metas st' a = metas st a) \<and>
     (\<forall>a. valid st a \<longrightarrow> valid st' a) \<and>
     (\<forall>T y n. y \<notin> X \<longrightarrow> (block st' G' T y n \<longleftrightarrow> block st G T y n)) \<and>
     (\<forall>T y n. y \<notin> X \<longrightarrow> block st G T y n \<longrightarrow> (\<forall>a\<in>bytes y n. mem st' a = mem st a))"

lemma heap_step_refl [simp]: "heap_step X st G st G"
  by (simp add: heap_step_def outer_globals_def)

lemma heap_stepD:
  assumes "heap_step X st G st' G'"
  shows "outer_globals st st'" "gheaps G' = gheaps G"
    "T \<in> gheaps G \<Longrightarrow> thread_part (tlhs st' T) = thread_part (tlhs st T)"
    "T \<in> gheaps G \<Longrightarrow> tl_stat_slot (tlhs st' T) = tl_stat_slot (tlhs st T)"
    "gown G' c = Some (Direct_of d) \<longleftrightarrow> gown G c = Some (Direct_of d)"
    "a \<in> direct_memory G \<Longrightarrow> mem st' a = mem st a \<and> hdrs st' a = hdrs st a \<and> metas st' a = metas st a"
    "valid st a \<Longrightarrow> valid st' a"
    "y \<notin> X \<Longrightarrow> block st' G' T y n \<longleftrightarrow> block st G T y n"
    "y \<notin> X \<Longrightarrow> block st G T y n \<Longrightarrow> a \<in> bytes y n \<Longrightarrow> mem st' a = mem st a"
  using assms unfolding heap_step_def by blast+

lemma evolves_step:
  assumes "evolves X st G st' G'"
  shows "heap_step X st G st' G'"
proof -
  have "thread_part (tlhs st' T) = thread_part (tlhs st T)" if "T \<in> gheaps G" for T
    using tlh_outerD [OF evolvesD(3) [OF assms that]] by (simp add: thread_part_def)
  then show ?thesis using assms unfolding heap_step_def evolves_def by blast
qed

lemma heap_step_mono: "heap_step X st G st' G' \<Longrightarrow> X \<subseteq> Y \<Longrightarrow> heap_step Y st G st' G'"
  unfolding heap_step_def by blast

lemma heap_step_trans:
  assumes a: "heap_step X st G st' G'" and b: "heap_step Y st' G' st'' G''"
  shows "heap_step (X \<union> Y) st G st'' G''"
proof -
  note A = heap_stepD [OF a] and B = heap_stepD [OF b]
  have d: "direct_memory G' = direct_memory G" unfolding direct_memory_def using A(5) by simp
  have "outer_globals st st''" using A(1) B(1) by (simp add: outer_globals_def)
  moreover have "\<forall>a\<in>direct_memory G. mem st'' a = mem st a \<and> hdrs st'' a = hdrs st a \<and> metas st'' a = metas st a"
    using A(6) B(6) d by simp
  moreover have "block st'' G'' T y n \<longleftrightarrow> block st G T y n" if "y \<notin> X \<union> Y" for T y n
    using A(8) [of y T n] B(8) [of y T n] that by simp
  moreover have "mem st'' a = mem st a" if "y \<notin> X \<union> Y" "block st G T y n" "a \<in> bytes y n" for T y n a
    using A(8) [of y T n] A(9) [of y T n a] B(9) [of y T n a] that by simp
  ultimately show ?thesis
    unfolding heap_step_def using A(2-5,7) B(2-5,7) by auto
qed

text \<open>A step that changes only the messages of heaps.\<close>

lemma struct_mail:
  assumes inv: "heap_struct st G" and st': "st' = st\<lparr>tlhs := (tlhs st)(T := h)\<rparr>"
    and h: "tl_bins h = tl_bins (tlhs st T)" "tl_active_spans h = tl_active_spans (tlhs st T)"
      "tl_stat_slot h = tl_stat_slot (tlhs st T)" "thread_part h = thread_part (tlhs st T)"
  shows "heap_struct st' G" "heap_step {} st G st' G" "block st' G U y n \<longleftrightarrow> block st G U y n" "clear_link st' = clear_link st"
proof -
  have st'': "st' = st\<lparr>stats := stats st, tlhs := (tlhs st)(T := h)\<rparr>" using st' by simp
  show "heap_struct st' G" by (rule struct_tlh(1) [OF inv st'' h(1-3)])
  have "span_start st' = span_start st" by (simp add: span_start_def fun_eq_iff st')
  then have b: "block st' G U y n \<longleftrightarrow> block st G U y n" for U y n by (simp only: block_def block_at_def)
  then show "block st' G U y n \<longleftrightarrow> block st G U y n" by blast
  show "heap_step {} st G st' G"
    unfolding heap_step_def b using h by (simp add: st' outer_globals_def valid_def)
  show "clear_link st' = clear_link st" by (simp add: clear_link_def st' fun_eq_iff)
qed

section \<open>Reaping\<close>

lemma apart_mail:
  assumes "apart H M B" "set xs \<subseteq> set (M T)"
  shows "apart H (M(T := xs)) B"
  using assms unfolding apart_def by auto blast+

lemma tlh_reap_correct:
  assumes ok: "mmap_ok env" and inv: "heap_inv st G M B" and T: "T \<in> gheaps G"
  shows "\<exists>st' G'. lz_tlh_reap env T st = Some st' \<and> heap_inv st' G' (M(T := [])) B \<and>
    heap_step (set (M T)) st G st' G' \<and> (\<forall>x\<in>set (M T). \<forall>U n. \<not> block st' G' U x n)"
proof -
  note I = heap_invD [OF inv]
  let ?h = "(tlhs st T)\<lparr>tl_remote_free_head := 0\<rparr>"
  let ?M = "M(T := [])"
  define st1 where "st1 = st\<lparr>tlhs := (tlhs st)(T := ?h)\<rparr>"
  have "thread_part ?h = thread_part (tlhs st T)" by (simp add: thread_part_def)
  note m = struct_mail [OF I(1) st1_def _ _ _ this, simplified]
  have v: "valid st T" by (rule stat_valid(1) [OF I(1) T])
  have mail: "chain (clear_link st1) (tl_remote_free_head (tlhs st T)) (M T)" "\<forall>x\<in>set (M T). \<exists>n. block st1 G T x n"
    using msgs_okD(1) [OF I(3) T] m(3,4) by (simp_all add: mail_ok_def)
  have "mail_ok st1 G U (?M U)" "batch_ok st1 G U (B U)" if U: "U \<in> gheaps G" for U
  proof -
    show "mail_ok st1 G U (?M U)"
    proof (cases "U = T")
      case True
      then show ?thesis by (simp add: mail_ok_def st1_def)
    next
      case False
      then show ?thesis using mail_ok_same [OF msgs_okD(1) [OF I(3) U], of st1 G] m(3,4) by (simp add: st1_def)
    qed
    show "batch_ok st1 G U (B U)"
      by (rule batch_ok_same [OF msgs_okD(2) [OF I(3) U]]) (use m(3,4) in \<open>auto simp: st1_def\<close>)
  qed
  moreover have "apart (gheaps G) ?M B" by (rule apart_mail [OF msgs_okD(3) [OF I(3)]]) simp
  ultimately have m1: "msgs_ok st1 G ?M B" by (simp add: msgs_ok_def)
  obtain st2 G2 where st2: "reap_list env T (tl_remote_free_head (tlhs st T)) st1 = Some st2" "heap_struct st2 G2" "status_ok G2"
    "evolves (set (M T)) st1 G st2 G2" "\<forall>x\<in>set (M T). \<forall>U n. \<not> block st2 G2 U x n"
    using reap_list_spec [OF ok m(1) I(2) mail] by blast
  have "set (M T) \<inter> pending G ?M B = {}"
    using apartD(1,3) [OF msgs_okD(3) [OF I(3)] T] by (fastforce simp: pending_def split: if_splits)
  from msgs_evolves [OF m(1) m1 st2(4) this] have "heap_inv st2 G2 ?M B" using st2(2,3) by (simp add: heap_inv_def)
  moreover have "heap_step (set (M T)) st G st2 G2" using heap_step_trans [OF m(2) evolves_step [OF st2(4)]] by simp
  moreover have "lz_tlh_reap env T st = Some st2" using v st2(1) by (simp add: lz_tlh_reap_def get_tlh_def upd_tlh_def st1_def)
  ultimately show ?thesis using st2(5) by blast
qed

section \<open>Flushing the batch\<close>

lemma chain_snoc: "chain nx p xs \<Longrightarrow> xs \<noteq> [] \<Longrightarrow> chain nx q ys \<Longrightarrow> set xs \<inter> set ys = {} \<Longrightarrow> chain (nx(last xs := q)) p (xs @ ys)"
proof (induction xs arbitrary: p)
  case (Cons x xs)
  show ?case
  proof (cases "xs = []")
    case True
    then show ?thesis using Cons.prems by (simp add: chain_upd del: fun_upd_apply) (simp only: fun_upd_same chain_upd)
  next
    case False
    have "x \<noteq> last xs" using chain_distinct [OF Cons.prems(1)] False by auto
    then show ?thesis using Cons.IH [of "nx x"] Cons.prems False by auto
  qed
qed simp

text \<open>The link of a block is written: other blocks keep their links.\<close>

lemma struct_link:
  fixes v :: addr
  assumes inv: "heap_struct st G" and b: "block st G T x n"
  defines "st' \<equiv> st\<lparr>mem := store64 x v (mem st)\<rparr>"
  shows "write_ptr x v st = Some st'" "heap_struct st' G" "evolves {x} st G st' G"
    "block st' G U y m \<longleftrightarrow> block st G U y m" "clear_link st' x = v"
    "block st G U y m \<Longrightarrow> y \<noteq> x \<Longrightarrow> clear_link st' y = clear_link st y"
proof -
  note w = block_word [OF inv b]
  show "write_ptr x v st = Some st'" using w(2,3) by (simp add: write_ptr_def st'_def)
  have out: "store64 x v (mem st) a = mem st a" if "a \<notin> bytes x n" for a using store64_outside [of a x] w(1) that by blast
  note s = struct_write [OF inv b, of "store64 x v (mem st)", folded st'_def]
  show "heap_struct st' G" "evolves {x} st G st' G" by (rule s; use out in blast)+
  show "block st' G U y m \<longleftrightarrow> block st G U y m" by (rule s(3)) (use out in blast)
  show "clear_link st' x = v" by (simp add: clear_link_def st'_def load64_store64)
  show "clear_link st' y = clear_link st y" if "block st G U y m" "y \<noteq> x"
    by (rule clear_link_evolves [OF inv \<open>evolves {x} st G st' G\<close> that(1)]) (use that in simp)
qed

abbreviation (input) empty_batch :: lz_batch where
  "empty_batch \<equiv> \<lparr>bt_target_tlh = 0, bt_head = 0, bt_tail = 0, bt_count = 0\<rparr>"

lemma apart_flush:
  assumes a: "apart H M B" and T: "T \<in> H" and U: "U \<in> H"
  shows "apart H (M(U := B T @ M U)) (B(T := []))"
proof -
  have "set (M V) \<inter> set (B T) = {}" if "V \<in> H" for V using apartD(3) [OF a that T] .
  then show ?thesis using a T U unfolding apart_def by (auto; blast)
qed

lemma pending_flush:
  "T \<in> gheaps G \<Longrightarrow> U \<in> gheaps G \<Longrightarrow> pending G (M(U := B T @ M U)) (B(T := [])) = pending G M B"
proof -
  assume T: "T \<in> gheaps G" and U: "U \<in> gheaps G"
  have a: "(\<Union>V\<in>gheaps G. set ((M(U := B T @ M U)) V)) = (\<Union>V\<in>gheaps G. set (M V)) \<union> set (B T)"
    using U by (auto split: if_splits)
  have b: "(\<Union>V\<in>gheaps G. set ((B(T := [])) V)) \<union> set (B T) = (\<Union>V\<in>gheaps G. set (B V))"
    using T by (auto split: if_splits)
  show ?thesis unfolding pending_def UN_Un_distrib a Un_assoc by (subst b [symmetric]) (simp only: Un_ac)
qed

lemma flush_moves:
  assumes inv: "heap_inv st G M B" and T: "T \<in> gheaps G" and ne: "B T \<noteq> []"
    and U: "U = bt_target_tlh (tl_outgoing_batch (tlhs st T))"
  shows "\<exists>st'. lz_tlh_flush_outgoing_batch T st = Some st' \<and> heap_inv st' G (M(U := B T @ M U)) (B(T := [])) \<and>
    heap_step (set (B T)) st G st' G \<and> tl_outgoing_batch (tlhs st' T) = empty_batch \<and>
    (\<forall>V y n. block st' G V y n \<longleftrightarrow> block st G V y n)"
proof -
  note I = heap_invD [OF inv]
  let ?b = "tl_outgoing_batch (tlhs st T)"
  note b = batch_okD [OF msgs_okD(2) [OF I(3) T]]
  have UH: "U \<in> gheaps G" using b(5) [OF ne] U by simp
  have U0: "U \<noteq> 0" using UH desc_okD(6) [OF heap_structD(5) [OF I(1)]] by auto
  define t where "t = last (B T)"
  have tB: "t \<in> set (B T)" using ne by (simp add: t_def)
  then obtain n where tb: "block st G U t n" using b(6) U by blast
  define old where "old = tl_remote_free_head (tlhs st U)"
  define st1 where "st1 = st\<lparr>mem := store64 t old (mem st)\<rparr>"
  note l = struct_link [OF I(1) tb, where v = old, folded st1_def]
  define st2 where "st2 = st1\<lparr>tlhs := (tlhs st1)(U := (tlhs st1 U)\<lparr>tl_remote_free_head := bt_head ?b\<rparr>)\<rparr>"
  note m2 = struct_mail [OF l(2) st2_def, simplified thread_part_def, simplified, folded thread_part_def]
  define st3 where "st3 = st2\<lparr>tlhs := (tlhs st2)(T := (tlhs st2 T)\<lparr>tl_outgoing_batch := empty_batch\<rparr>)\<rparr>"
  note m3 = struct_mail [OF m2(1) st3_def, simplified thread_part_def, simplified, folded thread_part_def]
  have cnt: "bt_count ?b \<noteq> 0" using b(2) ne by auto
  have v: "valid st T" "valid st U" using stat_valid(1) [OF I(1) T] stat_valid(1) [OF I(1) UH] .
  have run: "lz_tlh_flush_outgoing_batch T st = Some st3"
    using cnt U0 U v b(4) [OF ne] l(1)
    by (simp add: lz_tlh_flush_outgoing_batch_def get_tlh_def upd_tlh_def Let_def st3_def st2_def st1_def old_def t_def valid_def)
  have bl: "block st3 G V y k \<longleftrightarrow> block st G V y k" for V y k using m3(3) m2(3) l(4) by simp
  have cl: "clear_link st3 y = clear_link st y" if "block st G V y k" "y \<noteq> t" for V y k using m3(4) m2(4) l(6) [OF that] by simp
  have clt: "clear_link st3 t = old" using m3(4) m2(4) l(5) by simp
  have ap: "apart (gheaps G) M B" by (rule msgs_okD(3) [OF I(3)])
  have "mail_ok st3 G V ((M(U := B T @ M U)) V)" if V: "V \<in> gheaps G" for V
  proof (cases "V = U")
    case True
    note mU = msgs_okD(1) [OF I(3) UH, unfolded mail_ok_def]
    have "chain ((clear_link st)(t := old)) (bt_head ?b) (B T @ M U)"
      unfolding t_def by (rule chain_snoc [OF b(1) ne]) (use mU apartD(3) [OF ap UH T] in \<open>auto simp: old_def\<close>)
    moreover have "clear_link st3 y = ((clear_link st)(t := old)) y" if "y \<in> set (B T @ M U)" for y
    proof (cases "y = t")
      case False
      have "\<exists>k. block st G U y k" using that b(6) mU U by auto
      then show ?thesis using cl False by auto
    qed (use clt in simp)
    ultimately have "chain (clear_link st3) (bt_head ?b) (B T @ M U)" using chain_cong by blast
    moreover have "tl_remote_free_head (tlhs st3 U) = bt_head ?b" by (simp add: st3_def st2_def)
    moreover have "\<exists>k. block st3 G U y k" if "y \<in> set (B T @ M U)" for y using that b(6) mU bl U by auto
    ultimately show ?thesis using True by (simp add: mail_ok_def)
  next
    case False
    have "mail_ok st3 G V (M V)"
    proof (rule mail_ok_same [OF msgs_okD(1) [OF I(3) V]])
      show "tl_remote_free_head (tlhs st3 V) = tl_remote_free_head (tlhs st V)" using False by (simp add: st3_def st2_def st1_def)
      fix x k assume x: "x \<in> set (M V)" "block st G V x k"
      then have "x \<noteq> t" using apartD(3) [OF ap V T] tB by auto
      then show "block st3 G V x k \<and> clear_link st3 x = clear_link st x" using x bl cl by blast
    qed
    then show ?thesis using False by simp
  qed
  moreover have "batch_ok st3 G V ((B(T := [])) V)" if V: "V \<in> gheaps G" for V
  proof (cases "V = T")
    case True
    then show ?thesis by (simp add: batch_ok_def st3_def Let_def)
  next
    case False
    have "batch_ok st3 G V (B V)"
    proof (rule batch_ok_same [OF msgs_okD(2) [OF I(3) V]])
      show "tl_outgoing_batch (tlhs st3 V) = tl_outgoing_batch (tlhs st V)" using False by (simp add: st3_def st2_def st1_def)
      fix x W k assume x: "x \<in> set (B V)" "block st G W x k"
      then have "x \<noteq> t" using apartD(2) [OF ap V T False] tB by auto
      then show "block st3 G W x k \<and> clear_link st3 x = clear_link st x" using x bl cl by blast
    qed simp
    then show ?thesis using False by simp
  qed
  ultimately have "heap_inv st3 G (M(U := B T @ M U)) (B(T := []))"
    using m3(1) I(2) apart_flush [OF ap T UH] by (simp add: heap_inv_def msgs_ok_def)
  moreover have "heap_step ({t} \<union> {} \<union> {}) st G st3 G"
    by (rule heap_step_trans [OF heap_step_trans [OF evolves_step [OF l(3)] m2(2)] m3(2)])
  then have "heap_step (set (B T)) st G st3 G" by (rule heap_step_mono) (use tB in simp)
  ultimately show ?thesis using run bl by (auto simp: st3_def)
qed

lemma tlh_flush_correct:
  assumes inv: "heap_inv st G M B" and T: "T \<in> gheaps G"
  shows "\<exists>st' M' B'. lz_tlh_flush_outgoing_batch T st = Some st' \<and> heap_inv st' G M' B' \<and> B' T = [] \<and>
    pending G M' B' = pending G M B \<and> heap_step (pending G M B) st G st' G \<and>
    (\<forall>V y n. block st' G V y n \<longleftrightarrow> block st G V y n)"
proof (cases "B T = []")
  case True
  have "bt_count (tl_outgoing_batch (tlhs st T)) = 0"
    using batch_okD(2) [OF msgs_okD(2) [OF heap_invD(3) [OF inv] T]] True by (simp add: unat_eq_0)
  then have "lz_tlh_flush_outgoing_batch T st = Some st"
    using stat_valid(1) [OF heap_invD(1) [OF inv] T] by (simp add: lz_tlh_flush_outgoing_batch_def get_tlh_def)
  then show ?thesis using inv True heap_step_refl by blast
next
  case False
  let ?U = "bt_target_tlh (tl_outgoing_batch (tlhs st T))"
  have U: "?U \<in> gheaps G" by (rule batch_okD(5) [OF msgs_okD(2) [OF heap_invD(3) [OF inv] T] False])
  obtain st' where st': "lz_tlh_flush_outgoing_batch T st = Some st'" "heap_inv st' G (M(?U := B T @ M ?U)) (B(T := []))"
    "heap_step (set (B T)) st G st' G" "\<forall>V y n. block st' G V y n \<longleftrightarrow> block st G V y n"
    using flush_moves [OF inv T False refl] by blast
  have "heap_step (pending G M B) st G st' G" by (rule heap_step_mono [OF st'(3)]) (use T in \<open>auto simp: pending_def\<close>)
  then show ?thesis using st'(1,2,4) pending_flush [OF T U, of M B] by (metis fun_upd_same)
qed

section \<open>Adding to the batch\<close>

lemma apart_add:
  assumes "apart H M B" "\<And>V. V \<in> H \<Longrightarrow> x \<notin> set (M V) \<union> set (B V)"
  shows "apart H M (B(T := x # B T))"
  using assms unfolding apart_def by auto

lemma pending_add: "T \<in> gheaps G \<Longrightarrow> pending G M (B(T := x # B T)) = insert x (pending G M B)"
  unfolding pending_def by (auto split: if_splits)

definition batch_add :: "addr \<Rightarrow> addr \<Rightarrow> lz_state \<Rightarrow> lz_state option" where
  "batch_add T x st = do {
     h \<leftarrow> get_tlh st T;
     let batch = tl_outgoing_batch h;
     st \<leftarrow> write_ptr x (bt_head batch) st;
     upd_tlh T (\<lambda>h. h\<lparr>tl_outgoing_batch := batch\<lparr>bt_head := x,
       bt_tail := (if bt_count batch = 0 then x else bt_tail batch), bt_count := bt_count batch + 1\<rparr>\<rparr>) st }"

lemma batch_add_correct:
  assumes inv: "heap_inv st G M B" and T: "T \<in> gheaps G" and len: "length (B T) < 64"
    and U: "bt_target_tlh (tl_outgoing_batch (tlhs st T)) \<in> gheaps G" "block st G (bt_target_tlh (tl_outgoing_batch (tlhs st T))) x n"
    and x: "x \<notin> pending G M B"
  shows "\<exists>st'. batch_add T x st = Some st' \<and> heap_inv st' G M (B(T := x # B T)) \<and> heap_step {x} st G st' G \<and>
    (\<forall>V y n. block st' G V y n \<longleftrightarrow> block st G V y n)"
proof -
  note I = heap_invD [OF inv]
  let ?b = "tl_outgoing_batch (tlhs st T)"
  note b = batch_okD [OF msgs_okD(2) [OF I(3) T]]
  define st1 where "st1 = st\<lparr>mem := store64 x (bt_head ?b) (mem st)\<rparr>"
  note l = struct_link [OF I(1) U(2), where v = "bt_head ?b", folded st1_def]
  define nb where "nb = ?b\<lparr>bt_head := x, bt_tail := (if bt_count ?b = 0 then x else bt_tail ?b), bt_count := bt_count ?b + 1\<rparr>"
  define st2 where "st2 = st1\<lparr>tlhs := (tlhs st1)(T := (tlhs st1 T)\<lparr>tl_outgoing_batch := nb\<rparr>)\<rparr>"
  note m2 = struct_mail [OF l(2) st2_def, simplified thread_part_def, simplified, folded thread_part_def]
  have run: "batch_add T x st = Some st2"
    using stat_valid(1) [OF I(1) T] l(1)
    by (simp add: batch_add_def get_tlh_def upd_tlh_def Let_def st2_def nb_def) (simp add: st1_def valid_def)
  have bl: "block st2 G V y k \<longleftrightarrow> block st G V y k" for V y k using m2(3) l(4) by simp
  have cl: "clear_link st2 y = clear_link st y" if "block st G V y k" "y \<noteq> x" for V y k using m2(4) l(6) [OF that] by simp
  have nx: "y \<noteq> x" if "V \<in> gheaps G" "y \<in> set (M V) \<union> set (B V)" for V y using x that by (auto simp: pending_def)
  have "mail_ok st2 G V (M V)" if V: "V \<in> gheaps G" for V
    by (rule mail_ok_same [OF msgs_okD(1) [OF I(3) V]]) (use bl cl nx [OF V] in \<open>auto simp: st2_def st1_def\<close>)
  moreover have "batch_ok st2 G V ((B(T := x # B T)) V)" if V: "V \<in> gheaps G" for V
  proof (cases "V = T")
    case False
    have "batch_ok st2 G V (B V)"
      by (rule batch_ok_same [OF msgs_okD(2) [OF I(3) V]]) (use bl cl nx [OF V] False in \<open>auto simp: st2_def st1_def\<close>)
    then show ?thesis using False by simp
  next
    case True
    have o: "tl_outgoing_batch (tlhs st2 T) = nb" by (simp add: st2_def)
    have "clear_link st2 y = clear_link st y" if "y \<in> set (B T)" for y using b(6) [OF that] cl nx [OF T] that by blast
    then have "chain (clear_link st2) (bt_head ?b) (B T)" using b(1) chain_cong by blast
    moreover have "clear_link st2 x = bt_head ?b" "x \<noteq> 0" using m2(4) l(5) block_word(4) [OF I(1) U(2)] by simp_all
    moreover have "unat (bt_count ?b + 1) = Suc (length (B T))" using b(2) len by (simp add: unat_word_ariths)
    moreover have "bt_count ?b = 0 \<longleftrightarrow> B T = []" using b(2) by (metis length_0_conv unat_eq_0)
    moreover have "\<exists>k. block st2 G (bt_target_tlh ?b) y k" if "y \<in> set (x # B T)" for y using that b(6) U(2) bl by auto
    ultimately show ?thesis using True o len b(4) U(1) by (auto simp: batch_ok_def Let_def nb_def)
  qed
  moreover have "apart (gheaps G) M (B(T := x # B T))" by (rule apart_add [OF msgs_okD(3) [OF I(3)]]) (use nx in blast)
  ultimately have "heap_inv st2 G M (B(T := x # B T))" using m2(1) I(2) by (simp add: heap_inv_def msgs_ok_def)
  moreover have "heap_step {x} st G st2 G" using heap_step_trans [OF evolves_step [OF l(3)] m2(2)] by simp
  ultimately show ?thesis using run bl by blast
qed

lemma heap_inv_evolves:
  assumes inv: "heap_inv st G M B" and "heap_struct st' G'" "status_ok G'" "evolves X st G st' G'" "X \<inter> pending G M B = {}"
  shows "heap_inv st' G' M B"
  using assms msgs_evolves [OF heap_invD(1,3) [OF inv] assms(4,5)] by (simp add: heap_inv_def)

text \<open>Retargeting an empty batch.\<close>

lemma retarget_correct:
  fixes U :: addr
  assumes inv: "heap_inv st G M B" and T: "T \<in> gheaps G" and e: "B T = []"
  defines "st' \<equiv> st\<lparr>tlhs := (tlhs st)(T := (tlhs st T)\<lparr>tl_outgoing_batch := (tl_outgoing_batch (tlhs st T))\<lparr>bt_target_tlh := U\<rparr>\<rparr>)\<rparr>"
  shows "heap_inv st' G M B" "heap_step {} st G st' G" "block st' G V y n \<longleftrightarrow> block st G V y n"
proof -
  note I = heap_invD [OF inv]
  note m = struct_mail [OF I(1) st'_def [THEN meta_eq_to_obj_eq], simplified thread_part_def, simplified, folded thread_part_def]
  show "heap_step {} st G st' G" "block st' G V y n \<longleftrightarrow> block st G V y n" by (rule m)+
  have "mail_ok st' G V (M V)" if V: "V \<in> gheaps G" for V
    by (rule mail_ok_same [OF msgs_okD(1) [OF I(3) V]]) (use m(3,4) in \<open>auto simp: st'_def\<close>)
  moreover have "batch_ok st' G V (B V)" if V: "V \<in> gheaps G" for V
  proof (cases "V = T")
    case True
    then show ?thesis using msgs_okD(2) [OF I(3) T] e by (simp add: batch_ok_def Let_def st'_def)
  next
    case False
    then show ?thesis
      by (intro batch_ok_same [OF msgs_okD(2) [OF I(3) V]]) (use m(3,4) in \<open>auto simp: st'_def\<close>)
  qed
  ultimately show "heap_inv st' G M B" using m(1) I(2) msgs_okD(3) [OF I(3)] by (simp add: heap_inv_def msgs_ok_def)
qed

lemma batch_free_correct:
  assumes inv: "heap_inv st G M B" and T: "T \<in> gheaps G" and U: "U \<in> gheaps G" "block st G U x n" and x: "x \<notin> pending G M B"
  shows "\<exists>st' M' B'. batch_free T U x st = Some st' \<and> heap_inv st' G M' B' \<and>
    pending G M' B' = insert x (pending G M B) \<and> heap_step (insert x (pending G M B)) st G st' G \<and>
    (\<forall>V y n. block st' G V y n \<longleftrightarrow> block st G V y n)"
proof -
  note I = heap_invD [OF inv]
  define st1 where "st1 = st\<lparr>mem := store64 x 0 (mem st)\<rparr>"
  note l = struct_link [OF I(1) U(2), where v = 0, folded st1_def]
  have inv1: "heap_inv st1 G M B" by (rule heap_inv_evolves [OF inv l(2) I(2) l(3)]) (use x in simp)
  let ?b = "tl_outgoing_batch (tlhs st1 T)"
  have v1: "valid st1 T" by (rule stat_valid(1) [OF l(2) T])
  note b = batch_okD [OF msgs_okD(2) [OF heap_invD(3) [OF inv1] T]]
  obtain st2 M2 B2 where st2: "(if bt_target_tlh ?b \<noteq> U \<or> bt_count ?b \<ge> LZ_BATCH_MAX_SIZE then do {
              st \<leftarrow> lz_tlh_flush_outgoing_batch T st1;
              upd_tlh T (\<lambda>h. h\<lparr>tl_outgoing_batch := (tl_outgoing_batch h)\<lparr>bt_target_tlh := U\<rparr>\<rparr>) st }
            else Some st1) = Some st2"
    "heap_inv st2 G M2 B2" "length (B2 T) < 64" "bt_target_tlh (tl_outgoing_batch (tlhs st2 T)) = U"
    "pending G M2 B2 = pending G M B" "heap_step (pending G M B) st1 G st2 G"
    "\<And>V y n. block st2 G V y n \<longleftrightarrow> block st1 G V y n"
  proof (cases "bt_target_tlh ?b \<noteq> U \<or> bt_count ?b \<ge> LZ_BATCH_MAX_SIZE")
    case False
    then have "length (B T) < 64" using b(2) by (simp add: word_le_nat_alt)
    then show thesis using that [of st1 M B] False inv1 by simp
  next
    case True
    obtain s M2 B2 where s: "lz_tlh_flush_outgoing_batch T st1 = Some s" "heap_inv s G M2 B2" "B2 T = []"
      "pending G M2 B2 = pending G M B" "heap_step (pending G M B) st1 G s G" "\<forall>V y n. block s G V y n \<longleftrightarrow> block st1 G V y n"
      using tlh_flush_correct [OF inv1 T] by blast
    let ?s = "s\<lparr>tlhs := (tlhs s)(T := (tlhs s T)\<lparr>tl_outgoing_batch := (tl_outgoing_batch (tlhs s T))\<lparr>bt_target_tlh := U\<rparr>\<rparr>)\<rparr>"
    note r = retarget_correct [OF s(2) T s(3), of U]
    have "heap_step (pending G M B) st1 G ?s G" using heap_step_trans [OF s(5) r(2)] by simp
    then show thesis
      using that [of ?s M2 B2] True s(1,3,4,6) r(1,3) stat_valid(1) [OF heap_invD(1) [OF s(2)] T]
      by (simp add: upd_tlh_def)
  qed
  have x2: "block st2 G (bt_target_tlh (tl_outgoing_batch (tlhs st2 T))) x n" using st2(4,7) l(4) U(2) by simp
  obtain st3 where st3: "batch_add T x st2 = Some st3" "heap_inv st3 G M2 (B2(T := x # B2 T))" "heap_step {x} st2 G st3 G"
    "\<forall>V y n. block st3 G V y n \<longleftrightarrow> block st2 G V y n"
    using batch_add_correct [OF st2(2) T st2(3) _ x2] st2(4,5) U(1) x by auto
  have "batch_free T U x st = Some st3"
    using l(1) v1 st2(1) st3(1) by (simp add: batch_free_def get_tlh_def Let_def batch_add_def)
  moreover have "heap_step ({x} \<union> pending G M B \<union> {x}) st G st3 G"
    by (rule heap_step_trans [OF heap_step_trans [OF evolves_step [OF l(3)] st2(6)] st3(3)])
  then have "heap_step (insert x (pending G M B)) st G st3 G" by simp
  moreover have "pending G M2 (B2(T := x # B2 T)) = insert x (pending G M B)" using pending_add [OF T] st2(5) by simp
  ultimately show ?thesis using st3(2,4) st2(7) l(4) by blast
qed

end
