(* ===== verification/Heap_Alloc.thy ===== *)
theory Heap_Alloc
  imports Heap_Mail
begin

text \<open>
  Allocation from a thread-local heap: the current slab, the slow path through the partial list and
  a new slab, and the spans.
\<close>

section \<open>The slow path\<close>

text \<open>The current slab has nothing left to give.\<close>

definition exhausted :: "heap_desc \<Rightarrow> addr \<Rightarrow> nat \<Rightarrow> bool" where
  "exhausted G T i \<longleftrightarrow> gcur G T i \<noteq> 0 \<longrightarrow>
     gcarved G (gcur G T i - 64) = slots i \<and> gfree G (gcur G T i - 64) = []"

definition retired :: "heap_desc \<Rightarrow> addr \<Rightarrow> nat \<Rightarrow> addr list" where
  "retired G T i = (if gcur G T i = 0 then gfull G T i else gcur G T i # gfull G T i)"

lemma status_switch:
  assumes stat: "status_ok G" and x: "exhausted G T i" and ps: "set ps \<subseteq> set (gpart G T i)"
  shows "status_ok (bin_desc T i cur ps (retired G T i) G)"
  using stat x ps unfolding status_ok_def exhausted_def retired_def bin_desc_def by (auto split: if_splits)

lemma desc_slabs_retired:
  "bin_slabs cur ps (retired G T i) = (if cur = 0 then {} else {cur}) \<union> set ps \<union> set (gfull G T i) \<union> (if gcur G T i = 0 then {} else {gcur G T i})"
  by (auto simp: bin_slabs_def retired_def)

lemma current_slab_size:
  assumes inv: "heap_struct st G" and T: "T \<in> gheaps G" "i < 40" and c: "gcur G T i \<noteq> 0"
  shows "\<exists>b s. get_bin st T i = Some b \<and> get_slab st (current_slab b) = Some s \<and> sl_block_size s = of_nat (class_bytes i)"
proof -
  note l = lists_okD(1) [OF heap_structD(8) [OF inv T(1)] T(2)]
  have "gcur G T i \<in> desc_slabs G T i" using c by (simp add: bin_slabs_def)
  then have o: "gown G (gcur G T i - 64) = Some (Slab_of T i)" using desc_okD(4) [OF heap_structD(5) [OF inv] T] by blast
  obtain r where r: "slab_rep st (gcur G T i - 64) i (gcarved G (gcur G T i - 64)) (gfree G (gcur G T i - 64)) r"
    "get_slab st (gcur G T i - 64 + 64) = Some r" by (rule slab_record [OF inv o])
  have "sl_block_size r = of_nat (class_bytes i)" using r(1) by (simp add: slab_rep_def slab_shape_def)
  then show ?thesis using get_bin_ready [OF bin_listsD(1) [OF l]] bin_listsD(2) [OF l] r(2) by simp
qed

text \<open>The head of the partial list becomes the current slab, the old one retires.\<close>

lemma struct_promote:
  assumes inv: "heap_struct st G" and stat: "status_ok G" and T: "T \<in> gheaps G" "i < 40" and x: "exhausted G T i"
    and p: "gpart G T i = p # ps"
  defines "G' \<equiv> bin_desc T i p ps (retired G T i) G"
  shows "\<exists>st'. (do { st \<leftarrow> retire_current T i (gcur G T i) st; promote_partial T i st }) = Some (p, st') \<and>
    heap_struct st' G' \<and> status_ok G' \<and> evolves {} st G st' G' \<and> gown G' = gown G"
proof -
  note ok = heap_structD(5) [OF inv]
  note l = lists_okD(1) [OF heap_structD(8) [OF inv T(1)] T(2)]
  note d = bin_listsD [OF l]
  obtain st1 where st1: "retire_current T i (gcur G T i) st = Some st1" "bin_ready T i st1" "partials.listed T i st1 (gpart G T i)"
    "fulls.listed T i st1 (retired G T i)" "bin_step T i (desc_slabs G T i) st st1"
    using retire_moves [OF l] unfolding retired_def by blast
  have disj: "set (p # ps) \<inter> set (retired G T i) = {}" using d(5,7) p by (auto simp: retired_def)
  obtain st2 where st2: "promote_partial T i st1 = Some (p, st2)" "bin_lists T i p ps (retired G T i) st2"
    "bin_step T i (set (p # ps)) st1 st2"
    using promote_moves [OF st1(2) st1(3) [unfolded p] st1(4) disj] by blast
  have step: "bin_step T i (desc_slabs G T i) st st2"
    by (rule bin_step_trans [OF st1(5) bin_step_mono [OF st2(3)]]) (auto simp: bin_slabs_def p)
  have p0: "p \<noteq> 0" using d(8) [of p] p by (auto simp: bin_slabs_def)
  have eq: "bin_slabs p ps (retired G T i) = desc_slabs G T i"
    unfolding desc_slabs_retired using p p0 by (auto simp: bin_slabs_def)
  have own: "gown G (s - 64) = Some (Slab_of T i)" if "s \<in> desc_slabs G T i" for s using that desc_okD(4) [OF ok T] by blast
  have "heap_struct st2 G'" unfolding G'_def by (rule bin_update [OF inv T step _ st2(2)]) (use own eq in auto)
  moreover have "evolves {} st G st2 G'"
    unfolding G'_def by (rule bin_update_evolves [OF inv T step _ st2(2)]) (use own eq desc_okD(4) [OF ok T] in auto)
  moreover have "gown G' = gown G" unfolding G'_def by (rule bin_desc_same [OF ok T eq])
  moreover have "status_ok G'" unfolding G'_def by (rule status_switch [OF stat x]) (use p in auto)
  ultimately show ?thesis using st1(1) st2(1) by auto
qed

lemma slow_from_partial:
  assumes inv: "heap_struct st G" and stat: "status_ok G" and T: "T \<in> gheaps G" "i < 40" and x: "exhausted G T i"
    and p: "gpart G T i = s # ps"
  shows "\<exists>q st' G'. lz_tlh_alloc_slow env T (of_nat i) st = Some (q, st') \<and> heap_struct st' G' \<and> status_ok G' \<and>
    evolves {q} st G st' G' \<and> q \<noteq> 0 \<and> (\<forall>U n. \<not> block st G U q n) \<and> block st' G' T q (class_bytes i) \<and> gcur G' T i \<noteq> 0"
proof -
  note l = lists_okD(1) [OF heap_structD(8) [OF inv T(1)] T(2)]
  let ?G1 = "bin_desc T i s ps (retired G T i) G"
  obtain st1 where st1: "(do { st \<leftarrow> retire_current T i (gcur G T i) st; promote_partial T i st }) = Some (s, st1)"
    "heap_struct st1 ?G1" "status_ok ?G1" "evolves {} st G st1 ?G1" "gown ?G1 = gown G"
    using struct_promote [OF inv stat T x p] by blast
  let ?c = "s - 64"
  have "s \<in> desc_slabs G T i" using p by (simp add: bin_slabs_def)
  then have c: "gown ?G1 ?c = Some (Slab_of T i)" "s \<noteq> 0"
    using desc_okD(4) [OF heap_structD(5) [OF inv] T] st1(5) bin_listsD(8) [OF l] by auto
  have "gfree G ?c \<noteq> []" using status_okD(1) [OF stat T, of s] p by simp
  then obtain q F where F: "gfree ?G1 ?c = q # F" by (auto simp: neq_Nil_conv)
  let ?G2 = "?G1\<lparr>gfree := (gfree ?G1)(?c := F)\<rparr>"
  obtain st2 where st2: "pop_free (?c + 64) st1 = Some (q, st2)" "heap_struct st2 ?G2" "evolves {q} st1 ?G1 st2 ?G2" "q \<noteq> 0"
    "block st2 ?G2 T q (class_bytes i)"
    using struct_pop [OF st1(2) c(1) F] by blast
  have nb: "\<not> block st G U q n" for U n
  proof -
    have "\<not> block st1 ?G1 U q n" using struct_pop [OF st1(2) c(1) F, of U n] by blast
    then show ?thesis using evolvesD(8) [OF st1(4), of q] by simp
  qed
  have s_out: "s \<notin> set ps" "s \<notin> set (retired G T i)"
    using partials.listed_distinct [OF bin_listsD(3) [OF l]] bin_listsD(5,7) [OF l] p by (auto simp: retired_def)
  have "status_ok ?G2"
    by (rule status_near [OF st1(3) heap_structD(5) [OF st1(2)] _ near_slab(3)]) (use c(1) s_out in auto)
  moreover have "evolves {q} st G st2 ?G2" using evolves_trans [OF st1(4) st2(3)] by simp
  moreover have "lz_tlh_alloc_slow env T (of_nat i) st = Some (q, st2)"
  proof -
    have i: "unat (of_nat i :: u32) = i" using T(2) by (simp add: unsigned_of_nat take_bit_nat_eq_self)
    have "partial_list (the_bin T i st) = s" "current_slab (the_bin T i st) = gcur G T i"
      using partials.listed_head [OF bin_listsD(3) [OF l]] p bin_listsD(2) [OF l] by simp_all
    then show ?thesis
      using get_bin_ready [OF bin_listsD(1) [OF l]] c(2) st1(1) st2(1)
      by (simp add: lz_tlh_alloc_slow_def i Let_def bind_assoc [symmetric])
  qed
  ultimately show ?thesis using st2(2,4,5) nb c(2)
    by (intro exI [of _ q] exI [of _ st2] exI [of _ ?G2]) simp
qed

text \<open>A new slab becomes the current one.\<close>

lemma struct_install:
  assumes inv: "heap_struct st G" and stat: "status_ok G" and T: "T \<in> gheaps G" "i < 40" and x: "exhausted G T i"
    and p: "gpart G T i = []" and c: "gown G c = Some Spare" "slab_ok st G c T i" "gcarved G c = 0"
  defines "G' \<equiv> bin_desc T i (c + 64) [] (retired G T i) G"
  shows "\<exists>st'. (do { st \<leftarrow> retire_current T i (gcur G T i) st; upd_bin T i (current_slab_update (\<lambda>_. c + 64)) st }) = Some st' \<and>
    heap_struct st' G' \<and> status_ok G' \<and> evolves {} st G st' G' \<and> gown G' c = Some (Slab_of T i) \<and>
    mcore (metas st' (c + 64)) = mcore (metas st (c + 64))"
proof -
  note ok = heap_structD(5) [OF inv]
  note l = lists_okD(1) [OF heap_structD(8) [OF inv T(1)] T(2)]
  note d = bin_listsD [OF l]
  obtain st1 where st1: "retire_current T i (gcur G T i) st = Some st1" "bin_ready T i st1" "partials.listed T i st1 []"
    "fulls.listed T i st1 (retired G T i)" "bin_step T i (desc_slabs G T i) st st1"
    using retire_moves [OF l] p unfolding retired_def by auto
  have own: "gown G (s - 64) = Some (Slab_of T i)" if "s \<in> desc_slabs G T i" for s using that desc_okD(4) [OF ok T] by blast
  have ret: "s \<in> desc_slabs G T i" if "s \<in> set (retired G T i)" for s
    using that by (auto simp: retired_def bin_slabs_def split: if_splits)
  have c_out: "c + 64 \<notin> set (retired G T i)" using own [OF ret, of "c + 64"] c(1) by auto
  have "valid st (c + 64)" by (rule meta_in_chunk(2) [OF struct_chunk [OF inv c(1)]])
  then have "slab_node st (c + 64)" using c(2) by (auto simp: slab_ok_def slab_node_def)
  then have n1: "slab_node st1 (c + 64)" using st1(5) by (simp add: bin_step_def)
  have c0: "c + 64 \<noteq> 0"
  proof
    assume "c + 64 = 0"
    then have "unat (c + 64) = 0" by simp
    moreover have "unat (c + 64) = unat c + 64" using struct_base [OF inv c(1)] by (simp add: chunk_base_def unat_word_ariths)
    ultimately show False by simp
  qed
  obtain st2 where st2: "upd_bin T i (current_slab_update (\<lambda>_. c + 64)) st1 = Some st2"
    "bin_lists T i (c + 64) [] (retired G T i) st2" "bin_step T i {} st1 st2"
    using install_moves [OF st1(2-4) _ n1 c0] c_out by auto
  have step: "bin_step T i (desc_slabs G T i) st st2"
    by (rule bin_step_trans [OF st1(5) bin_step_mono [OF st2(3)]]) simp
  have u: "slab_used G c i = {}" using c(3) by (simp add: slab_used_def objs_def)
  have new: "gown G (s - 64) = Some (Slab_of T i) \<or>
       gown G (s - 64) = Some Spare \<and> slab_ok st G (s - 64) T i \<and> slab_used G (s - 64) i = {}"
    if s: "s \<in> bin_slabs (c + 64) [] (retired G T i)" for s
  proof (cases "s = c + 64")
    case False
    then have "s \<in> set (retired G T i)" using s by (auto simp: bin_slabs_def split: if_splits)
    then show ?thesis using own ret by blast
  qed (use c u in simp)
  have old: "slab_used G d i = {}" if "gown G d = Some (Slab_of T i)" "d + 64 \<notin> bin_slabs (c + 64) [] (retired G T i)" for d
    using desc_okD(4) [OF ok T, of "d + 64"] that p by (auto simp: bin_slabs_def retired_def split: if_splits)
  have "heap_struct st2 G'" unfolding G'_def by (rule bin_update [OF inv T step _ st2(2)]) (use own new in blast)+
  moreover have "evolves {} st G st2 G'" unfolding G'_def by (rule bin_update_evolves [OF inv T step _ st2(2)]) (use own new old in blast)+
  moreover have "status_ok G'" unfolding G'_def by (rule status_switch [OF stat x]) simp
  moreover have "gown G' c = Some (Slab_of T i)" using c0 by (simp add: G'_def bin_desc_def bin_slabs_def)
  moreover have "mcore (metas st2 (c + 64)) = mcore (metas st (c + 64))" by (rule bin_stepD(3) [OF step])
  ultimately show ?thesis using st1(1) st2(1) by auto
qed

lemma slow_from_new:
  assumes ok: "mmap_ok env" and inv: "heap_struct st G" and stat: "status_ok G" and T: "T \<in> gheaps G" "i < 40" and x: "exhausted G T i"
    and p: "gpart G T i = []"
  shows "\<exists>q st' G'. lz_tlh_alloc_slow env T (of_nat i) st = Some (q, st') \<and> heap_struct st' G' \<and> status_ok G' \<and>
    evolves {q} st G st' G' \<and> (q \<noteq> 0 \<longrightarrow> (\<forall>U n. \<not> block st G U q n) \<and> block st' G' T q (class_bytes i) \<and> gcur G' T i \<noteq> 0) \<and>
    (q = 0 \<longrightarrow> refused st st')"
proof -
  note l = lists_okD(1) [OF heap_structD(8) [OF inv T(1)] T(2)]
  have i: "unat (of_nat i :: u32) = i" using T(2) by (simp add: unsigned_of_nat take_bit_nat_eq_self)
  have bin: "get_bin st T i = Some (the_bin T i st)" "partial_list (the_bin T i st) = 0" "current_slab (the_bin T i st) = gcur G T i"
    using get_bin_ready [OF bin_listsD(1) [OF l]] partials.listed_head [OF bin_listsD(3) [OF l]] p bin_listsD(2) [OF l] by simp_all
  obtain c st1 PG where st1: "lz_slab_create env T (of_nat i) st = Some (if c = 0 then 0 else c + 64, st1)"
    and z: "c = 0 \<longrightarrow> refused st st1" and cr: "let G' = (if c = 0 then G\<lparr>gpools := PG\<rparr>
       else G\<lparr>gpools := PG, gown := (gown G)(c \<mapsto> Spare), gcarved := (gcarved G)(c := 0), gfree := (gfree G)(c := [])\<rparr>)
     in heap_struct st1 G' \<and> evolves {} st G st1 G' \<and>
       (c \<noteq> 0 \<longrightarrow> gown G c = None \<and> slab_ok st1 G' c T i \<and> metas st1 (c + 64) = MSlab (empty_slab c i))"
    using struct_slab_create [OF ok inv T(2)] by blast
  show ?thesis
  proof (cases "c = 0")
    case True
    then have "heap_struct st1 (G\<lparr>gpools := PG\<rparr>)" "evolves {} st G st1 (G\<lparr>gpools := PG\<rparr>)" using cr by (simp_all add: Let_def)
    moreover have "lz_tlh_alloc_slow env T (of_nat i) st = Some (0, st1)"
      using st1 True bin by (simp add: lz_tlh_alloc_slow_def i Let_def)
    moreover have "status_ok (G\<lparr>gpools := PG\<rparr>)" by (rule status_cong [OF stat]) simp_all
    ultimately show ?thesis using evolves_mono z True by blast
  next
    case False
    define G1 where "G1 = G\<lparr>gpools := PG, gown := (gown G)(c \<mapsto> Spare), gcarved := (gcarved G)(c := 0), gfree := (gfree G)(c := [])\<rparr>"
    have s1: "heap_struct st1 G1" "evolves {} st G st1 G1" "gown G c = None" "slab_ok st1 G1 c T i" "metas st1 (c + 64) = MSlab (empty_slab c i)"
      using cr False by (simp_all add: Let_def G1_def)
    have n1: "near T i c G G1" by (auto simp: near_def G1_def)
    have listed: "gown G (s - 64) \<noteq> None" if "s \<in> desc_slabs G T i" for s
      using that desc_okD(4) [OF heap_structD(5) [OF inv] T] by auto
    have c_out: "c + 64 \<notin> desc_slabs G T i" using listed [of "c + 64"] s1(3) by auto
    have lists1: "gheaps G1 = gheaps G" "gcur G1 = gcur G" "gpart G1 = gpart G" "gfull G1 = gfull G" by (simp_all add: G1_def)
    have stat1: "status_ok G1"
      by (rule status_near [OF stat heap_structD(5) [OF inv] _ n1]) (use s1(3) c_out in \<open>auto simp: lists1 bin_slabs_def\<close>)
    have "gcur G T i - 64 \<noteq> c" if "gcur G T i \<noteq> 0" using c_out that by (auto simp: bin_slabs_def)
    then have x1: "exhausted G1 T i" using x by (simp add: exhausted_def G1_def)
    let ?G2 = "bin_desc T i (c + 64) [] (retired G1 T i) G1"
    obtain st2 where st2: "(do { st \<leftarrow> retire_current T i (gcur G1 T i) st1; upd_bin T i (current_slab_update (\<lambda>_. c + 64)) st }) = Some st2"
      "heap_struct st2 ?G2" "status_ok ?G2" "evolves {} st1 G1 st2 ?G2" "gown ?G2 c = Some (Slab_of T i)"
      "mcore (metas st2 (c + 64)) = mcore (metas st1 (c + 64))"
      using struct_install [OF s1(1) stat1 _ T(2) x1 _ _ s1(4)] T(1) p by (auto simp: lists1 G1_def)
    have c0: "c + 64 \<noteq> 0" using slab_of_bin(4) [OF st2(2,5)] .
    obtain r where r: "metas st2 (c + 64) = MSlab r" "valid st2 (c + 64)" by (rule slab_record [OF st2(2,5)])
    have "gcarved ?G2 c < slots i" using slots_bounds(1) [OF T(2)] by (simp add: G1_def)
    note b = struct_bump [OF st2(2,5) this r(1)]
    let ?st3 = "st2\<lparr>metas := (metas st2)(c + 64 := MSlab (bumped r))\<rparr>"
    let ?G3 = "?G2\<lparr>gcarved := (gcarved ?G2)(c := Suc (gcarved ?G2 c))\<rparr>"
    have "status_ok ?G3"
      by (rule status_near [OF st2(3) heap_structD(5) [OF st2(2)] _ near_slab(2)])
         (use st2(5) c_out in \<open>auto simp: retired_def lists1 bin_slabs_def split: if_splits\<close>)
    moreover have "evolves ({} \<union> {} \<union> {sl_bump_ptr r}) st G ?st3 ?G3"
      by (rule evolves_trans [OF evolves_trans [OF s1(2) st2(4)] b(2)])
    then have "evolves {sl_bump_ptr r} st G ?st3 ?G3" by simp
    moreover have "\<not> block st G U (sl_bump_ptr r) n" for U n
      using b(4) [of U n] evolvesD(8) [OF s1(2), of "sl_bump_ptr r"] evolvesD(8) [OF st2(4), of "sl_bump_ptr r"] by simp
    moreover have "lz_tlh_alloc_slow env T (of_nat i) st = Some (sl_bump_ptr r, ?st3)"
    proof -
      obtain s where s: "retire_current T i (gcur G T i) st1 = Some s" "upd_bin T i (current_slab_update (\<lambda>_. c + 64)) s = Some st2"
        using st2(1) by (auto simp: bind_eq_Some_conv lists1)
      show ?thesis
        using st1 False bin c0 s r
        by (simp add: lz_tlh_alloc_slow_def i Let_def get_slab_def upd_slab_def set_meta_def valid_def bumped_def)
    qed
    ultimately show ?thesis
      using b(1,3,5) c0 by (intro exI [of _ "sl_bump_ptr r"] exI [of _ ?st3] exI [of _ ?G3]) simp
  qed
qed

lemma tlh_alloc_slow_correct:
  assumes ok: "mmap_ok env" and inv: "heap_struct st G" and stat: "status_ok G" and T: "T \<in> gheaps G" "i < 40" and x: "exhausted G T i"
  shows "\<exists>q st' G'. lz_tlh_alloc_slow env T (of_nat i) st = Some (q, st') \<and> heap_struct st' G' \<and> status_ok G' \<and>
    evolves {q} st G st' G' \<and> (q \<noteq> 0 \<longrightarrow> (\<forall>U n. \<not> block st G U q n) \<and> block st' G' T q (class_bytes i) \<and> gcur G' T i \<noteq> 0) \<and>
    (q = 0 \<longrightarrow> refused st st')"
proof (cases "gpart G T i")
  case Nil
  then show ?thesis by (rule slow_from_new [OF ok inv stat T x])
next
  case (Cons s ps)
  then show ?thesis using slow_from_partial [OF inv stat T x Cons] by blast
qed

end
