(* ===== verification/Heap_Client.thy ===== *)
theory Heap_Client
  imports Heap_Alloc
begin

text \<open>
  The operations of a thread-local heap as its client sees them: which blocks are live, what they
  hold, and what \<open>lz_tlh_alloc\<close> and \<open>lz_tlh_free\<close> do to them.
\<close>

section \<open>Steps as the client sees them\<close>

text \<open>A block is live when it is in use and on no way back to its owner.\<close>

definition live :: "lz_state \<Rightarrow> heap_desc \<Rightarrow> (addr \<Rightarrow> addr list) \<Rightarrow> (addr \<Rightarrow> addr list) \<Rightarrow> addr \<Rightarrow> addr \<Rightarrow> nat \<Rightarrow> bool" where
  "live st G M B T y n \<longleftrightarrow> block st G T y n \<and> y \<notin> pending G M B"

definition client_step :: "addr set \<Rightarrow> lz_state \<Rightarrow> heap_desc \<Rightarrow> (addr \<Rightarrow> addr list) \<Rightarrow> (addr \<Rightarrow> addr list) \<Rightarrow>
    lz_state \<Rightarrow> heap_desc \<Rightarrow> (addr \<Rightarrow> addr list) \<Rightarrow> (addr \<Rightarrow> addr list) \<Rightarrow> bool" where
  "client_step X st G M B st' G' M' B' \<longleftrightarrow> outer_globals st st' \<and> gheaps G' = gheaps G \<and>
     (\<forall>T\<in>gheaps G. thread_part (tlhs st' T) = thread_part (tlhs st T) \<and>
        tl_stat_slot (tlhs st' T) = tl_stat_slot (tlhs st T)) \<and>
     (\<forall>c d. gown G' c = Some (Direct_of d) \<longleftrightarrow> gown G c = Some (Direct_of d)) \<and>
     (\<forall>a\<in>direct_memory G. mem st' a = mem st a \<and> hdrs st' a = hdrs st a \<and> metas st' a = metas st a) \<and>
     (\<forall>a. valid st a \<longrightarrow> valid st' a) \<and>
     (\<forall>T y n. y \<notin> X \<longrightarrow> (live st' G' M' B' T y n \<longleftrightarrow> live st G M B T y n)) \<and>
     (\<forall>T y n. y \<notin> X \<longrightarrow> live st G M B T y n \<longrightarrow> (\<forall>a\<in>bytes y n. mem st' a = mem st a))"

lemma client_step_refl [simp]: "client_step X st G M B st G M B"
  by (simp add: client_step_def outer_globals_def)

lemma client_stepD:
  assumes "client_step X st G M B st' G' M' B'"
  shows "outer_globals st st'" "gheaps G' = gheaps G"
    "T \<in> gheaps G \<Longrightarrow> thread_part (tlhs st' T) = thread_part (tlhs st T)"
    "T \<in> gheaps G \<Longrightarrow> tl_stat_slot (tlhs st' T) = tl_stat_slot (tlhs st T)"
    "gown G' c = Some (Direct_of d) \<longleftrightarrow> gown G c = Some (Direct_of d)"
    "a \<in> direct_memory G \<Longrightarrow> mem st' a = mem st a \<and> hdrs st' a = hdrs st a \<and> metas st' a = metas st a"
    "valid st a \<Longrightarrow> valid st' a"
    "y \<notin> X \<Longrightarrow> live st' G' M' B' T y n \<longleftrightarrow> live st G M B T y n"
    "y \<notin> X \<Longrightarrow> live st G M B T y n \<Longrightarrow> a \<in> bytes y n \<Longrightarrow> mem st' a = mem st a"
  using assms unfolding client_step_def by blast+

lemma client_step_mono: "client_step X st G M B st' G' M' B' \<Longrightarrow> X \<subseteq> Y \<Longrightarrow> client_step Y st G M B st' G' M' B'"
  unfolding client_step_def by blast

lemma client_step_trans:
  assumes a: "client_step X st G M B st' G' M' B'" and b: "client_step Y st' G' M' B' st'' G'' M'' B''"
  shows "client_step (X \<union> Y) st G M B st'' G'' M'' B''"
proof -
  note A = client_stepD [OF a] and B = client_stepD [OF b]
  have d: "direct_memory G' = direct_memory G" unfolding direct_memory_def using A(5) by simp
  have "outer_globals st st''" using A(1) B(1) by (simp add: outer_globals_def)
  moreover have "\<forall>a\<in>direct_memory G. mem st'' a = mem st a \<and> hdrs st'' a = hdrs st a \<and> metas st'' a = metas st a"
    using A(6) B(6) d by simp
  moreover have "live st'' G'' M'' B'' T y n \<longleftrightarrow> live st G M B T y n" if "y \<notin> X \<union> Y" for T y n
    using A(8) [of y T n] B(8) [of y T n] that by simp
  moreover have "mem st'' a = mem st a" if "y \<notin> X \<union> Y" "live st G M B T y n" "a \<in> bytes y n" for T y n a
    using A(8) [of y T n] A(9) [of y T n a] B(9) [of y T n a] that by simp
  ultimately show ?thesis
    unfolding client_step_def using A(2-5,7) B(2-5,7) by auto
qed

lemma client_step_none:
  assumes c: "client_step {x} st G M B st' G' M' B'" and n: "\<And>U m. \<not> live st G M B U x m" "\<And>U m. \<not> live st' G' M' B' U x m"
  shows "client_step {} st G M B st' G' M' B'"
proof -
  have "live st' G' M' B' T y n \<longleftrightarrow> live st G M B T y n" for T y n
    using n client_stepD(8) [OF c, of y T n] by (cases "y = x") simp_all
  moreover have "mem st' a = mem st a" if "live st G M B T y n" "a \<in> bytes y n" for T y n a
  proof -
    have "y \<notin> {x}" using n(1) that(1) by auto
    then show ?thesis using client_stepD(9) [OF c] that by blast
  qed
  ultimately show ?thesis using c unfolding client_step_def by simp
qed

lemma client_stepI:
  assumes h: "heap_step Y st G st' G'"
    and l: "\<And>T y n. y \<notin> X \<Longrightarrow> live st' G' M' B' T y n \<longleftrightarrow> live st G M B T y n"
    and k: "\<And>T y n. y \<notin> X \<Longrightarrow> live st G M B T y n \<Longrightarrow> y \<notin> Y"
  shows "client_step X st G M B st' G' M' B'"
proof -
  have "mem st' a = mem st a" if "y \<notin> X" "live st G M B T y n" "a \<in> bytes y n" for T y n a
    using heap_stepD(9) [OF h k [OF that(1,2)] _ that(3)] that(2) unfolding live_def by blast
  then show ?thesis unfolding client_step_def using h l unfolding heap_step_def by blast
qed

lemma evolves_client:
  assumes "evolves X st G st' G'"
  shows "client_step X st G M B st' G' M B"
proof (rule client_stepI [OF evolves_step [OF assms]])
  have "pending G' M B = pending G M B" using evolvesD(2) [OF assms] by (simp add: pending_def)
  then show "live st' G' M B T y n \<longleftrightarrow> live st G M B T y n" if "y \<notin> X" for T y n
    using evolvesD(8) [OF assms that] by (simp add: live_def)
qed

lemma tlh_reap_client:
  assumes ok: "mmap_ok env" and inv: "heap_inv st G M B" and T: "T \<in> gheaps G"
  shows "\<exists>st' G'. lz_tlh_reap env T st = Some st' \<and> heap_inv st' G' (M(T := [])) B \<and>
    client_step {} st G M B st' G' (M(T := [])) B"
proof -
  obtain st' G' where st': "lz_tlh_reap env T st = Some st'" "heap_inv st' G' (M(T := [])) B"
    "heap_step (set (M T)) st G st' G'" "\<forall>x\<in>set (M T). \<forall>U n. \<not> block st' G' U x n"
    using tlh_reap_correct [OF assms] by blast
  have g: "gheaps G' = gheaps G" by (rule heap_stepD(2) [OF st'(3)])
  have p: "pending G M B = pending G' (M(T := [])) B \<union> set (M T)"
    unfolding pending_def g using T by (auto split: if_splits)
  have "client_step {} st G M B st' G' (M(T := [])) B"
  proof (rule client_stepI [OF st'(3)])
    fix U y n
    show "live st' G' (M(T := [])) B U y n \<longleftrightarrow> live st G M B U y n"
    proof (cases "y \<in> set (M T)")
      case True
      then show ?thesis using st'(4) p by (simp add: live_def)
    next
      case False
      then show ?thesis using heap_stepD(8) [OF st'(3) False] p by (simp add: live_def)
    qed
    show "y \<notin> set (M T)" if "live st G M B U y n" using that p by (auto simp: live_def)
  qed
  then show ?thesis using st'(1,2) by blast
qed

lemma tlh_flush_client:
  assumes inv: "heap_inv st G M B" and T: "T \<in> gheaps G"
  shows "\<exists>st' M' B'. lz_tlh_flush_outgoing_batch T st = Some st' \<and> heap_inv st' G M' B' \<and> client_step {} st G M B st' G M' B'"
proof -
  obtain st' M' B' where st': "lz_tlh_flush_outgoing_batch T st = Some st'" "heap_inv st' G M' B'"
    "pending G M' B' = pending G M B" "heap_step (pending G M B) st G st' G"
    "\<forall>V y n. block st' G V y n \<longleftrightarrow> block st G V y n"
    using tlh_flush_correct [OF assms] by blast
  have "client_step {} st G M B st' G M' B'"
    by (rule client_stepI [OF st'(4)]) (use st'(3,5) in \<open>auto simp: live_def\<close>)
  then show ?thesis using st'(1,2) by blast
qed

section \<open>Freeing a live block\<close>

lemma block_owner: "heap_struct st G \<Longrightarrow> block st G T x n \<Longrightarrow> T \<in> gheaps G"
proof -
  assume inv: "heap_struct st G" and "block st G T x n"
  then obtain c where "block_at st G c T x n" by (auto simp: block_def)
  then show ?thesis
    using desc_okD(1,3) [OF heap_structD(5) [OF inv]] by (cases rule: block_at_cases) blast+
qed

lemma block_header:
  assumes inv: "heap_struct st G" and b: "block st G U x n"
  shows "get_hdr st (chunk_of x) = Some (hdrs st (chunk_of x))" "ch_magic (hdrs st (chunk_of x)) = LZ_CHUNK_MAGIC_V2"
    "ch_owning_tlh (hdrs st (chunk_of x)) = U" "chunk_of x \<noteq> 0"
    "ch_chunk_type (hdrs st (chunk_of x)) \<in> {LZ_CHUNK_TYPE_SLAB, LZ_CHUNK_TYPE_SPAN}"
proof -
  have b: "block_at st G (chunk_of x) U x n" using b block_iff [OF inv] by simp
  then obtain u where u: "gown G (chunk_of x) = Some u" using block_at_range(5) [OF inv] by blast
  show "get_hdr st (chunk_of x) = Some (hdrs st (chunk_of x))"
    using chunk_at_valid [OF struct_chunk [OF inv u]] by (simp add: get_hdr_def)
  show "chunk_of x \<noteq> 0" using struct_base [OF inv u] by (simp add: chunk_base_def)
  from b have "hdr_ok st (chunk_of x) U LZ_CHUNK_TYPE_SLAB \<or> hdr_ok st (chunk_of x) U LZ_CHUNK_TYPE_SPAN"
    using heap_structD(6,7) [OF inv] unfolding slab_ok_def span_ok_def by (cases rule: block_at_cases) blast+
  then show "ch_magic (hdrs st (chunk_of x)) = LZ_CHUNK_MAGIC_V2" "ch_owning_tlh (hdrs st (chunk_of x)) = U"
    "ch_chunk_type (hdrs st (chunk_of x)) \<in> {LZ_CHUNK_TYPE_SLAB, LZ_CHUNK_TYPE_SPAN}"
    by (auto simp: hdr_ok_def)
qed

lemma tlh_free_client:
  assumes ok: "mmap_ok env" and inv: "heap_inv st G M B" and T: "T \<in> gheaps G" and x: "live st G M B U x n"
  shows "\<exists>st' G' M' B'. lz_tlh_free env T x st = Some st' \<and> heap_inv st' G' M' B' \<and>
    client_step {x} st G M B st' G' M' B' \<and> (\<forall>V m. \<not> live st' G' M' B' V x m)"
proof -
  note I = heap_invD [OF inv]
  have b: "block st G U x n" "x \<notin> pending G M B" using x by (simp_all add: live_def)
  note h = block_header [OF I(1) b(1)]
  have x0: "x \<noteq> 0" by (rule block_word(4) [OF I(1) b(1)])
  show ?thesis
  proof (cases "U = T")
    case True
    have "lz_tlh_free env T x st = free_block env T x st"
      using h x0 True by (simp add: lz_tlh_free_def Let_def free_block_def)
    moreover obtain st' G' where st': "free_block env T x st = Some st'" "heap_struct st' G'" "status_ok G'"
      "evolves {x} st G st' G'" "\<forall>T' m. \<not> block st' G' T' x m"
      using struct_free_block [OF ok I(1,2)] b(1) True by blast
    moreover have "heap_inv st' G' M B" by (rule heap_inv_evolves [OF inv st'(2-4)]) (use b(2) in simp)
    moreover have "\<not> live st' G' M B V x m" for V m using st'(5) by (simp add: live_def)
    ultimately show ?thesis using evolves_client [OF st'(4), of M B] by (intro exI [of _ st'] exI [of _ G'] exI [of _ M] exI [of _ B]) simp
  next
    case False
    have "lz_tlh_free env T x st = batch_free T U x st"
      using h x0 False by (simp add: lz_tlh_free_def Let_def)
    moreover obtain st' M' B' where st': "batch_free T U x st = Some st'" "heap_inv st' G M' B'"
      "pending G M' B' = insert x (pending G M B)" "heap_step (insert x (pending G M B)) st G st' G"
      "\<forall>V y n. block st' G V y n \<longleftrightarrow> block st G V y n"
      using batch_free_correct [OF inv T block_owner [OF I(1) b(1)] b] by blast
    moreover have "client_step {x} st G M B st' G M' B'"
      by (rule client_stepI [OF st'(4)]) (use st'(3,5) in \<open>auto simp: live_def\<close>)
    moreover have "\<not> live st' G M' B' V x m" for V m using st'(3) by (simp add: live_def)
    ultimately show ?thesis by (intro exI [of _ st'] exI [of _ G] exI [of _ M'] exI [of _ B']) simp
  qed
qed

section \<open>Allocating from a slab\<close>

text \<open>A new block: it was no block before, and it is live now.\<close>

definition handed_out :: "lz_state \<Rightarrow> heap_desc \<Rightarrow> (addr \<Rightarrow> addr list) \<Rightarrow> (addr \<Rightarrow> addr list) \<Rightarrow>
    lz_state \<Rightarrow> heap_desc \<Rightarrow> (addr \<Rightarrow> addr list) \<Rightarrow> (addr \<Rightarrow> addr list) \<Rightarrow> addr \<Rightarrow> addr \<Rightarrow> nat \<Rightarrow> bool" where
  "handed_out st G M B st' G' M' B' T p n \<longleftrightarrow> heap_inv st' G' M' B' \<and> client_step {p} st G M B st' G' M' B' \<and>
     (p \<noteq> 0 \<longrightarrow> (\<forall>U m. \<not> live st G M B U p m) \<and> live st' G' M' B' T p n)"

lemma pending_evolves: "evolves X st G st' G' \<Longrightarrow> pending G' M B = pending G M B"
  using evolvesD(2) by (simp add: pending_def)

lemma handed_out_evolves:
  assumes inv: "heap_inv st G M B" and s: "heap_struct st' G'" "status_ok G'" and ev: "evolves {p} st G st' G'"
    and new: "p \<noteq> 0 \<Longrightarrow> (\<forall>U m. \<not> block st G U p m) \<and> block st' G' T p n"
  shows "handed_out st G M B st' G' M B T p n"
proof -
  note I = heap_invD [OF inv]
  have p: "p \<notin> pending G M B"
  proof
    assume "p \<in> pending G M B"
    from pending_block [OF I(3) this] obtain U m where b: "block st G U p m" by blast
    then have "p \<noteq> 0" using block_word(4) [OF I(1)] by blast
    then show False using new b by blast
  qed
  have "heap_inv st' G' M B" by (rule heap_inv_evolves [OF inv s ev]) (use p in simp)
  then show ?thesis
    using evolves_client [OF ev, of M B] new p pending_evolves [OF ev, of M B] by (auto simp: handed_out_def live_def)
qed

lemma handed_out_after:
  assumes c: "client_step {} st G M B st1 G1 M1 B1" and h: "handed_out st1 G1 M1 B1 st2 G2 M2 B2 T p n"
  shows "handed_out st G M B st2 G2 M2 B2 T p n"
  using client_step_trans [OF c] h client_stepD(8) [OF c] by (auto simp: handed_out_def)

lemma handed_out_count:
  assumes h: "handed_out st G M B st1 G1 M1 B1 T p n" and ev: "evolves {} st1 G1 st2 G1" "heap_struct st2 G1"
  shows "handed_out st G M B st2 G1 M1 B1 T p n"
proof -
  have inv1: "heap_inv st1 G1 M1 B1" using h by (simp add: handed_out_def)
  have "heap_inv st2 G1 M1 B1" by (rule heap_inv_evolves [OF inv1 ev(2) heap_invD(2) [OF inv1] ev(1)]) simp
  moreover have "client_step ({p} \<union> {}) st G M B st2 G1 M1 B1"
    by (rule client_step_trans [OF _ evolves_client [OF ev(1)]]) (use h in \<open>simp add: handed_out_def\<close>)
  ultimately show ?thesis using h evolvesD(8) [OF ev(1)] by (auto simp: handed_out_def live_def)
qed

lemma free_head_null:
  assumes "slab_rep st c i m F r"
  shows "sl_free_list_head r = 0 \<longleftrightarrow> F = []"
  using assms by (cases F) (auto simp: slab_rep_def)

lemma bump_null_exhausted:
  assumes "slab_rep st c i m F r" "chunk_base c" "i < 40" "sl_bump_ptr r = 0"
  shows "m = slots i"
proof (rule ccontr)
  assume "m \<noteq> slots i"
  then have "m < slots i" "sl_bump_ptr r = obj c i m" using assms(1) by (auto simp: slab_rep_def slab_shape_def)
  then show False using unat_obj [OF assms(2) _ assms(3), of m] assms(4) by auto
qed

lemma slab_bump_end:
  assumes rep: "slab_rep st c k m F r" and c: "chunk_base c" "k < 40" and m: "m = slots k" and b: "sl_bump_ptr r \<noteq> 0"
  shows "\<not> sl_bump_ptr r + ucast (sl_block_size r) \<le> sl_memory_end r"
proof -
  have r: "sl_bump_ptr r = obj c k (slots k)" "sl_memory_end r = c + LZ_HUGE_PAGE_SIZE" "sl_block_size r = of_nat (class_bytes k)"
    using rep m b by (auto simp: slab_rep_def slab_shape_def)
  have u: "unat (sl_bump_ptr r) = unat c + 128 + slots k * class_bytes k" unfolding r(1) by (rule unat_obj [OF c(1) order_refl c(2)])
  have bs: "unat (ucast (sl_block_size r) :: u64) = class_bytes k"
    using class_bytes_bounds [OF c(2)] by (simp add: r(3) unat_ucast unsigned_of_nat take_bit_nat_eq_self)
  have "2097152 - 128 < Suc (slots k) * class_bytes k"
    unfolding slots_def using dividend_less_times_div [of "class_bytes k" "2097152 - 128"] by (simp add: mult.commute)
  moreover have "slots k * class_bytes k \<le> 2097152" using slots_bounds(3) [OF c(2)] by simp
  moreover have "unat (c + 2097152) = unat c + 2097152" using c(1) by (simp add: chunk_base_def unat_word_ariths)
  moreover have "unat (sl_bump_ptr r + ucast (sl_block_size r)) = unat c + 128 + slots k * class_bytes k + class_bytes k"
    using u bs c(1) class_bytes_bounds [OF c(2)] slots_bounds(3) [OF c(2)] by (simp add: chunk_base_def unat_word_ariths)
  ultimately show ?thesis by (simp add: word_le_nat_alt r(2))
qed

text \<open>The current slab of a bin.\<close>

lemma current_record:
  assumes inv: "heap_struct st G" and T: "T \<in> gheaps G" "i < 40"
  shows "get_bin st T i = Some (the_bin T i st)" "current_slab (the_bin T i st) = gcur G T i"
    "gcur G T i \<noteq> 0 \<Longrightarrow> gown G (gcur G T i - 64) = Some (Slab_of T i)"
    "gcur G T i \<notin> set (gpart G T i)" "gcur G T i \<notin> set (gfull G T i)"
proof -
  note l = lists_okD(1) [OF heap_structD(8) [OF inv T(1)] T(2)]
  show "get_bin st T i = Some (the_bin T i st)" "current_slab (the_bin T i st) = gcur G T i"
    using get_bin_ready [OF bin_listsD(1) [OF l]] bin_listsD(2) [OF l] by simp_all
  show "gown G (gcur G T i - 64) = Some (Slab_of T i)" if "gcur G T i \<noteq> 0"
    using desc_okD(4) [OF heap_structD(5) [OF inv] T, of "gcur G T i"] that by (simp add: bin_slabs_def)
  have "s \<noteq> 0" if "s \<in> set (gpart G T i) \<union> set (gfull G T i)" for s
    using bin_listsD(8) [OF l, of s] that unfolding bin_slabs_def by blast
  then have "gcur G T i \<notin> set (gpart G T i) \<union> set (gfull G T i)" using bin_listsD(7) [OF l] by blast
  then show "gcur G T i \<notin> set (gpart G T i)" "gcur G T i \<notin> set (gfull G T i)" by blast+
qed

lemma status_current:
  assumes inv: "heap_struct st G" and stat: "status_ok G" and T: "T \<in> gheaps G" "i < 40" and c: "gcur G T i \<noteq> 0"
    and n: "near T i (gcur G T i - 64) G G'" and s: "gpart G' = gpart G" "gfull G' = gfull G"
  shows "status_ok G'"
  by (rule status_near [OF stat heap_structD(5) [OF inv] _ n])
     (use current_record(3-5) [OF inv T] c s in auto)

lemma pop_current:
  assumes inv: "heap_inv st G M B" and T: "T \<in> gheaps G" "i < 40" and c: "gcur G T i \<noteq> 0" and F: "gfree G (gcur G T i - 64) = x # F"
  shows "\<exists>st' G'. pop_free (gcur G T i) st = Some (x, st') \<and> x \<noteq> 0 \<and> handed_out st G M B st' G' M B T x (class_bytes i) \<and>
    (\<exists>r. get_slab st' (gcur G T i) = Some r \<and> sl_block_size r = of_nat (class_bytes i))"
proof -
  note I = heap_invD [OF inv]
  let ?c = "gcur G T i - 64"
  let ?G = "G\<lparr>gfree := (gfree G)(?c := F)\<rparr>"
  note own = current_record(3) [OF I(1) T c]
  obtain st' where st': "pop_free (?c + 64) st = Some (x, st')" "heap_struct st' ?G" "evolves {x} st G st' ?G" "x \<noteq> 0"
    "block st' ?G T x (class_bytes i)" "\<exists>r. get_slab st' (?c + 64) = Some r \<and> sl_block_size r = of_nat (class_bytes i)"
    using struct_pop [OF I(1) own F] by blast
  have nb: "\<not> block st G U x m" for U m using struct_pop [OF I(1) own F, of U m] by blast
  have "status_ok ?G" by (rule status_current [OF I(1,2) T c near_slab(3)]) simp_all
  from handed_out_evolves [OF inv st'(2) this st'(3)] have "handed_out st G M B st' ?G M B T x (class_bytes i)" using nb st'(5) by blast
  then show ?thesis using st'(1,4,6) by auto
qed

lemma bump_current:
  assumes inv: "heap_inv st G M B" and T: "T \<in> gheaps G" "i < 40" and c: "gcur G T i \<noteq> 0" and F: "gfree G (gcur G T i - 64) = []"
    and r: "metas st (gcur G T i) = MSlab r" "sl_bump_ptr r \<noteq> 0"
  shows "\<exists>p st' G'. bump_alloc (gcur G T i) st = Some (p, st') \<and> handed_out st G M B st' G' M B T p (class_bytes i) \<and>
    (p = 0 \<longrightarrow> exhausted G' T i)"
proof -
  note I = heap_invD [OF inv]
  let ?c = "gcur G T i - 64"
  note own = current_record(3) [OF I(1) T c]
  have r': "metas st (?c + 64) = MSlab r" using r(1) by simp
  obtain r0 where r0: "metas st (?c + 64) = MSlab r0" "slab_rep st ?c i (gcarved G ?c) (gfree G ?c) r0" "valid st (?c + 64)" "chunk_base ?c"
    by (rule slab_record [OF I(1) own])
  have rep: "slab_rep st ?c i (gcarved G ?c) [] r" using r0 r' F by simp
  have v: "valid st (gcur G T i)" using r0(3) by simp
  note run = bump_alloc_run [OF v r(1)]
  show ?thesis
  proof (cases "sl_bump_ptr r + ucast (sl_block_size r) \<le> sl_memory_end r")
    case True
    have "gcarved G ?c < slots i"
    proof (rule ccontr)
      assume "\<not> gcarved G ?c < slots i"
      then have "gcarved G ?c = slots i" using slab_rep_length(2) [OF rep r0(4) T(2)] by simp
      then show False using slab_bump_end [OF rep r0(4) T(2) _ r(2)] True by simp
    qed
    note b = struct_bump [OF I(1) own this r']
    let ?G = "G\<lparr>gcarved := (gcarved G)(?c := Suc (gcarved G ?c))\<rparr>"
    have "status_ok ?G" by (rule status_current [OF I(1,2) T c near_slab(2)]) simp_all
    from handed_out_evolves [OF inv b(1) this b(2)] have "handed_out st G M B (st\<lparr>metas := (metas st)(gcur G T i := MSlab (bumped r))\<rparr>) ?G M B T (sl_bump_ptr r) (class_bytes i)"
      using b(4,5) by simp
    then show ?thesis using run True b(3) by auto
  next
    case False
    note e = struct_exhausted [OF I(1) own r' r(2) False]
    have "evolves {0} st G (st\<lparr>metas := (metas st)(?c + 64 := MSlab (r\<lparr>sl_bump_ptr := 0\<rparr>))\<rparr>) G"
      by (rule evolves_mono [OF e(2)]) simp
    from handed_out_evolves [OF inv e(1) I(2) this] have "handed_out st G M B (st\<lparr>metas := (metas st)(gcur G T i := MSlab (r\<lparr>sl_bump_ptr := 0\<rparr>))\<rparr>) G M B T 0 (class_bytes i)"
      by simp
    moreover have "exhausted G T i" using e(3) F by (simp add: exhausted_def)
    ultimately show ?thesis using run False by auto
  qed
qed

text \<open>The second half of \<open>alloc_current\<close>: the current slab after the mailbox was reaped.\<close>

definition alloc_after_reap :: "addr \<Rightarrow> nat \<Rightarrow> lz_state \<Rightarrow> (addr \<times> u64 \<times> lz_state) option" where
  "alloc_after_reap T i st = do {
     b \<leftarrow> get_bin st T i;
     let slab = current_slab b;
     if slab = 0 then Some (0, 0, st)
     else do {
       s \<leftarrow> get_slab st slab;
       if sl_free_list_head s \<noteq> 0 then do {
         (p, st) \<leftarrow> pop_free slab st;
         Some (p, ucast (sl_block_size s), st) }
       else if sl_bump_ptr s \<noteq> 0 then do {
         (p, st) \<leftarrow> bump_alloc slab st;
         Some (p, if p = 0 then 0 else ucast (sl_block_size s), st) }
       else Some (0, 0, st) } }"

lemma alloc_reaped:
  assumes inv: "heap_inv st G M B" and T: "T \<in> gheaps G" "i < 40"
  shows "\<exists>p n st' G'. alloc_after_reap T i st = Some (p, n, st') \<and>
    handed_out st G M B st' G' M B T p (class_bytes i) \<and> (p = 0 \<longrightarrow> exhausted G' T i)"
proof -
  note I = heap_invD [OF inv]
  note cur = current_record [OF I(1) T]
  have zero: "handed_out st G M B st G M B T 0 (class_bytes i)" using inv by (simp add: handed_out_def)
  show ?thesis
  proof (cases "gcur G T i = 0")
    case True
    then have "exhausted G T i" by (simp add: exhausted_def)
    moreover have "alloc_after_reap T i st = Some (0, 0, st)" using cur(1,2) True by (simp add: alloc_after_reap_def)
    ultimately show ?thesis using zero by blast
  next
    case False
    let ?c = "gcur G T i - 64"
    obtain r where r: "metas st (?c + 64) = MSlab r" "slab_rep st ?c i (gcarved G ?c) (gfree G ?c) r" "get_slab st (?c + 64) = Some r" "chunk_base ?c"
      by (rule slab_record [OF I(1) cur(3) [OF False]])
    have g: "get_slab st (gcur G T i) = Some r" "metas st (gcur G T i) = MSlab r" using r(1,3) by simp_all
    show ?thesis
    proof (cases "gfree G ?c")
      case (Cons x F)
      obtain st' G' where st': "pop_free (gcur G T i) st = Some (x, st')" "x \<noteq> 0" "handed_out st G M B st' G' M B T x (class_bytes i)"
        using pop_current [OF inv T False Cons] by blast
      have "sl_free_list_head r \<noteq> 0" using free_head_null [OF r(2)] Cons by simp
      then have "alloc_after_reap T i st = Some (x, ucast (sl_block_size r), st')"
        using cur(1,2) False g(1) st'(1) by (simp add: alloc_after_reap_def)
      then show ?thesis using st'(2,3) by blast
    next
      case Nil
      have f: "sl_free_list_head r = 0" using free_head_null [OF r(2)] Nil by simp
      show ?thesis
      proof (cases "sl_bump_ptr r = 0")
        case True
        have "exhausted G T i" using bump_null_exhausted [OF r(2,4) T(2) True] Nil by (simp add: exhausted_def)
        moreover have "alloc_after_reap T i st = Some (0, 0, st)" using cur(1,2) False g(1) f True by (simp add: alloc_after_reap_def)
        ultimately show ?thesis using zero by blast
      next
        case bump: False
        obtain p st' G' where st': "bump_alloc (gcur G T i) st = Some (p, st')" "handed_out st G M B st' G' M B T p (class_bytes i)"
          "p = 0 \<longrightarrow> exhausted G' T i"
          using bump_current [OF inv T False Nil g(2) bump] by blast
        have "alloc_after_reap T i st = Some (p, if p = 0 then 0 else ucast (sl_block_size r), st')"
          using cur(1,2) False g(1) f bump st'(1) by (simp add: alloc_after_reap_def)
        then show ?thesis using st'(2,3) by blast
      qed
    qed
  qed
qed

lemma alloc_current_correct:
  assumes ok: "mmap_ok env" and inv: "heap_inv st G M B" and T: "T \<in> gheaps G" "i < 40"
  shows "\<exists>p n st' G' M'. alloc_current env T i st = Some (p, n, st') \<and>
    handed_out st G M B st' G' M' B T p (class_bytes i) \<and> (p = 0 \<longrightarrow> exhausted G' T i)"
proof -
  note I = heap_invD [OF inv]
  note cur = current_record [OF I(1) T]
  obtain st1 G1 where st1: "lz_tlh_reap env T st = Some st1" "heap_inv st1 G1 (M(T := [])) B" "client_step {} st G M B st1 G1 (M(T := [])) B"
    using tlh_reap_client [OF ok inv T(1)] by blast
  have T1: "T \<in> gheaps G1" using client_stepD(2) [OF st1(3)] T(1) by simp
  show ?thesis
  proof (cases "gcur G T i \<noteq> 0 \<and> gfree G (gcur G T i - 64) \<noteq> []")
    case False
    have "(if current_slab (the_bin T i st) = 0 then Some False
            else do { s \<leftarrow> get_slab st (current_slab (the_bin T i st)); Some (sl_free_list_head s \<noteq> 0) }) = Some False"
    proof (cases "gcur G T i = 0")
      case c: False
      obtain r where r: "slab_rep st (gcur G T i - 64) i (gcarved G (gcur G T i - 64)) (gfree G (gcur G T i - 64)) r" "get_slab st (gcur G T i - 64 + 64) = Some r"
        by (rule slab_record [OF I(1) cur(3) [OF c]])
      then show ?thesis using cur(2) c False free_head_null [OF r(1)] by simp
    qed (simp add: cur(2))
    then have "alloc_current env T i st = alloc_after_reap T i st1"
      using cur(1) st1(1) by (simp add: alloc_current_def alloc_after_reap_def)
    moreover obtain p n st2 G2 where st2: "alloc_after_reap T i st1 = Some (p, n, st2)"
      "handed_out st1 G1 (M(T := [])) B st2 G2 (M(T := [])) B T p (class_bytes i)" "p = 0 \<longrightarrow> exhausted G2 T i"
      using alloc_reaped [OF st1(2) T1 T(2)] by blast
    ultimately show ?thesis using handed_out_after [OF st1(3) st2(2)] by auto
  next
    case True
    then obtain x F where F: "gfree G (gcur G T i - 64) = x # F" by (auto simp: neq_Nil_conv)
    have c: "gcur G T i \<noteq> 0" using True by simp
    obtain r where r: "slab_rep st (gcur G T i - 64) i (gcarved G (gcur G T i - 64)) (gfree G (gcur G T i - 64)) r" "get_slab st (gcur G T i - 64 + 64) = Some r"
      by (rule slab_record [OF I(1) cur(3) [OF c]])
    have hot: "sl_free_list_head r \<noteq> 0" "get_slab st (gcur G T i) = Some r" using free_head_null [OF r(1)] F r(2) by simp_all
    obtain st' G' r' where st': "pop_free (gcur G T i) st = Some (x, st')" "x \<noteq> 0" "handed_out st G M B st' G' M B T x (class_bytes i)"
      "get_slab st' (gcur G T i) = Some r'"
      using pop_current [OF inv T c F] by blast
    then have "alloc_current env T i st = Some (x, ucast (sl_block_size r'), st')"
      using cur(1,2) hot c by (simp add: alloc_current_def)
    then show ?thesis using st'(2,3) by blast
  qed
qed

lemma size_class_bounds:
  assumes "0 < sz" "sz \<le> LZ_MAX_SLAB_OBJ_SIZE"
  shows "unat (lz_size_to_class sz) < 40" "unat sz \<le> class_bytes (unat (lz_size_to_class sz))"
proof -
  have s: "0 < unat sz" "unat sz \<le> 32768" using assms by (simp_all add: word_le_nat_alt word_less_nat_alt)
  show "unat sz \<le> class_bytes (unat (lz_size_to_class sz))" by (rule size_to_class_between(1) [OF s(1)])
  show "unat (lz_size_to_class sz) < 40"
  proof (rule ccontr)
    assume "\<not> unat (lz_size_to_class sz) < 40"
    then have "class_bytes 39 \<le> class_bytes (unat (lz_size_to_class sz) - 1)" "0 < unat (lz_size_to_class sz)"
      using strict_mono_less_eq [OF class_bytes_strict_mono] by auto
    then have "class_bytes 39 < unat sz" using size_to_class_between(2) [OF s(1)] by simp
    then show False using s(2) by (simp add: class_bytes_def)
  qed
qed

lemma live_nonzero: "heap_inv st G M B \<Longrightarrow> live st G M B U x n \<Longrightarrow> x \<noteq> 0"
  unfolding live_def using block_word(4) heap_invD(1) by blast

lemma handed_out_inv: "handed_out st G M B st' G' M' B' T p n \<Longrightarrow> heap_inv st' G' M' B'"
    "handed_out st G M B st' G' M' B' T p n \<Longrightarrow> gheaps G' = gheaps G"
  using client_stepD(2) unfolding handed_out_def by blast+

lemma tlh_alloc_small:
  assumes ok: "mmap_ok env" and inv: "heap_inv st G M B" and T: "T \<in> gheaps G" and sz: "0 < sz" "sz \<le> LZ_MAX_SLAB_OBJ_SIZE"
  shows "\<exists>p st' G' M'. lz_tlh_alloc env T sz st = Some (p, st') \<and>
    handed_out st G M B st' G' M' B T p (class_bytes (unat (lz_size_to_class sz))) \<and> (p = 0 \<longrightarrow> refused st st')"
proof -
  define i where "i = unat (lz_size_to_class sz)"
  have i: "i < 40" "of_nat i = lz_size_to_class sz" using size_class_bounds(1) [OF sz] by (simp_all add: i_def)
  obtain p n st1 G1 M1 where st1: "alloc_current env T i st = Some (p, n, st1)"
    "handed_out st G M B st1 G1 M1 B T p (class_bytes i)" "p = 0 \<longrightarrow> exhausted G1 T i"
    using alloc_current_correct [OF ok inv T i(1)] by blast
  have small: "\<not> sz > LZ_MAX_SLAB_OBJ_SIZE" using sz(2) by simp
  note h1 = handed_out_inv [OF st1(2)]
  have T1: "T \<in> gheaps G1" using h1(2) T by simp
  note I1 = heap_invD [OF h1(1)]
  have count: "\<exists>st3. telemetry_alloc_batch T k st2 = Some st3 \<and> handed_out st G M B st3 G2 M2 B T q (class_bytes i)"
    if "handed_out st G M B st2 G2 M2 B T q (class_bytes i)" for k st2 G2 M2 q
  proof -
    note h = handed_out_inv [OF that]
    have T2: "T \<in> gheaps G2" using h(2) T by simp
    obtain st3 where st3: "telemetry_alloc_batch T k st2 = Some st3" "counts T st2 st3"
      using alloc_batch_counts [OF stat_valid [OF heap_invD(1) [OF h(1)] T2]] by blast
    note c = counts_struct [OF heap_invD(1) [OF h(1)] st3(2)]
    then show ?thesis using handed_out_count [OF that c(2,1)] st3(1) by blast
  qed
  show ?thesis
  proof (cases "p = 0")
    case False
    obtain st2 where st2: "telemetry_alloc_batch T n st1 = Some st2" "handed_out st G M B st2 G1 M1 B T p (class_bytes i)"
      using count [OF st1(2)] by blast
    then have "lz_tlh_alloc env T sz st = Some (p, st2)"
      using st1(1) False small by (simp add: lz_tlh_alloc_def Let_def i_def)
    then show ?thesis using st2(2) False by (auto simp: i_def)
  next
    case True
    have step1: "client_step {} st G M B st1 G1 M1 B"
    proof -
      have "client_step {0} st G M B st1 G1 M1 B" using st1(2) True by (simp add: handed_out_def)
      moreover have "\<not> live st G M B U 0 m" "\<not> live st1 G1 M1 B U 0 m" for U m
        using live_nonzero inv h1(1) by blast+
      ultimately show ?thesis by (rule client_step_none)
    qed
    obtain q st2 G2 where st2: "lz_tlh_alloc_slow env T (of_nat i) st1 = Some (q, st2)" "heap_struct st2 G2" "status_ok G2"
      "evolves {q} st1 G1 st2 G2" "q \<noteq> 0 \<longrightarrow> (\<forall>U n. \<not> block st1 G1 U q n) \<and> block st2 G2 T q (class_bytes i) \<and> gcur G2 T i \<noteq> 0"
      "q = 0 \<longrightarrow> refused st1 st2"
      using tlh_alloc_slow_correct [OF ok I1(1,2) T1 i(1)] st1(3) True by blast
    have h2: "handed_out st G M B st2 G2 M1 B T q (class_bytes i)"
      by (rule handed_out_after [OF step1 handed_out_evolves [OF h1(1) st2(2-4)]]) (use st2(5) in blast)
    show ?thesis
    proof (cases "q = 0")
      case True
      have "lz_tlh_alloc env T sz st = Some (0, st2)"
        using st1(1) \<open>p = 0\<close> True small st2(1) i(2) by (simp add: lz_tlh_alloc_def Let_def i_def)
      moreover have "refused st st2"
        using refused_ext(1) [OF trD [OF alloc_current_tr st1(1)]] st2(6) True by simp
      ultimately show ?thesis using h2 True by (auto simp: i_def)
    next
      case False
      have T2: "T \<in> gheaps G2" using handed_out_inv(2) [OF h2] T by simp
      obtain b s where bs: "get_bin st2 T i = Some b" "get_slab st2 (current_slab b) = Some s"
        using current_slab_size [OF st2(2) T2 i(1)] st2(5) False by blast
      obtain st3 where st3: "telemetry_alloc_batch T (ucast (sl_block_size s)) st2 = Some st3" "handed_out st G M B st3 G2 M1 B T q (class_bytes i)"
        using count [OF h2] by blast
      have "lz_tlh_alloc env T sz st = Some (q, st3)"
        using st1(1) \<open>p = 0\<close> small st2(1) i(2) False bs st3(1) by (simp add: lz_tlh_alloc_def Let_def i_def)
      then show ?thesis using st3(2) False by (auto simp: i_def)
    qed
  qed
qed

end
