(* ===== verification/Heap_Runs.thy ===== *)
theory Heap_Runs
  imports Heap_Client
begin

text \<open>
  Allocating runs of pages: the search through the spans of a heap, a new span when none has room,
  and \<open>lz_span_alloc\<close> as its client sees it.
\<close>

section \<open>The search\<close>

definition cleared :: "u32 \<Rightarrow> nat \<Rightarrow> lz_span \<Rightarrow> lz_span" where
  "cleared n s r = r\<lparr>sp_free_bitmap := clear_pages [s..<s + unat n] (sp_free_bitmap r)\<rparr>"

definition put_span :: "addr \<Rightarrow> lz_span \<Rightarrow> lz_state \<Rightarrow> lz_state" where
  "put_span x r st = st\<lparr>metas := (metas st)(x := MSpan r)\<rparr>"

lemma search_spans_spec:
  assumes "chain (meta_next st) cur xs" "\<And>x. x \<in> set xs \<Longrightarrow> valid st x \<and> (\<exists>r. metas st x = MSpan r \<and> span_inv r)"
    and n: "0 < unat n"
  shows "search_spans n cur st = Some (0, -1, st) \<or>
    (\<exists>x r s. x \<in> set xs \<and> metas st x = MSpan r \<and> first_fit (page_free (sp_free_bitmap r)) 512 (unat n) = Some s \<and>
      search_spans n cur st = Some (x, int s, put_span x (cleared n s r) st))"
  using assms(1,2)
proof (induction xs arbitrary: cur)
  case Nil
  then show ?case by (subst search_spans.simps) simp
next
  case (Cons x xs)
  have cur: "cur = x" "x \<noteq> 0" "chain (meta_next st) (meta_next st x) xs" using Cons.prems(1) by auto
  obtain r where r: "valid st x" "metas st x = MSpan r" "span_inv r" using Cons.prems(2) [of x] by auto
  have g: "get_span st x = Some r" using r by (simp add: get_span_def)
  have nx: "meta_next st x = sp_next r" using r by (simp add: meta_next_def)
  have same: "set_meta x (MSpan r) st = Some st" using r by (simp add: set_meta_def fun_upd_idem)
  have IH: "search_spans n (sp_next r) st = Some (0, -1, st) \<or>
    (\<exists>x r' s. x \<in> set xs \<and> metas st x = MSpan r' \<and> first_fit (page_free (sp_free_bitmap r')) 512 (unat n) = Some s \<and>
      search_spans n (sp_next r) st = Some (x, int s, put_span x (cleared n s r') st))"
    using Cons.IH [OF cur(3)] Cons.prems(2) nx cur(1) by simp
  note f = find_contiguous_pages_first_fit [OF span_invD(1) [OF r(3)] n]
  show ?case
  proof (cases "512 - sp_used_pages r \<ge> n")
    case False
    then have "search_spans n cur st = search_spans n (sp_next r) st"
      using cur g nx by (subst search_spans.simps) simp
    then show ?thesis using IH by auto
  next
    case True
    show ?thesis
    proof (cases "first_fit (page_free (sp_free_bitmap r)) 512 (unat n)")
      case None
      then have "search_spans n cur st = search_spans n (sp_next r) st"
        using cur g nx True f same by (subst search_spans.simps) simp
      then show ?thesis using IH by auto
    next
      case (Some s)
      then have "search_spans n cur st = Some (x, int s, put_span x (cleared n s r) st)"
        using cur g True f r(1) by (subst search_spans.simps) (simp add: set_meta_def put_span_def cleared_def)
      then show ?thesis using r(2) Some cur(1) by auto
    qed
  qed
qed

section \<open>Taking a run\<close>

lemma finish_span_run:
  assumes v: "valid st (c + 64)" and c: "chunk_at st c" and r: "span_inv r" "s < 512"
  shows "finish_span (c + 64) (int s) n (put_span (c + 64) (cleared n s r) st) =
    Some (c + of_nat (4096 * s), put_span (c + 64) (span_take n s r) st)"
proof -
  have "chunk_of (c + 64) = c" by (rule chunk_of_meta [OF c])
  moreover have "(of_int (int s) * LZ_PAGE_SIZE :: u64) = of_nat (4096 * s)" by (simp add: mult.commute)
  ultimately show ?thesis
    using v r(2) span_invD(2) [OF r(1)]
    by (simp add: finish_span_def get_span_def set_meta_def span_take_def put_span_def cleared_def valid_def)
qed

lemma struct_span_take:
  assumes inv: "heap_struct st G" and c: "gown G c = Some (Span_of T)" and r: "metas st (c + 64) = MSpan r"
    and f: "first_fit (page_free (sp_free_bitmap r)) 512 (unat n) = Some s" and n: "0 < unat n"
  defines "st' \<equiv> put_span (c + 64) (span_take n s r) st" and "p \<equiv> c + of_nat (4096 * s)"
  shows "heap_struct st' G" "evolves {p} st G st' G" "p \<noteq> 0" "\<not> block st G U p m" "block st' G T p (4096 * unat n)" "s < 512"
proof -
  obtain r0 where r0: "metas st (c + 64) = MSpan r0" "span_inv r0" "chunk_base c" by (rule span_record [OF inv c])
  have si: "span_inv r" using r0 r by simp
  have s: "s + unat n \<le> 512" "run_free (page_free (sp_free_bitmap r)) s (unat n)" using f by (simp_all add: first_fit_Some)
  note un = free_run_unowned [OF si s(2,1) n]
  show s512: "s < 512" using s(1) n by simp
  have n512: "unat n < 512" using s(1) un(2) by simp
  note pg = pages_of_take [OF si s512 n512]
  have "sp_next (span_take n s r) = sp_next r" "sp_prev (span_take n s r) = sp_prev r" by (simp_all add: span_take_def)
  note up = span_update [OF inv c r span_take_inv [OF si s(2,1) n] this, of "{p}", folded put_span_def, folded st'_def]
  show inv': "heap_struct st' G" "evolves {p} st G st' G" by (rule up; use pg p_def in auto)+
  have "span_start st' c p (4096 * unat n)"
    using s512 pg n by (auto simp: span_start_def st'_def put_span_def p_def intro!: exI [of _ s])
  then have b: "block_at st' G c T p (4096 * unat n)" using c by (simp add: block_at_def)
  then show "block st' G T p (4096 * unat n)" by (auto simp: block_def)
  show "p \<noteq> 0" using block_word(4) [OF inv'(1) \<open>block st' G T p (4096 * unat n)\<close>] .
  show "\<not> block st G U p m"
  proof
    assume b0: "block st G U p m"
    have "chunk_of p = c" by (rule block_at_bytes(3) [OF inv'(1) b])
    then have "span_start st c p m" using b0 c unfolding block_iff [OF inv] by (simp add: block_at_def)
    then obtain k where k: "k < 512" "0 < pages_of r k" "p = c + of_nat (4096 * k)" using r by (auto simp: span_start_def)
    have u: "unat (of_nat (4096 * k) :: u64) = 4096 * k" "unat (of_nat (4096 * s) :: u64) = 4096 * s"
      by (subst unat_of_nat; use k(1) s512 in simp)+
    have "(of_nat (4096 * k) :: u64) = of_nat (4096 * s)" using k(3) p_def by (simp only: add_left_cancel)
    from arg_cong [OF this, of unat] have "4096 * k = 4096 * s" unfolding u .
    then show False using k(2) un(1) by simp
  qed
qed

section \<open>A new span\<close>

definition fresh_span :: "addr \<Rightarrow> lz_span" where
  "fresh_span nx = \<lparr>sp_next = nx, sp_prev = 0, sp_free_bitmap = NOT 1 # replicate 7 (NOT 0),
     sp_used_pages = 1, sp_alloc_size_pages = replicate 512 0\<rparr>"

lemma fresh_span_pages: "pages_of (fresh_span nx) j = 0"
  by (simp add: pages_of_def fresh_span_def)

lemma fresh_span_free: "j < 512 \<Longrightarrow> page_free (sp_free_bitmap (fresh_span nx)) j \<longleftrightarrow> j \<noteq> 0"
proof -
  assume j: "j < 512"
  have b: "bit (NOT 1 :: u64) (j mod 64) \<longleftrightarrow> j mod 64 \<noteq> 0" "bit (NOT 0 :: u64) (j mod 64)"
    by (simp_all add: bit_not_iff bit_1_iff)
  show ?thesis
  proof (cases "j div 64")
    case 0
    then have "j mod 64 = j" by simp
    then show ?thesis using 0 b(1) by (simp add: page_free_def fresh_span_def)
  next
    case (Suc k)
    then have "k < 7" "j \<noteq> 0" using j by auto
    then show ?thesis using Suc b(2) by (simp add: page_free_def fresh_span_def)
  qed
qed

lemma fresh_span_inv: "span_inv (fresh_span nx)"
proof -
  have "pages_sum (fresh_span nx) = 0" unfolding pages_sum_def by (simp add: fresh_span_pages)
  moreover have "\<not> page_owned (fresh_span nx) j" for j by (simp add: page_owned_def fresh_span_pages)
  ultimately show ?thesis
    unfolding span_inv_def using fresh_span_free fresh_span_pages
    by (simp add: fresh_span_def)
qed

lemma fresh_span_fit:
  assumes "0 < n" "n < 512"
  shows "first_fit (page_free (sp_free_bitmap (fresh_span nx))) 512 n = Some 1"
proof -
  have "run_free (page_free (sp_free_bitmap (fresh_span nx))) 1 n"
    unfolding run_free_def using fresh_span_free assms by auto
  moreover have "\<not> run_free (page_free (sp_free_bitmap (fresh_span nx))) 0 n"
    unfolding run_free_def using fresh_span_free [of 0 nx] assms(1) by auto
  ultimately show ?thesis using assms by (auto simp: first_fit_Some less_Suc_eq)
qed

lemma struct_new_span:
  assumes ok: "mmap_ok env" and inv: "heap_struct st G" and T: "T \<in> gheaps G" and c: "gown G c = Some Spare" "fresh_chunk st c"
  defines "G' \<equiv> span_desc T ((c + 64) # gspans G T) G"
  shows "\<exists>st' r. new_span env T c st = Some (c + 64, st') \<and> heap_struct st' G' \<and> evolves {} st G st' G' \<and>
    gown G' c = Some (Span_of T) \<and> metas st' (c + 64) = MSpan r \<and> sp_free_bitmap r = sp_free_bitmap (fresh_span 0)"
proof -
  obtain st1 where st1: "(do { st \<leftarrow> shield_chunk c T LZ_CHUNK_TYPE_SPAN st; lz_rtree_set env c c st }) = Some st1"
    "heap_struct st1 G" "evolves {} st G st1 G" "hdr_ok st1 c T LZ_CHUNK_TYPE_SPAN"
    using struct_adopt [OF ok inv c] by blast
  define hd1 where "hd1 = tl_active_spans (tlhs st1 T)"
  define st2 where "st2 = st1\<lparr>metas := (metas st1)(c + 64 := MSpan (fresh_span hd1))\<rparr>"
  note m2 = struct_set_meta [OF st1(2) c(1) st1(4), of "MSpan (fresh_span hd1)", folded st2_def]
  have node: "span_node st2 (c + 64)" "metas st2 (c + 64) = MSpan (fresh_span hd1)" "valid st2 (c + 64)"
    using meta_in_chunk(2) [OF struct_chunk [OF m2(2) c(1)]] by (simp_all add: span_node_def st2_def)
  have own: "s \<in> set (gspans G T) \<longleftrightarrow> gown G (s - 64) = Some (Span_of T)" for s by (rule desc_okD(5) [OF heap_structD(5) [OF inv] T])
  have c_out: "c + 64 \<notin> set (gspans G T)" using own c(1) by simp
  have c0: "c + 64 \<noteq> 0"
  proof
    assume "c + 64 = 0"
    then have "unat (c + 64) = 0" by simp
    moreover have "unat (c + 64) = unat c + 64" using struct_base [OF inv c(1)] by (simp add: chunk_base_def unat_word_ariths)
    ultimately show False by simp
  qed
  have h2: "tl_active_spans (tlhs st2 T) = hd1" by (simp add: st2_def hd1_def)
  have l: "actives.listed T st2 (gspans G T)" by (rule lists_okD(2) [OF heap_structD(8) [OF m2(2) T]])
  obtain st3 where st3: "set_span_next (c + 64) hd1 st2 \<bind> set_span_prev (c + 64) 0 \<bind>
      (\<lambda>s'. if hd1 \<noteq> 0 then set_span_prev hd1 (c + 64) s' else Some s') \<bind> (\<lambda>s. upd_tlh T (tl_active_spans_update (\<lambda>_. c + 64)) s) = Some st3"
    "actives.listed T st3 ((c + 64) # gspans G T)" "span_node st3 = span_node st2" "relinks T (tl_active_spans_update (\<lambda>_. 0)) st2 st3"
    "links_same (set ((c + 64) # gspans G T)) st2 st3"
    using actives.push [OF l node(1) c0 c_out] h2 unfolding links_same_def by auto
  have idem: "set_span_next (c + 64) hd1 st2 \<bind> set_span_prev (c + 64) 0 = Some st2"
    using node(2,3) by (simp add: set_span_next_def set_span_prev_def upd_span_def get_span_def set_meta_def fresh_span_def fun_upd_idem)
  have run: "(if hd1 \<noteq> 0 then upd_span hd1 (sp_prev_update (\<lambda>_. c + 64)) st2 else Some st2) \<bind>
      upd_tlh T (tl_active_spans_update (\<lambda>_. c + 64)) = Some st3"
    using st3(1) unfolding idem by (cases "hd1 = 0") (simp_all add: set_span_prev_def)
  have step: "span_step T (set ((c + 64) # gspans G T)) st2 st3" using st3(3-5) by (simp add: span_step_def)
  have ok3: "span_ok st2 c T" using m2(4) fresh_span_inv node(2) by (simp add: span_ok_def)
  have e3: "span_empty st2 c" using node(2) by (simp add: span_empty_def span_start_def fresh_span_pages)
  have X: "gown G (s - 64) \<in> {Some (Span_of T), Some Spare}" if "s \<in> set ((c + 64) # gspans G T)" for s
    using that own [of s] c(1) by (cases "s = c + 64") simp_all
  have new: "gown G (s - 64) = Some (Span_of T) \<or>
       gown G (s - 64) = Some Spare \<and> span_ok st2 (s - 64) T \<and> span_empty st2 (s - 64)" if "s \<in> set ((c + 64) # gspans G T)" for s
    using that own [of s] c(1) ok3 e3 by (cases "s = c + 64") simp_all
  have old: "span_empty st2 d" if "gown G d = Some (Span_of T)" "d + 64 \<notin> set ((c + 64) # gspans G T)" for d
    using that own [of "d + 64"] by simp
  have s3: "heap_struct st3 G'" "evolves {} st2 G st3 G'"
    unfolding G'_def by (rule span_list_update [OF m2(2) T step X st3(2) new old]; assumption)+
  have "evolves ({} \<union> {} \<union> {}) st G st3 G'" by (rule evolves_trans [OF evolves_trans [OF st1(3) m2(3)] s3(2)])
  then have ev: "evolves {} st G st3 G'" by simp
  have "mcore (metas st3 (c + 64)) = mcore (MSpan (fresh_span hd1))" using span_stepD(3) [OF step, of "c + 64"] node(2) by simp
  from mcore_span [OF this] obtain r where r: "metas st3 (c + 64) = MSpan r"
    "r\<lparr>sp_next := 0, sp_prev := 0\<rparr> = (fresh_span hd1)\<lparr>sp_next := 0, sp_prev := 0\<rparr>" by blast
  have "sp_free_bitmap r = sp_free_bitmap (fresh_span 0)" using arg_cong [OF r(2), of sp_free_bitmap] by (simp add: fresh_span_def)
  moreover have "gown G' c = Some (Span_of T)" by (simp add: G'_def span_desc_def)
  moreover have "new_span env T c st = Some (c + 64, st3)"
  proof -
    obtain s where s: "shield_chunk c T LZ_CHUNK_TYPE_SPAN st = Some s" "lz_rtree_set env c c s = Some st1"
      using st1(1) by (auto simp: bind_eq_Some_conv)
    have "get_tlh st1 T = Some (tlhs st1 T)" using stat_valid(1) [OF st1(2) T] by (simp add: get_tlh_def)
    moreover obtain s4 where "(if hd1 \<noteq> 0 then upd_span hd1 (sp_prev_update (\<lambda>_. c + 64)) st2 else Some st2) = Some s4"
      "upd_tlh T (tl_active_spans_update (\<lambda>_. c + 64)) s4 = Some st3"
      using run by (auto simp: bind_eq_Some_conv simp del: if_split)
    moreover note m2(1) [unfolded fresh_span_def]
    ultimately show ?thesis using s by (simp add: new_span_def hd1_def Let_def cong: if_cong)
  qed
  ultimately show ?thesis using s3(1) ev r(1) by blast
qed

section \<open>The allocation\<close>

lemma span_pages_needed:
  assumes "0 < sz" "sz \<le> 1048576"
  shows "unat (ucast (LZ_ALIGN_UP sz LZ_PAGE_SIZE div LZ_PAGE_SIZE) :: u32) = (unat sz + 4095) div 4096"
    "0 < (unat sz + 4095) div 4096" "(unat sz + 4095) div 4096 < 512" "unat sz \<le> 4096 * ((unat sz + 4095) div 4096)"
proof -
  have s: "0 < unat sz" "unat sz \<le> 1048576" using assms by (simp_all add: word_le_nat_alt word_less_nat_alt)
  have "unat (LZ_ALIGN_UP sz (2 ^ 12)) = (unat sz + 4095) div 4096 * 4096" by (subst unat_align_up) (use s in auto)
  then have u: "unat (LZ_ALIGN_UP sz LZ_PAGE_SIZE div LZ_PAGE_SIZE) = (unat sz + 4095) div 4096" by (simp add: unat_div)
  show b: "0 < (unat sz + 4095) div 4096" "(unat sz + 4095) div 4096 < 512" "unat sz \<le> 4096 * ((unat sz + 4095) div 4096)"
    using s by (simp_all add: div_greater_zero_iff less_mult_imp_div_less)
  show "unat (ucast (LZ_ALIGN_UP sz LZ_PAGE_SIZE div LZ_PAGE_SIZE) :: u32) = (unat sz + 4095) div 4096"
    unfolding unat_ucast u using b(2) by simp
qed

lemma actives_chain:
  assumes inv: "heap_struct st G" and T: "T \<in> gheaps G"
  shows "chain (meta_next st) (tl_active_spans (tlhs st T)) (gspans G T)"
    "x \<in> set (gspans G T) \<Longrightarrow> gown G (x - 64) = Some (Span_of T)"
    "x \<in> set (gspans G T) \<Longrightarrow> valid st x \<and> (\<exists>r. metas st x = MSpan r \<and> span_inv r)"
proof -
  have l: "actives.listed T st (gspans G T)" by (rule lists_okD(2) [OF heap_structD(8) [OF inv T]])
  then show "chain (meta_next st) (tl_active_spans (tlhs st T)) (gspans G T)" using dll_chain by (auto simp: actives.listed_def)
  show o: "gown G (x - 64) = Some (Span_of T)" if "x \<in> set (gspans G T)" for x
    using desc_okD(5) [OF heap_structD(5) [OF inv] T, of x] that by simp
  show "valid st x \<and> (\<exists>r. metas st x = MSpan r \<and> span_inv r)" if "x \<in> set (gspans G T)"
    by (rule span_record [OF inv o [OF that]]) auto
qed

lemma page_address:
  assumes "chunk_base c"
  shows "4096 dvd unat (c + of_nat (4096 * s))"
proof -
  have c: "4096 dvd unat c" using assms unfolding chunk_base_def by (auto intro: dvd_trans [of 4096 2097152])
  have e: "c + of_nat (4096 * s) = of_nat (unat c + 4096 * s)" by simp
  show ?thesis unfolding e unat_of_nat by (rule dvd_mod) (use c in simp_all)
qed

lemma span_alloc_struct:
  assumes ok: "mmap_ok env" and inv: "heap_struct st G" and stat: "status_ok G" and T: "T \<in> gheaps G" and sz: "0 < sz" "sz \<le> 1048576"
  defines "k \<equiv> (unat sz + 4095) div 4096"
  shows "\<exists>p st' G'. lz_span_alloc env T sz st = Some (p, st') \<and> heap_struct st' G' \<and> status_ok G' \<and> evolves {p} st G st' G' \<and>
    (p \<noteq> 0 \<longrightarrow> (\<forall>U m. \<not> block st G U p m) \<and> block st' G' T p (4096 * k)) \<and> (p = 0 \<longrightarrow> refused st st') \<and> 4096 dvd unat p"
proof -
  define n :: u32 where "n = ucast (LZ_ALIGN_UP sz LZ_PAGE_SIZE div LZ_PAGE_SIZE)"
  have n: "unat n = k" "0 < unat n" "unat n < 512" "\<not> n \<ge> 512"
    using span_pages_needed [OF sz] by (simp_all add: n_def k_def word_le_nat_alt)
  have g: "get_tlh st T = Some (tlhs st T)" using stat_valid(1) [OF inv T] by (simp add: get_tlh_def)
  note ch = actives_chain [OF inv T]
  from search_spans_spec [OF ch(1,3) n(2), simplified] show ?thesis
  proof (elim disjE exE conjE)
    fix x r s
    assume x: "x \<in> set (gspans G T)" "metas st x = MSpan r" "first_fit (page_free (sp_free_bitmap r)) 512 (unat n) = Some s"
      "search_spans n (tl_active_spans (tlhs st T)) st = Some (x, int s, put_span x (cleared n s r) st)"
    let ?c = "x - 64"
    have c: "gown G ?c = Some (Span_of T)" by (rule ch(2) [OF x(1)])
    have r: "metas st (?c + 64) = MSpan r" using x(2) by simp
    note t = struct_span_take [OF inv c r x(3) n(2)]
    obtain r0 where r0: "metas st (?c + 64) = MSpan r0" "span_inv r0" "valid st (?c + 64)" by (rule span_record [OF inv c])
    have si: "span_inv r" using r0 r by simp
    have "finish_span x (int s) n (put_span x (cleared n s r) st) = Some (?c + of_nat (4096 * s), put_span x (span_take n s r) st)"
      using finish_span_run [OF r0(3) struct_chunk [OF inv c] si t(6), of n] by simp
    then have "lz_span_alloc env T sz st = Some (?c + of_nat (4096 * s), put_span x (span_take n s r) st)"
      using g x(4) n(4) by (simp add: lz_span_alloc_def Let_def n_def [symmetric])
    then show ?thesis using t(1-5) stat n(1) page_address [OF struct_base [OF inv c], of s] by auto
  next
    assume none: "search_spans n (tl_active_spans (tlhs st T)) st = Some (0, -1, st)"
    obtain c st1 PG where st1: "lz_vmm_alloc_chunk env st = Some (c, st1)" "c \<noteq> 0 \<longrightarrow> gown G c = None \<and> fresh_chunk st1 c"
      "heap_struct st1 (G\<lparr>gpools := PG, gown := (if c = 0 then gown G else (gown G)(c \<mapsto> Spare))\<rparr>)"
      "evolves {} st G st1 (G\<lparr>gpools := PG, gown := (if c = 0 then gown G else (gown G)(c \<mapsto> Spare))\<rparr>)"
      "c = 0 \<longrightarrow> refused st st1"
      using struct_take [OF ok inv] by blast
    let ?G1 = "G\<lparr>gpools := PG, gown := (if c = 0 then gown G else (gown G)(c \<mapsto> Spare))\<rparr>"
    have stat1: "status_ok ?G1" by (rule status_cong [OF stat]) simp_all
    show ?thesis
    proof (cases "c = 0")
      case True
      have "lz_span_alloc env T sz st = Some (0, st1)"
        using g none n(4) st1(1) True by (simp add: lz_span_alloc_def Let_def n_def [symmetric])
      then show ?thesis using st1(3,5) True evolves_mono [OF st1(4), of "{0}"] stat1 by auto
    next
      case False
      have T1: "T \<in> gheaps ?G1" using T by simp
      have c1: "gown ?G1 c = Some Spare" using False by simp
      let ?G2 = "span_desc T ((c + 64) # gspans ?G1 T) ?G1"
      obtain st2 r where st2: "new_span env T c st1 = Some (c + 64, st2)" "heap_struct st2 ?G2" "evolves {} st1 ?G1 st2 ?G2"
        "gown ?G2 c = Some (Span_of T)" "metas st2 (c + 64) = MSpan r" "sp_free_bitmap r = sp_free_bitmap (fresh_span 0)"
        using struct_new_span [OF ok st1(3) T1 c1] st1(2) False by blast
      have fit: "first_fit (page_free (sp_free_bitmap r)) 512 (unat n) = Some 1" unfolding st2(6) by (rule fresh_span_fit [OF n(2,3)])
      note t = struct_span_take [OF st2(2,4,5) fit n(2)]
      obtain r0 where r0: "metas st2 (c + 64) = MSpan r0" "span_inv r0" "valid st2 (c + 64)" "get_span st2 (c + 64) = Some r0"
        by (rule span_record [OF st2(2,4)])
      have si: "span_inv r" "get_span st2 (c + 64) = Some r" using r0 st2(5) by simp_all
      have find: "find_contiguous_pages r n = (1, cleared n 1 r)"
        using find_contiguous_pages_first_fit [OF span_invD(1) [OF si(1)] n(2)] fit by (simp add: cleared_def)
      have set: "set_meta (c + 64) (MSpan (cleared n 1 r)) st2 = Some (put_span (c + 64) (cleared n 1 r) st2)"
        using r0(3) by (simp add: set_meta_def put_span_def)
      have fin: "finish_span (c + 64) 1 n (put_span (c + 64) (cleared n 1 r) st2) = Some (c + of_nat (4096 * 1), put_span (c + 64) (span_take n 1 r) st2)"
        using finish_span_run [OF r0(3) struct_chunk [OF st2(2,4)] si(1) t(6), of n] by simp
      have "lz_span_alloc env T sz st = Some (c + of_nat (4096 * 1), put_span (c + 64) (span_take n 1 r) st2)"
        using g none n(4) st1(1) False st2(1) si(2) find set fin by (simp add: lz_span_alloc_def Let_def n_def [symmetric])
      moreover have "evolves ({} \<union> {} \<union> {c + of_nat (4096 * 1)}) st G (put_span (c + 64) (span_take n 1 r) st2) ?G2"
        by (rule evolves_trans [OF evolves_trans [OF st1(4) st2(3)] t(2)])
      moreover have "status_ok ?G2" by (rule status_cong [OF stat1]) simp_all
      moreover have "\<not> block st G U (c + of_nat (4096 * 1)) m" for U m
        using t(4) [of U m] evolvesD(8) [OF st1(4), of "c + of_nat (4096 * 1)"] evolvesD(8) [OF st2(3), of "c + of_nat (4096 * 1)"] by blast
      moreover note page_address [OF struct_base [OF st2(2,4)], of 1]
      ultimately show ?thesis using t(1,3,5) n(1) by (simp only: Un_empty_left) blast
    qed
  qed
qed

lemma span_alloc_client:
  assumes ok: "mmap_ok env" and inv: "heap_inv st G M B" and T: "T \<in> gheaps G" and sz: "0 < sz" "sz \<le> 1048576"
  shows "\<exists>p st' G'. lz_span_alloc env T sz st = Some (p, st') \<and>
    handed_out st G M B st' G' M B T p (4096 * ((unat sz + 4095) div 4096)) \<and> (p = 0 \<longrightarrow> refused st st') \<and> 4096 dvd unat p"
proof -
  note I = heap_invD [OF inv]
  obtain p st' G' where st': "lz_span_alloc env T sz st = Some (p, st')" "heap_struct st' G'" "status_ok G'" "evolves {p} st G st' G'"
    "p \<noteq> 0 \<longrightarrow> (\<forall>U m. \<not> block st G U p m) \<and> block st' G' T p (4096 * ((unat sz + 4095) div 4096))"
    "p = 0 \<longrightarrow> refused st st'" "4096 dvd unat p"
    using span_alloc_struct [OF ok I(1,2) T sz] by blast
  have "handed_out st G M B st' G' M B T p (4096 * ((unat sz + 4095) div 4096))"
    by (rule handed_out_evolves [OF inv st'(2-4)]) (use st'(5) in blast)
  then show ?thesis using st'(1,6,7) by blast
qed

section \<open>A block of pages and back\<close>

lemma search_spans_hit:
  assumes cur: "cur \<noteq> 0" "valid st cur" "metas st cur = MSpan r" "span_inv r" and n: "0 < unat n"
    and fit: "first_fit (page_free (sp_free_bitmap r)) 512 (unat n) = Some s"
  shows "search_spans n cur st = Some (cur, int s, put_span cur (cleared n s r) st)"
proof -
  note f = find_contiguous_pages_first_fit [OF span_invD(1) [OF cur(4)] n]
  have u: "unat (sp_used_pages r) + unat n \<le> 512"
    by (rule free_run_used [OF cur(4), of s]) (use fit in \<open>simp_all add: first_fit_Some\<close>)
  then have "sp_used_pages r \<le> 512" by (simp add: word_le_nat_alt)
  then have "unat (512 - sp_used_pages r) = 512 - unat (sp_used_pages r)" by (simp add: unat_sub)
  then have "512 - sp_used_pages r \<ge> n" using u by (simp add: word_le_nat_alt)
  then show ?thesis
    using cur f fit by (subst search_spans.simps) (simp add: get_span_def set_meta_def put_span_def cleared_def)
qed

text \<open>
  C14. A block of pages, from \<open>lz_span_alloc\<close> to \<open>lz_span_free_local\<close>, in a heap whose first active
  span has room and already holds a block. The first run of free pages that is long enough is taken:
  the pointer is the address of its first page, the run is past page 0 and inside the chunk, meets no
  other block of the span, and the span stays well-formed (the bitmap marks exactly the pages of
  blocks, the counter of used pages is right). Freeing the pointer gives back exactly the pages it
  was given: all chunk metadata, bitmap, page counts and used pages, is what it was before.
\<close>

theorem span_alloc_free_roundtrip:
  assumes T: "valid st T" "tl_stat_slot (tlhs st T) = 0 \<or> valid st (tl_stat_slot (tlhs st T))" "tl_active_spans (tlhs st T) = c + 64"
    and c: "chunk_at st c" "metas st (c + 64) = MSpan r" "span_inv r" "sp_used_pages r \<noteq> 1"
    and sz: "0 < sz" "sz \<le> 1048576"
    and fit: "first_fit (page_free (sp_free_bitmap r)) LZ_SPAN_TOTAL_PAGES ((unat sz + 4095) div 4096) = Some s"
  shows "\<exists>p st1 r1 st2. lz_span_alloc env T sz st = Some (p, st1) \<and> lz_span_free_local env T c p st1 = Some st2 \<and>
    unat p = unat c + 4096 * s \<and> 0 < s \<and> unat p + unat sz \<le> unat c + 2097152 \<and>
    metas st1 = (metas st)(c + 64 := MSpan r1) \<and> span_inv r1 \<and> pages_of r1 s = (unat sz + 4095) div 4096 \<and>
    (\<forall>t. t \<noteq> s \<longrightarrow> pages_of r1 t = pages_of r t) \<and>
    (\<forall>t<LZ_SPAN_TOTAL_PAGES. 0 < pages_of r t \<longrightarrow> {t..<t + pages_of r t} \<inter> {s..<s + pages_of r1 s} = {}) \<and>
    metas st2 = metas st"
proof -
  define n :: u32 where "n = ucast (LZ_ALIGN_UP sz LZ_PAGE_SIZE div LZ_PAGE_SIZE)"
  have n: "unat n = (unat sz + 4095) div 4096" "0 < unat n" "0 < n" "\<not> n \<ge> 512"
    using span_pages_needed [OF sz] by (simp_all add: n_def word_le_nat_alt word_less_nat_alt)
  have fit': "first_fit (page_free (sp_free_bitmap r)) 512 (unat n) = Some s" using fit n(1) by simp
  note tg = span_take_give [OF c(3) fit' n(3)]
  have v: "valid st (c + 64)" by (rule meta_in_chunk(2) [OF c(1)])
  have b: "unat c + 2097152 \<le> 2 ^ 47" "chunk_base c" using c(1) chunk_at_base by (auto simp: chunk_at_def)
  have c0: "c + 64 \<noteq> 0" using b(1) by (auto simp: word_unat_eq_iff unat_word_ariths)
  let ?r1 = "span_take n s r" and ?p = "c + of_nat (4096 * s)"
  let ?st1 = "put_span (c + 64) ?r1 st"
  have s: "s < 512" "s + unat n \<le> 512" using tg n(2) by linarith+
  have "get_tlh st T = Some (tlhs st T)" using T(1) by (simp add: get_tlh_def)
  then have alloc: "lz_span_alloc env T sz st = Some (?p, ?st1)"
    using search_spans_hit [OF c0 v c(2,3) n(2) fit'] finish_span_run [OF v c(1,3) s(1), of n] n(4) T(3)
    by (simp add: lz_span_alloc_def Let_def n_def [symmetric])
  have restored: "?st1\<lparr>metas := (metas ?st1)(c + 64 := MSpan (span_give s ?r1))\<rparr> = st"
    using tg c(2) by (simp add: put_span_def fun_upd_idem)
  obtain st2 where st2: "telemetry_free_batch T (ucast (sp_alloc_size_pages ?r1 ! s) * ucast LZ_PAGE_SIZE) st = Some st2" "counts T st st2"
    using free_batch_counts [OF T(1,2)] by blast
  have m2: "metas st2 = metas st" "valid st2 (c + 64)" using st2(2) v by (auto simp: counts_def valid_def)
  have gave: "lz_span_free_local env T c ?p ?st1 = Some st2"
    using span_free_steps [where st = ?st1 and r = ?r1 and j = s and T = T and ?r2.0 = r and ?st2.0 = st2 and c = c and env = env]
      b(2) v tg s(1) n(2) restored st2(1) m2 c(2,4) by (simp add: put_span_def valid_def)
  have p: "unat ?p = unat c + 4096 * s" using b(1) s(1) by (simp add: unat_word_ariths unat_of_nat)
  moreover have "unat ?p + unat sz \<le> unat c + 2097152" unfolding p using span_pages_needed(4) [OF sz] s(2) n(1) by linarith
  moreover have "metas ?st1 = (metas st)(c + 64 := MSpan ?r1)" by (simp add: put_span_def)
  ultimately show ?thesis using alloc gave tg m2(1) n(1) by (intro exI [of _ ?p] exI [of _ ?st1] exI [of _ ?r1] exI [of _ st2]) auto
qed

text \<open>A heap at \<open>0x50000000\<close> with one span, of which pages 1 to 3 are taken.\<close>

definition one_span :: lz_state where
  "one_span = boot_state\<lparr>trace := [Mmap 0x40000000 LZ_HUGE_PAGE_SIZE, Mmap 0x50000000 LZ_HUGE_PAGE_SIZE],
     metas := (\<lambda>_. MRaw)(0x40000040 := MSpan (span_take 3 1 (fresh_span 0))),
     tlhs := (\<lambda>_. zero_tlh)(0x50000000 := zero_tlh\<lparr>tl_active_spans := 0x40000040\<rparr>)\<rparr>"

theorem span_alloc_free_roundtrip_witness:
  "\<exists>p st1 st2. lz_span_alloc bump_os 0x50000000 100000 one_span = Some (p, st1) \<and> unat p = 0x40004000 \<and>
    lz_span_free_local bump_os 0x50000000 0x40000000 p st1 = Some st2 \<and> metas st2 = metas one_span"
proof -
  define r where "r = span_take 3 1 (fresh_span 0)"
  have fit1: "first_fit (page_free (sp_free_bitmap (fresh_span 0))) 512 (unat (3 :: u32)) = Some 1" by (rule fresh_span_fit) simp_all
  note tg = span_take_give [OF fresh_span_inv fit1, folded r_def]
  have r: "span_inv r" "pages_of r t = (if t = 1 then 3 else 0)" for t using tg by (simp_all add: fresh_span_pages)
  have owned: "page_owned r j \<longleftrightarrow> 1 \<le> j \<and> j < 4" for j
  proof
    show "1 \<le> j \<and> j < 4" if "page_owned r j" using that by (auto simp: page_owned_def r(2) split: if_splits)
    show "page_owned r j" if "1 \<le> j \<and> j < 4" unfolding page_owned_def by (rule exI [of _ 1]) (use that in \<open>simp add: r(2)\<close>)
  qed
  have free: "page_free (sp_free_bitmap r) j \<longleftrightarrow> 4 \<le> j" if "j < 512" for j
    unfolding span_invD(6) [OF r(1) that] owned by linarith
  have "page_free (sp_free_bitmap r) (4 + j)" if "j < 25" for j using free [of "4 + j"] that by linarith
  then have "run_free (page_free (sp_free_bitmap r)) 4 25" unfolding run_free_def by blast
  moreover have "\<not> run_free (page_free (sp_free_bitmap r)) k 25" if "k < 4" for k
  proof
    assume "run_free (page_free (sp_free_bitmap r)) k 25"
    then have "page_free (sp_free_bitmap r) (k + 0)" unfolding run_free_def by (rule allE [of _ 0]) simp
    then show False using free [of k] that by simp
  qed
  ultimately have "first_fit (page_free (sp_free_bitmap r)) 512 25 = Some 4" unfolding first_fit_Some by auto
  then have fit: "first_fit (page_free (sp_free_bitmap r)) 512 ((unat (100000 :: u64) + 4095) div 4096) = Some 4" by simp
  have T: "valid one_span 0x50000000" "tl_stat_slot (tlhs one_span 0x50000000) = 0" "tl_active_spans (tlhs one_span 0x50000000) = 0x40000000 + 64"
    by (simp_all add: one_span_def valid_def within_def zero_tlh_def)
  have c: "chunk_at one_span 0x40000000" "metas one_span (0x40000000 + 64) = MSpan r" "sp_used_pages r \<noteq> 1"
    by (simp_all add: one_span_def chunk_at_def valid_def mask_eq_exp_minus_1 r_def span_take_def fresh_span_def)
  have sz: "0 < (100000 :: u64)" "(100000 :: u64) \<le> 1048576" by simp_all
  show ?thesis using span_alloc_free_roundtrip [OF T(1) disjI1 [OF T(2)] T(3) c(1,2) r(1) c(3) sz fit, of bump_os] by auto
qed

end
