(* ===== verification/Heap_Threads.thy ===== *)
theory Heap_Threads
  imports Heap_Runs Lzmalloc
begin

text \<open>
  Threads and their heaps: a thread gets a heap at its first request, a zombie if there is one and a
  new one otherwise, and leaves it to the zombies when it exits.
\<close>

section \<open>Steps that only concern threads\<close>

text \<open>The parts of the state that slabs, spans, chunks and the index consist of.\<close>

definition same_views :: "lz_state \<Rightarrow> lz_state \<Rightarrow> bool" where
  "same_views st st' \<longleftrightarrow> trace st' = trace st \<and> mem st' = mem st \<and> hdrs st' = hdrs st \<and> metas st' = metas st \<and>
     leaves st' = leaves st \<and> g_lz_global_secret st' = g_lz_global_secret st \<and> g_rtree_root st' = g_rtree_root st \<and>
     g_numa_pools st' = g_numa_pools st \<and> g_pool_locks st' = g_pool_locks st \<and>
     g_global_pool_lock st' = g_global_pool_lock st \<and> g_global_free_chunks st' = g_global_free_chunks st \<and>
     g_telemetry_matrix st' = g_telemetry_matrix st"

lemma same_views_valid: "same_views st st' \<Longrightarrow> valid st' = valid st"
  by (simp add: same_views_def valid_def fun_eq_iff)

lemma same_views_span: "same_views st st' \<Longrightarrow> span_start st' = span_start st"
  by (simp add: same_views_def span_start_def fun_eq_iff)

lemma same_views_get: "same_views st st' \<Longrightarrow> lz_rtree_get st' a = lz_rtree_get st a"
  by (simp add: lz_rtree_get_def same_views_def valid_def Let_def)

lemma heap_struct_views:
  assumes inv: "heap_struct st G" and v: "same_views st st'"
    and g: "gpools G' = gpools G" "gown G' = gown G" "gcarved G' = gcarved G" "gfree G' = gfree G" and ok: "desc_ok G'"
    and new: "\<And>T c. T \<in> gheaps G' - gheaps G \<Longrightarrow> valid st T \<and> (c \<in> dom (gown G) \<union> idle (gpools G) \<longrightarrow> T \<notin> chunk_block c)"
    and lists: "\<And>T. T \<in> gheaps G' \<Longrightarrow> lists_ok st' G' T \<and> stat_ok st' T"
  shows "heap_struct st' G'" "block st' G' T y n \<longleftrightarrow> block st G T y n"
proof -
  note val = same_views_valid [OF v]
  have h: "hnext st' = hnext st" using v by (simp add: same_views_def hnext_def [abs_def])
  have "pool_inv st' n cs = pool_inv st n cs" for n cs using v h by (simp add: pool_inv_def same_views_def)
  moreover have ch: "chunk_at st' c = chunk_at st c" for c using val by (simp add: chunk_at_def)
  moreover have "locks_free st' = locks_free st" using v by (simp add: locks_free_def same_views_def)
  ultimately have vmm: "vmm_inv st' (gpools G')"
    using heap_structD(1) [OF inv] h v g(1) by (simp add: vmm_inv_def same_views_def)
  have rt: "rtree_inv st'" using heap_structD(2) [OF inv] v val by (simp add: rtree_inv_def same_views_def)
  have pin: "a \<in> pinned st' G' \<Longrightarrow> a \<in> pinned st G \<or> a \<in> gheaps G' - gheaps G" for a
    using v by (auto simp: pinned_def same_views_def)
  have lay: "layout_ok st' G'"
    unfolding layout_ok_def g ch val
    using pin new heap_structD(3) [OF inv] unfolding layout_ok_def by blast
  have idx: "index_ok st' G'"
    using heap_structD(4) [OF inv] unfolding index_ok_def same_views_get [OF v] g .
  have fl: "free_link st' = free_link st" using v by (intro ext) (simp add: free_link_def same_views_def lz_ptr_obfuscate_def)
  have "slab_ok st' G' c T i = slab_ok st G c T i" for c T i
    using v g fl by (simp add: slab_ok_def hdr_ok_def slab_rep_def same_views_def)
  moreover have "span_ok st' c T = span_ok st c T" for c T using v by (simp add: span_ok_def hdr_ok_def same_views_def)
  ultimately show "heap_struct st' G'"
    unfolding heap_struct_def using vmm rt lay idx ok lists heap_structD(6,7) [OF inv] g(2) by simp
  show "block st' G' T y n \<longleftrightarrow> block st G T y n"
    by (simp only: block_def block_at_def slab_used_def g same_views_span [OF v])
qed


lemma same_views_clear: "same_views st st' \<Longrightarrow> clear_link st' = clear_link st"
  by (intro ext) (simp add: clear_link_def same_views_def)

text \<open>What belongs to the lists and messages of a heap, and what belongs to its thread.\<close>

definition same_heap :: "lz_tlh \<Rightarrow> lz_tlh \<Rightarrow> bool" where
  "same_heap h h' \<longleftrightarrow> tl_bins h' = tl_bins h \<and> tl_active_spans h' = tl_active_spans h \<and>
     tl_remote_free_head h' = tl_remote_free_head h \<and> tl_outgoing_batch h' = tl_outgoing_batch h"

lemma node_same_views: "same_views st st' \<Longrightarrow> node_same st st' s"
  by (rule node_sameI [OF _ same_views_valid]) (simp_all add: same_views_def)

lemma heap_inv_threads:
  assumes inv: "heap_inv st G M B" and v: "same_views st st'"
    and h: "\<And>T. T \<in> gheaps G \<Longrightarrow> same_heap (tlhs st T) (tlhs st' T)" and s: "\<And>T. T \<in> gheaps G \<Longrightarrow> stat_ok st' T"
  shows "heap_inv st' G M B" "live st' G M B T y n \<longleftrightarrow> live st G M B T y n"
proof -
  note I = heap_invD [OF inv]
  have l: "lists_ok st' G T" if T: "T \<in> gheaps G" for T
    by (rule lists_ok_same [OF heap_structD(8) [OF I(1) T] node_same_views [OF v] node_same_views [OF v]])
       (use h [OF T] lists_okD(4) [OF heap_structD(8) [OF I(1) T]] same_views_valid [OF v] in \<open>simp_all add: same_heap_def\<close>)
  note hs = heap_struct_views [OF I(1) v refl refl refl refl heap_structD(5) [OF I(1)]]
  have st': "heap_struct st' G" by (rule hs(1)) (use l s in simp_all)
  have b: "block st' G T y n \<longleftrightarrow> block st G T y n" for T y n by (rule hs(2)) (use l s in simp_all)
  have "mail_ok st' G T (M T)" "batch_ok st' G T (B T)" if T: "T \<in> gheaps G" for T
  proof -
    show "mail_ok st' G T (M T)"
      by (rule mail_ok_same [OF msgs_okD(1) [OF I(3) T]]) (use h [OF T] b same_views_clear [OF v] in \<open>simp_all add: same_heap_def\<close>)
    show "batch_ok st' G T (B T)"
      by (rule batch_ok_same [OF msgs_okD(2) [OF I(3) T]]) (use h [OF T] b same_views_clear [OF v] in \<open>simp_all add: same_heap_def\<close>)
  qed
  then show "heap_inv st' G M B" using st' I(2) msgs_okD(3) [OF I(3)] by (simp add: heap_inv_def msgs_ok_def)
  show "live st' G M B T y n \<longleftrightarrow> live st G M B T y n" by (simp add: live_def b)
qed

section \<open>A new heap\<close>

definition empty_bins :: "lz_bin list" where
  "empty_bins = replicate LZ_MAX_SIZE_CLASSES \<lparr>current_slab = 0, partial_list = 0, full_list = 0\<rparr>"

definition add_heap :: "addr \<Rightarrow> heap_desc \<Rightarrow> heap_desc" where
  "add_heap T G = G\<lparr>gheaps := insert T (gheaps G), gcur := (gcur G)(T := \<lambda>_. 0), gpart := (gpart G)(T := \<lambda>_. []),
     gfull := (gfull G)(T := \<lambda>_. []), gspans := (gspans G)(T := [])\<rparr>"

lemma add_heap_sel [simp]:
  "gpools (add_heap T G) = gpools G" "gown (add_heap T G) = gown G" "gcarved (add_heap T G) = gcarved G"
  "gfree (add_heap T G) = gfree G" "gheaps (add_heap T G) = insert T (gheaps G)"
  "gcur (add_heap T G) = (gcur G)(T := \<lambda>_. 0)" "gpart (add_heap T G) = (gpart G)(T := \<lambda>_. [])"
  "gfull (add_heap T G) = (gfull G)(T := \<lambda>_. [])" "gspans (add_heap T G) = (gspans G)(T := [])"
  by (simp_all add: add_heap_def)

lemma add_heap_desc:
  assumes "desc_ok G" "T \<noteq> 0" "T \<notin> gheaps G"
  shows "desc_ok (add_heap T G)"
proof -
  note d = desc_okD [OF assms(1)]
  have "gown G c \<noteq> Some (Slab_of T i)" "gown G c \<noteq> Some (Span_of T)" for c i using d(1,3) assms(3) by blast+
  then show ?thesis using assms d unfolding desc_ok_def by (auto simp: bin_slabs_def)
qed

lemma heap_inv_new:
  assumes inv: "heap_inv st G M B" and v: "same_views st st'" and T: "T \<noteq> 0" "T \<notin> gheaps G" "valid st T"
    and out: "\<And>c. c \<in> dom (gown G) \<union> idle (gpools G) \<Longrightarrow> T \<notin> chunk_block c"
    and old: "\<And>U. U \<in> gheaps G \<Longrightarrow> tlhs st' U = tlhs st U"
    and new: "tl_bins (tlhs st' T) = empty_bins" "tl_active_spans (tlhs st' T) = 0" "tl_remote_free_head (tlhs st' T) = 0"
      "tl_outgoing_batch (tlhs st' T) = zero_batch" "stat_ok st' T"
  shows "heap_inv st' (add_heap T G) (M(T := [])) (B(T := []))"
    "live st' (add_heap T G) (M(T := [])) (B(T := [])) U y n \<longleftrightarrow> live st G M B U y n"
proof -
  note I = heap_invD [OF inv]
  have val: "valid st' T" using T(3) same_views_valid [OF v] by simp
  have l: "lists_ok st' (add_heap T G) U \<and> stat_ok st' U" if U: "U \<in> gheaps (add_heap T G)" for U
  proof (cases "U = T")
    case True
    show ?thesis
      unfolding True lists_ok_def bin_lists_def partials.listed_def fulls.listed_def actives.listed_def
      using new(1,2,5) val by (simp add: empty_bins_def bin_ready_def the_bin_def)
  next
    case False
    then have U': "U \<in> gheaps G" using U by simp
    have "lists_ok st' (add_heap T G) U"
      by (rule lists_ok_same [OF heap_structD(8) [OF I(1) U'] node_same_views [OF v] node_same_views [OF v]])
         (use old [OF U'] False lists_okD(4) [OF heap_structD(8) [OF I(1) U']] same_views_valid [OF v] in simp_all)
    moreover have "stat_ok st' U" using heap_structD(9) [OF I(1) U'] old [OF U'] v by (simp add: stat_ok_def same_views_def)
    ultimately show ?thesis by blast
  qed
  note hs = heap_struct_views [OF I(1) v, of "add_heap T G", OF _ _ _ _ add_heap_desc [OF heap_structD(5) [OF I(1)] T(1,2)] _ l]
  have st': "heap_struct st' (add_heap T G)" by (rule hs(1)) (use T(3) out in auto)
  have b: "block st' (add_heap T G) U y n \<longleftrightarrow> block st G U y n" for U y n by (rule hs(2)) (use T(3) out in auto)
  have p: "pending (add_heap T G) (M(T := [])) (B(T := [])) = pending G M B" using T(2) by (auto simp: pending_def split: if_splits)
  have "mail_ok st' (add_heap T G) U ((M(T := [])) U) \<and> batch_ok st' (add_heap T G) U ((B(T := [])) U)"
    if U: "U \<in> gheaps (add_heap T G)" for U
  proof (cases "U = T")
    case True
    then show ?thesis using new(3,4) by (simp add: mail_ok_def batch_ok_def zero_batch_def)
  next
    case False
    then have U': "U \<in> gheaps G" using U by simp
    have "mail_ok st' (add_heap T G) U (M U)"
      by (rule mail_ok_same [OF msgs_okD(1) [OF I(3) U']]) (use old [OF U'] b same_views_clear [OF v] in simp_all)
    moreover have "batch_ok st' (add_heap T G) U (B U)"
      by (rule batch_ok_same [OF msgs_okD(2) [OF I(3) U']]) (use old [OF U'] b same_views_clear [OF v] in auto)
    ultimately show ?thesis using False by simp
  qed
  moreover have "apart (gheaps (add_heap T G)) (M(T := [])) (B(T := []))"
    using msgs_okD(3) [OF I(3)] unfolding apart_def by auto
  moreover have "status_ok (add_heap T G)" using I(2) unfolding status_ok_def by auto
  ultimately show "heap_inv st' (add_heap T G) (M(T := [])) (B(T := []))" using st' by (simp add: heap_inv_def msgs_ok_def)
  show "live st' (add_heap T G) (M(T := [])) (B(T := [])) U y n \<longleftrightarrow> live st G M B U y n" by (simp add: live_def b p)
qed

section \<open>The telemetry slot of a thread\<close>

lemma ensure_tls_slot:
  assumes "tls_tlh_ptr st t = 0" and "ensure_tls_init env t st = Some st'"
  shows "tl_thread_id (tlhs st' (tls_tlh_ptr st' t)) = g_thread_counter st"
    "tl_stat_slot (tlhs st' (tls_tlh_ptr st' t)) = lz_telemetry_get_slot (1 + g_thread_counter st mod 4095) st"
    "g_thread_counter st' = g_thread_counter st + 1" "g_telemetry_matrix st' = g_telemetry_matrix st"
    "valid st a \<Longrightarrow> valid st' a"
proof -
  have "tl_thread_id (tlhs st' (tls_tlh_ptr st' t)) = g_thread_counter st \<and>
    tl_stat_slot (tlhs st' (tls_tlh_ptr st' t)) = lz_telemetry_get_slot (1 + g_thread_counter st mod 4095) st \<and>
    g_thread_counter st' = g_thread_counter st + 1 \<and> g_telemetry_matrix st' = g_telemetry_matrix st \<and> (valid st a \<longrightarrow> valid st' a)"
  proof (cases "g_zombie_tlhs st = 0")
    case True
    then show ?thesis
      using assms by (auto simp: ensure_tls_init_def lz_resurrect_zombie_def zombie_lock_def zombie_unlock_def upd_tlh_def get_tlh_def
          next_thread_id_def lz_tlh_init_def sys_mmap_def zero_pages_def valid_def lz_telemetry_get_slot_def
          split: if_splits option.splits bind_splits)
  next
    case False
    then show ?thesis
      using assms by (auto simp: ensure_tls_init_def lz_resurrect_zombie_def zombie_lock_def zombie_unlock_def upd_tlh_def get_tlh_def
          next_thread_id_def valid_def lz_telemetry_get_slot_def Let_def
          split: if_splits option.splits bind_splits)
  qed
  then show "tl_thread_id (tlhs st' (tls_tlh_ptr st' t)) = g_thread_counter st"
    "tl_stat_slot (tlhs st' (tls_tlh_ptr st' t)) = lz_telemetry_get_slot (1 + g_thread_counter st mod 4095) st"
    "g_thread_counter st' = g_thread_counter st + 1" "g_telemetry_matrix st' = g_telemetry_matrix st"
    "valid st a \<Longrightarrow> valid st' a" by auto
qed

text \<open>
  C25. The telemetry slot of a thread. When \<open>ensure_tls_init\<close> gives a thread its heap, new or taken
  from the dead ones, the heap gets the next thread number and, with telemetry on, the slot number 1
  plus that number modulo 4095: never slot 0, which is the memory manager's, always inside the mapped
  matrix, and shared by two threads only when their numbers agree modulo 4095. Without a matrix the
  heap has no slot, and no slot exists from number 4096 on.
\<close>

theorem thread_slot_assigned:
  assumes "telemetry_inv st" and "tls_tlh_ptr st t = 0" and "ensure_tls_init env t st = Some st'"
  shows "let h = tlhs st' (tls_tlh_ptr st' t); m = g_telemetry_matrix st in
    tl_thread_id h = g_thread_counter st \<and> g_thread_counter st' = g_thread_counter st + 1 \<and> g_telemetry_matrix st' = m \<and>
    (m = 0 \<longrightarrow> tl_stat_slot h = 0) \<and>
    (m \<noteq> 0 \<longrightarrow> unat (tl_stat_slot h) = unat m + 64 * (1 + unat (g_thread_counter st) mod 4095) \<and>
       (\<forall>a. within (tl_stat_slot h) sizeof_lz_stat_slot a \<longrightarrow> within m 262144 a \<and> valid st' a)) \<and>
    (\<forall>i. 4096 \<le> unat i \<longrightarrow> lz_telemetry_get_slot i st' = 0)"
proof -
  note e = ensure_tls_slot [OF assms(2,3)]
  let ?m = "g_telemetry_matrix st" and ?i = "1 + g_thread_counter st mod 4095"
  have i: "unat ?i = 1 + unat (g_thread_counter st) mod 4095" by (simp add: unat_word_ariths unat_mod)
  then have lt: "unat ?i < 4096" using mod_less_divisor [of 4095 "unat (g_thread_counter st)"] by linarith
  have slot: "unat (lz_telemetry_get_slot ?i st) = unat ?m + 64 * (1 + unat (g_thread_counter st) mod 4095)" "lz_telemetry_get_slot ?i st \<noteq> 0"
    if "?m \<noteq> 0" using slot_address [OF assms(1) that lt] i by simp_all
  have inside: "within ?m 262144 a" if "?m \<noteq> 0" "within (lz_telemetry_get_slot ?i st) 64 a" for a
  proof -
    have b: "unat ?m + 262144 \<le> 2 ^ 47" using assms(1) that(1) by (simp add: telemetry_inv_def)
    show ?thesis using that slot_address(1) [OF assms(1) that(1) lt] lt b by (simp add: within_iff)
  qed
  have none: "lz_telemetry_get_slot i st' = 0" if "4096 \<le> unat i" for i
    using that by (simp add: lz_telemetry_get_slot_def word_le_nat_alt)
  have off: "lz_telemetry_get_slot ?i st = 0" if "?m = 0" using that by (simp add: lz_telemetry_get_slot_def)
  have "valid st' a" if "?m \<noteq> 0" "within (lz_telemetry_get_slot ?i st) 64 a" for a
    by (rule e(5) [OF telemetry_slot_valid [OF assms(1) slot(2) [OF that(1)] that(2)]])
  then show ?thesis unfolding Let_def using e(1-4) slot(1) inside none off by auto
qed

theorem thread_slot_assigned_witness:
  "let st = lz_telemetry_init bump_os telemetry_on boot_state in
   \<exists>st'. ensure_tls_init bump_os 0 st = Some st' \<and> g_telemetry_matrix st \<noteq> 0 \<and>
     unat (tl_stat_slot (tlhs st' (tls_tlh_ptr st' 0))) = unat (g_telemetry_matrix st) + 64"
proof -
  define st where "st = lz_telemetry_init bump_os telemetry_on boot_state"
  have inv: "telemetry_inv st" unfolding st_def
    by (rule telemetry_init_inv(1) [OF bump_os_ok]) (simp add: telemetry_inv_def boot_state_def)
  have env: "lz_internal_has_env telemetry_on ''LZMALLOC_TELEMETRY''"
    by (simp add: lz_internal_has_env_def telemetry_on_def char_at_def numeral_eq_Suc)
  have m: "g_telemetry_matrix st \<noteq> 0" "g_thread_counter st = 0" "tls_tlh_ptr st 0 = 0" "g_zombie_tlhs st = 0" "\<not> g_zombie_lock st"
    and os: "os_mmap bump_os (trace st) sizeof_lz_tlh \<noteq> None"
    using env by (simp_all add: st_def lz_telemetry_init_def sys_mmap_def bump_os_def boot_state_def telemetry_on_def zero_pages_def map_shm_def)
  obtain p where p: "os_mmap bump_os (trace st) sizeof_lz_tlh = Some p" using os by blast
  obtain st' where run: "ensure_tls_init bump_os 0 st = Some st'"
    using m p by (auto simp: ensure_tls_init_def lz_resurrect_zombie_def zombie_lock_def zombie_unlock_def upd_tlh_def get_tlh_def
        next_thread_id_def lz_tlh_init_def sys_mmap_def zero_pages_def valid_def within_def Let_def)
  show ?thesis
    using thread_slot_assigned [OF inv m(3) run] run m(1,2) unfolding st_def [symmetric] Let_def by simp
qed

end
