(* ===== verification/Direct.thy ===== *)
theory Direct
  imports Lzmalloc Vmm_Spec
begin

text \<open>
  Direct mappings: \<open>lz_sys_alloc_huge_aligned\<close> of \<open>src/src/hooks/lzmalloc.c\<close> and the branches of
  \<open>lz_malloc\<close>, \<open>lz_memalign\<close> and \<open>lz_free\<close> that use it.
\<close>

section \<open>Aligned windows\<close>

text \<open>Cutting an aligned window of \<open>n\<close> bytes out of a mapping that is 2 MB longer.\<close>

lemma align_up_window:
  fixes r n :: u64
  assumes b: "unat r + unat n + 2097152 \<le> 2 ^ 47" and r: "r AND mask 21 \<noteq> 0"
  defines "a \<equiv> LZ_ALIGN_UP r LZ_HUGE_PAGE_SIZE"
  defines "suf \<equiv> n + LZ_HUGE_PAGE_SIZE - (a - r) - n"
  shows "a AND mask 21 = 0" "unat r < unat a" "unat a < unat r + 2097152" "0 < a - r" "0 < suf"
    and "within r (a - r) x \<longleftrightarrow> unat r \<le> unat x \<and> unat x < unat a"
    and "within (a + n) suf x \<longleftrightarrow> unat a + unat n \<le> unat x \<and> unat x < unat r + unat n + 2097152"
proof -
  define k where "k = unat r"
  define m where "m = (k + 2 ^ 21 - 1) div 2 ^ 21 * 2 ^ 21"
  have ua: "unat a = m" using align_up_huge [of r] b by (simp add: a_def m_def k_def)
  have nz: "k mod 2 ^ 21 \<noteq> 0" using r unfolding and_mask_0_iff k_def .
  have m3: "m mod 2 ^ 21 = 0" unfolding m_def by (rule mod_mult_self2_is_0)
  have m2: "k \<le> m" "m < k + 2 ^ 21" unfolding m_def by (rule round_up_ge, simp, rule round_up_less, simp)
  have "k \<noteq> m" using m3 nz by metis
  with m2 have m: "k < m" "m < k + 2 ^ 21" by linarith+
  show "a AND mask 21 = 0" unfolding and_mask_0_iff ua by (rule m3)
  show "unat r < unat a" "unat a < unat r + 2097152" using m by (simp_all add: ua k_def)
  have le: "r \<le> a" using m(1) by (simp add: word_le_nat_alt ua k_def)
  have pre: "unat (a - r) = m - k" using le by (simp add: unat_sub ua k_def)
  have "suf = LZ_HUGE_PAGE_SIZE - (a - r)" by (simp add: suf_def)
  moreover have "a - r \<le> LZ_HUGE_PAGE_SIZE" using m by (simp add: word_le_nat_alt pre)
  ultimately have suf: "unat suf = 2097152 - (m - k)" by (simp only: unat_sub pre) simp
  show "0 < a - r" "0 < suf" using m by (simp_all add: word_less_nat_alt pre suf)
  show "within r (a - r) x \<longleftrightarrow> unat r \<le> unat x \<and> unat x < unat a"
    using b m by (subst within_iff) (simp_all only: pre ua, auto simp: k_def)
  have e: "unat (a + n) = m + unat n" using b m by (simp add: unat_word_ariths ua k_def)
  show "within (a + n) suf x \<longleftrightarrow> unat a + unat n \<le> unat x \<and> unat x < unat r + unat n + 2097152"
    using b m by (subst within_iff) (simp_all only: e suf ua, auto simp: k_def)
qed

lemma window_after_trim:
  fixes r x n d a :: nat
  assumes "V \<Longrightarrow> \<not> (r \<le> x \<and> x < r + n + d)" and "r \<le> a" "a \<le> r + d"
  shows "\<not> (a + n \<le> x \<and> x < r + n + d) \<and> \<not> (r \<le> x \<and> x < a) \<and> (r \<le> x \<and> x < r + n + d \<or> V) \<longleftrightarrow>
    a \<le> x \<and> x < a + n \<or> V"
  using assms by (cases V) auto

lemma huge_aligned_spec:
  assumes ok: "mmap_ok env" and n: "unat n + 2097152 < 2 ^ 64"
    and run: "lz_sys_alloc_huge_aligned env n st = (p, st')"
  shows "same_globals st st'" "keeps {} st st'"
    and "p = 0 \<longleftrightarrow> os_mmap env (trace st) (n + LZ_HUGE_PAGE_SIZE) = None"
    and "p \<noteq> 0 \<Longrightarrow> p AND mask LZ_CHUNK_SHIFT = 0 \<and> unat p + unat n \<le> 2 ^ 47"
    and "p \<noteq> 0 \<Longrightarrow> valid st' x \<longleftrightarrow> within p n x \<or> valid st x"
    and "p \<noteq> 0 \<Longrightarrow> within p n x \<Longrightarrow> \<not> valid st x \<and> mem st' x = 0"
proof -
  let ?req = "n + LZ_HUGE_PAGE_SIZE"
  have req: "unat ?req = unat n + 2097152" using n by (simp add: unat_word_ariths)
  obtain m st1 where map: "sys_mmap env ?req st = (m, st1)" by fastforce
  have g1: "same_globals st st1" by (rule sys_mmap_globals [OF map])
  have k1: "keeps {} st st1" by (rule sys_mmap_keeps [OF ok map])
  have "same_globals st st' \<and> keeps {} st st' \<and> (p = 0 \<longleftrightarrow> os_mmap env (trace st) ?req = None) \<and>
    (p \<noteq> 0 \<longrightarrow> p AND mask 21 = 0 \<and> unat p + unat n \<le> 2 ^ 47) \<and>
    (p \<noteq> 0 \<longrightarrow> (\<forall>x. (valid st' x \<longleftrightarrow> within p n x \<or> valid st x) \<and> (within p n x \<longrightarrow> \<not> valid st x \<and> mem st' x = 0)))"
  proof (cases m)
    case None
    then have "p = 0" "st' = st1" "os_mmap env (trace st) ?req = None"
      using run map by (auto simp: lz_sys_alloc_huge_aligned_def sys_mmap_def split: option.splits)
    then show ?thesis using g1 k1 by simp
  next
    case (Some r)
    note new = sys_mmap_Some [OF ok map [unfolded Some]]
    have some: "os_mmap env (trace st) ?req \<noteq> None" using map Some by (auto simp: sys_mmap_def split: option.splits)
    have b: "unat r + unat n + 2097152 \<le> 2 ^ 47" using new(3) by (simp add: req)
    have valid1: "valid st1 x \<longleftrightarrow> (unat r \<le> unat x \<and> unat x < unat r + unat n + 2097152) \<or> valid st x" for x
    proof -
      have "valid st1 x \<longleftrightarrow> within r ?req x \<or> valid st x" by (simp add: valid_def new(7))
      moreover have "within r ?req x \<longleftrightarrow> unat r \<le> unat x \<and> unat x < unat r + unat n + 2097152"
        using b by (subst within_iff) (auto simp: req)
      ultimately show ?thesis by simp
    qed
    have old: "\<not> (unat r \<le> unat x \<and> unat x < unat r + unat n + 2097152)" if "valid st x" for x
    proof -
      have "\<not> within r ?req x" using new(5) [of x] that by blast
      then show ?thesis using b by (subst (asm) within_iff) (auto simp: req)
    qed
    have r0: "0 < unat r" using new(1) by (simp add: unat_gt_0)
    have zero: "mem st1 x = 0" if "unat r \<le> unat x" "unat x < unat r + unat n + 2097152" for x
    proof -
      have "within r ?req x" using that b by (subst within_iff) (auto simp: req)
      then show ?thesis using new(6) by blast
    qed
    have "\<exists>t. st' = st1\<lparr>trace := t\<rparr> \<and> p AND mask 21 = 0 \<and> unat r \<le> unat p \<and> unat p \<le> unat r + 2097152 \<and>
      (\<forall>x. mapped t x \<longleftrightarrow> (unat p \<le> unat x \<and> unat x < unat p + unat n) \<or> valid st x)"
    proof (cases "r AND mask 21 = 0")
      case True
      let ?t = "Madvise r n MADV_HUGEPAGE # Munmap (r + n) LZ_HUGE_PAGE_SIZE # trace st1"
      have p: "p = r" "st' = st1\<lparr>trace := ?t\<rparr>"
        using run map Some True unfolding lz_sys_alloc_huge_aligned_def huge_mask
        by (auto simp: Let_def sys_munmap_def sys_madvise_def)
      have "unat (r + n) = unat r + unat n" using b by (simp add: unat_word_ariths)
      then have "within (r + n) LZ_HUGE_PAGE_SIZE x \<longleftrightarrow> unat r + unat n \<le> unat x \<and> unat x < unat r + unat n + 2097152" for x
        using b by (subst within_iff) auto
      moreover have "mapped ?t x \<longleftrightarrow> \<not> within (r + n) LZ_HUGE_PAGE_SIZE x \<and> valid st1 x" for x
        by (simp add: valid_def)
      ultimately have "mapped ?t x \<longleftrightarrow> (unat p \<le> unat x \<and> unat x < unat p + unat n) \<or> valid st x" for x
        using window_after_trim [where a = "unat r", OF old [of x]] unfolding p(1) by (simp add: valid1)
      then show ?thesis using p True by (intro exI [of _ ?t] conjI allI) (simp_all only: order_refl le_add1)
    next
      case False
      define a where "a = LZ_ALIGN_UP r LZ_HUGE_PAGE_SIZE"
      define suf where "suf = n + LZ_HUGE_PAGE_SIZE - (a - r) - n"
      note w = align_up_window [OF b False, folded a_def, folded suf_def]
      let ?t = "Madvise a n MADV_HUGEPAGE # Munmap (a + n) suf # Munmap r (a - r) # trace st1"
      have p: "p = a" "st' = st1\<lparr>trace := ?t\<rparr>"
        using run unfolding lz_sys_alloc_huge_aligned_def huge_mask Let_def map Some prod.case option.case
          a_def [symmetric] suf_def [symmetric] by (auto simp: False w(4,5) sys_munmap_def sys_madvise_def)
      have "mapped ?t x \<longleftrightarrow> \<not> within (a + n) suf x \<and> \<not> within r (a - r) x \<and> valid st1 x" for x
        by (simp add: valid_def)
      then have "mapped ?t x \<longleftrightarrow> (unat p \<le> unat x \<and> unat x < unat p + unat n) \<or> valid st x" for x
        using window_after_trim [where a = "unat a", OF old [of x]] w(2,3) unfolding p(1) w(6,7) by (simp add: valid1)
      then show ?thesis using p w(1-3) by (intro exI [of _ ?t] conjI allI) (simp_all only: less_imp_le)
    qed
    then obtain t where t: "st' = st1\<lparr>trace := t\<rparr>" "p AND mask 21 = 0" "unat r \<le> unat p" "unat p \<le> unat r + 2097152"
      "\<And>x. mapped t x \<longleftrightarrow> (unat p \<le> unat x \<and> unat x < unat p + unat n) \<or> valid st x" by blast
    have p0: "p \<noteq> 0"
    proof
      assume "p = 0"
      then show False using r0 t(3) by simp
    qed
    have wp: "within p n x \<longleftrightarrow> unat p \<le> unat x \<and> unat x < unat p + unat n" for x
      using b t(4) by (subst within_iff) auto
    have v: "valid st' x \<longleftrightarrow> within p n x \<or> valid st x" for x unfolding wp t(5) [symmetric] by (simp add: t(1) valid_def)
    have same: "same_at a st1 st'" for a by (simp add: t(1) same_at_def)
    have "keeps {} st st'" using k1 v same unfolding keeps_def by (simp add: same_at_def)
    moreover have "same_globals st st'" using g1 by (simp add: t(1) same_globals_def)
    moreover have "\<not> valid st x \<and> mem st' x = 0" if "within p n x" for x
      using that old [of x] zero [of x] t(3,4) by (auto simp: wp t(1))
    moreover have "unat p + unat n \<le> 2 ^ 47" using t(4) b by linarith
    ultimately show ?thesis using p0 some t(2) v by blast
  qed
  then show "same_globals st st'" "keeps {} st st'"
    "p = 0 \<longleftrightarrow> os_mmap env (trace st) ?req = None"
    "p \<noteq> 0 \<Longrightarrow> p AND mask LZ_CHUNK_SHIFT = 0 \<and> unat p + unat n \<le> 2 ^ 47"
    "p \<noteq> 0 \<Longrightarrow> valid st' x \<longleftrightarrow> within p n x \<or> valid st x"
    "p \<noteq> 0 \<Longrightarrow> within p n x \<Longrightarrow> \<not> valid st x \<and> mem st' x = 0" by auto
qed

section \<open>The size of a direct mapping\<close>

lemma align_up_huge_wrap: "unat (LZ_ALIGN_UP s LZ_HUGE_PAGE_SIZE) = (unat s + (2 ^ 21 - 1)) mod 2 ^ 64 div 2 ^ 21 * 2 ^ 21"
proof -
  have "unat (s + mask 21) = (unat s + (2 ^ 21 - 1)) mod 2 ^ 64"
    by (subst unat_word_ariths(1)) (simp add: mask_eq_exp_minus_1)
  then show ?thesis by (simp only: LZ_ALIGN_UP_def huge_mask unat_and_not_mask)
qed

lemma direct_total_bytes:
  "let total_bytes = LZ_ALIGN_UP (128 + sz) LZ_HUGE_PAGE_SIZE in
    (128 + unat sz \<le> unat total_bytes \<longleftrightarrow> unat sz + 128 + (2 ^ 21 - 1) < 2 ^ 64) \<and>
    2 ^ 21 dvd unat total_bytes \<and>
    (unat sz + 128 + (2 ^ 21 - 1) < 2 ^ 64 \<longrightarrow> unat total_bytes < 128 + unat sz + 2 ^ 21)"
proof (cases "unat sz + 128 + (2 ^ 21 - 1) < 2 ^ 64")
  case True
  define total_bytes where "total_bytes = LZ_ALIGN_UP (128 + sz) LZ_HUGE_PAGE_SIZE"
  have "unat total_bytes = (128 + unat sz + 2 ^ 21 - 1) div 2 ^ 21 * 2 ^ 21"
    using True unfolding total_bytes_def by (simp only: align_up_huge_wrap) (simp add: unat_word_ariths)
  then show ?thesis
    unfolding Let_def total_bytes_def [symmetric]
    using True round_up_ge [of "2 ^ 21" "128 + unat sz"] round_up_less [of "2 ^ 21" "128 + unat sz"] by simp
next
  case False
  define total_bytes where "total_bytes = LZ_ALIGN_UP (128 + sz) LZ_HUGE_PAGE_SIZE"
  have lt: "unat sz < 2 ^ 64" using unsigned_less [of sz] by simp
  have "unat total_bytes < 2 ^ 22"
  proof (cases "unat sz + 128 < 2 ^ 64")
    case True
    then have "unat total_bytes = (unat sz + 128 + (2 ^ 21 - 1) - 2 ^ 64) div 2 ^ 21 * 2 ^ 21"
      using False unfolding total_bytes_def by (simp only: align_up_huge_wrap) (simp add: unat_word_ariths mod_if)
    then show ?thesis using True False by (simp add: div_eq_0_iff)
  next
    case wrap: False
    then have u: "unat (128 + sz) = unat sz + 128 - 2 ^ 64" using lt by (simp add: unat_word_ariths mod_if)
    then have "unat (128 + sz) < 128" using wrap lt by linarith
    then show ?thesis unfolding total_bytes_def by (simp only: align_up_huge_wrap) simp
  qed
  moreover have "2 ^ 21 dvd unat total_bytes" unfolding total_bytes_def align_up_huge_wrap by simp
  ultimately show ?thesis unfolding Let_def total_bytes_def [symmetric] using False lt by simp
qed

text \<open>Recording the blocks of a mapping in the tree touches no chunk that is mapped.\<close>

lemma for_blocks_mapped:
  assumes ok: "mmap_ok env" and run: "for_blocks (\<lambda>ofs. lz_rtree_set env (p + ofs) m) n off st = Some st'" and x: "valid st x"
  shows "valid st' x \<and> metas st' x = metas st x \<and> hdrs st' x = hdrs st x"
proof -
  have "body = (\<lambda>ofs. lz_rtree_set env (p + ofs) m) \<longrightarrow> valid s x \<longrightarrow> valid s' x \<and> metas s' x = metas s x \<and> hdrs s' x = hdrs s x"
    if "for_blocks body k i s = Some s'" for body k i s s'
  proof (rule for_blocks.raw_induct [where P = "\<lambda>body k i s s'. body = (\<lambda>ofs. lz_rtree_set env (p + ofs) m) \<longrightarrow> valid s x \<longrightarrow>
      valid s' x \<and> metas s' x = metas s x \<and> hdrs s' x = hdrs s x", OF _ that], intro impI)
    fix blocks :: "(u64 \<Rightarrow> lz_state \<Rightarrow> lz_state option) \<Rightarrow> u64 \<Rightarrow> u64 \<Rightarrow> lz_state \<Rightarrow> lz_state option" and body k i s s'
    assume ih: "\<And>body k i s s'. blocks body k i s = Some s' \<Longrightarrow> body = (\<lambda>ofs. lz_rtree_set env (p + ofs) m) \<longrightarrow> valid s x \<longrightarrow>
        valid s' x \<and> metas s' x = metas s x \<and> hdrs s' x = hdrs s x"
      and run: "(if i < k then Option.bind (body i s) (\<lambda>s. blocks body k (i + LZ_HUGE_PAGE_SIZE) s) else Some s) = Some s'"
      and body: "body = (\<lambda>ofs. lz_rtree_set env (p + ofs) m)" and v: "valid s x"
    show "valid s' x \<and> metas s' x = metas s x \<and> hdrs s' x = hdrs s x"
    proof (cases "i < k")
      case True
      then obtain s1 where s1: "lz_rtree_set env (p + i) m s = Some s1" "blocks body k (i + LZ_HUGE_PAGE_SIZE) s1 = Some s'"
        using run by (auto simp: body split: bind_splits)
      show ?thesis using ih [OF s1(2)] body rtree_set_views [OF ok s1(1) v] by simp
    next
      case False
      then show ?thesis using run v by simp
    qed
  qed
  then show ?thesis using run x by blast
qed

lemma format_direct_effect:
  assumes ok: "mmap_ok env" and run: "format_direct env p n sz st = Some st'"
  shows "metas st' (p + 64) = MDirect n sz" "ch_chunk_type (hdrs st' p) = LZ_CHUNK_TYPE_DIRECT" "valid st x \<Longrightarrow> valid st' x"
proof -
  obtain st1 where st1: "for_blocks (\<lambda>ofs. lz_rtree_set env (p + ofs) p) n 0 st1 = Some st'" "valid st1 p" "valid st1 (p + 64)"
    "trace st1 = trace st" "metas st1 (p + 64) = MDirect n sz" "ch_chunk_type (hdrs st1 p) = LZ_CHUNK_TYPE_DIRECT"
    using run by (auto simp: format_direct_def upd_hdr_def set_meta_def valid_def
        split: bind_splits if_splits)
  note m = for_blocks_mapped [OF ok st1(1)]
  show "metas st' (p + 64) = MDirect n sz" "ch_chunk_type (hdrs st' p) = LZ_CHUNK_TYPE_DIRECT" using m st1 by simp_all
  show "valid st' x" if "valid st x" using m [of x] that st1(4) by (simp add: valid_def)
qed

text \<open>
  C15. What \<open>lz_malloc\<close> maps for a request of more than 1 MB. A pointer it returns lies 128 bytes into
  a 2 MB aligned mapping of fresh memory whose recorded length is a multiple of 2 MB; the mapping
  holds the 128 bytes of metadata and the request exactly when rounding up does not pass 2^64, and is
  then less than 2 MB longer than needed. Beyond that bound the arithmetic wraps around and the
  mapping behind the pointer is too small for the request.
\<close>

theorem malloc_direct_size:
  assumes ok: "mmap_ok env" and sz: "1048576 < unat sz" and run: "lz_malloc env t sz st = Some (p, st')" and p: "p \<noteq> 0"
  shows "\<exists>total_bytes. metas st' (p - 64) = MDirect total_bytes sz \<and>
    ch_chunk_type (hdrs st' (p - 128)) = LZ_CHUNK_TYPE_DIRECT \<and> unat p mod 2 ^ 21 = 128 \<and>
    (\<forall>a. within (p - 128) total_bytes a \<longrightarrow> valid st' a \<and> \<not> valid st a) \<and>
    2 ^ 21 dvd unat total_bytes \<and>
    (128 + unat sz \<le> unat total_bytes \<longleftrightarrow> unat sz + 128 + (2 ^ 21 - 1) < 2 ^ 64) \<and>
    (unat sz + 128 + (2 ^ 21 - 1) < 2 ^ 64 \<longrightarrow> unat total_bytes < 128 + unat sz + 2 ^ 21)"
proof -
  let ?n = "LZ_ALIGN_UP (128 + sz) LZ_HUGE_PAGE_SIZE"
  note total = direct_total_bytes [of sz, unfolded Let_def]
  obtain d st1 where d: "lz_sys_alloc_huge_aligned env ?n st = (d, st1)" by fastforce
  have big: "sz \<noteq> 0" "\<not> sz \<le> LZ_MAX_SLAB_OBJ_SIZE" "\<not> sz \<le> 1048576" using sz by (auto simp: word_le_nat_alt)
  then have d0: "d \<noteq> 0" and f: "format_direct env d ?n sz st1 = Some st'" and pd: "p = d + 128"
    using run p d by (auto simp: lz_malloc_def Let_def split: if_splits bind_splits)
  have lt: "unat ?n + 2097152 < 2 ^ 64"
  proof (rule ccontr)
    assume "\<not> unat ?n + 2097152 < 2 ^ 64"
    moreover have "unat ?n < 2 ^ 64" using unsigned_less [of ?n] by simp
    ultimately have "unat ?n = 2 ^ 64 - 2097152" using total by (auto elim!: dvdE)
    then have "?n + LZ_HUGE_PAGE_SIZE = 0" by (simp add: word_unat_eq_iff unat_word_ariths)
    then have "os_mmap env (trace st) (?n + LZ_HUGE_PAGE_SIZE) = None"
      using mmap_okD(1) [OF ok, of "trace st" "?n + LZ_HUGE_PAGE_SIZE"] by (cases "os_mmap env (trace st) (?n + LZ_HUGE_PAGE_SIZE)") auto
    then show False using d d0 by (simp add: lz_sys_alloc_huge_aligned_def Let_def sys_mmap_def)
  qed
  note h = huge_aligned_spec [OF ok lt d]
  have "unat p mod 2 ^ 21 = 128"
    using h(4) [OF d0] unfolding pd and_mask_0_iff by (simp add: unat_word_ariths mod_simps) (simp add: mod_add_eq [symmetric, of _ 128])
  moreover have "valid st' a \<and> \<not> valid st a" if "within d ?n a" for a
    using h(5,6) [OF d0] that format_direct_effect(3) [OF ok f] by blast
  moreover have e: "p - 64 = d + 64" "p - 128 = d" by (simp_all add: pd)
  ultimately show ?thesis
    unfolding e using format_direct_effect(1,2) [OF ok f] total by blast
qed

text \<open>A process in which the allocator has been initialised and nothing allocated.\<close>

definition fresh_heap :: lz_state where
  "fresh_heap = lz_rtree_init (lz_vmm_init (boot_state\<lparr>g_lz_global_secret := 0x123456789ABCDEF\<rparr>))"

lemma format_direct_one:
  assumes ok: "mmap_ok env" and inv: "rtree_inv st" and v: "valid st p" "valid st (p + 64)"
  shows "\<exists>st'. format_direct env p 2097152 sz st = Some st'"
proof -
  have same: "rtree_inv (st\<lparr>hdrs := H, metas := m\<rparr>)" for H m using inv by (simp add: rtree_inv_def valid_def)
  have "\<exists>st'. for_blocks (\<lambda>ofs. lz_rtree_set env (p + ofs) p) 2097152 0 (st\<lparr>hdrs := H, metas := m\<rparr>) = Some st'" for H m
  proof -
    let ?body = "\<lambda>ofs. lz_rtree_set env (p + ofs) p" and ?s = "st\<lparr>hdrs := H, metas := m\<rparr>"
    obtain s' where s': "lz_rtree_set env p p ?s = Some s'" using rtree_set_spec [OF ok same] by blast
    have "for_blocks ?body 2097152 0 ?s = Option.bind (lz_rtree_set env p p ?s) (for_blocks ?body 2097152 2097152)"
      using for_blocks_step [of 0 1 ?body ?s] by simp
    then show ?thesis by (simp add: s' for_blocks_done)
  qed
  then show ?thesis using v by (simp add: format_direct_def upd_hdr_def set_meta_def valid_def)
qed

theorem malloc_direct_size_witness:
  "\<exists>p st'. lz_malloc bump_os 0 0xFFFFFFFFFFFFFF9C fresh_heap = Some (p, st') \<and> p \<noteq> 0 \<and>
    (\<exists>total_bytes. metas st' (p - 64) = MDirect total_bytes 0xFFFFFFFFFFFFFF9C \<and> \<not> 128 + unat (0xFFFFFFFFFFFFFF9C :: u64) \<le> unat total_bytes)"
proof -
  obtain d st1 where d: "lz_sys_alloc_huge_aligned bump_os 2097152 fresh_heap = (d, st1)" by fastforce
  have tr: "trace fresh_heap = trace boot_state"
    by (simp add: fresh_heap_def lz_rtree_init_def lz_vmm_init_def lz_topology_init_def Let_def)
  note h = huge_aligned_spec [OF bump_os_ok _ d, simplified]
  have d0: "d \<noteq> 0" using h(3) by (simp add: tr bump_os_def boot_state_def)
  have b: "unat d mod 2 ^ 21 = 0" "unat d + 2097152 \<le> 2 ^ 47" using h(4) [OF d0] unfolding and_mask_0_iff by simp_all
  have v: "valid st1 d" "valid st1 (d + 64)" using h(5) [OF d0] by (simp_all add: within_def)
  have "rtree_inv st1"
    by (rule rtree_inv_keeps [OF _ h(2)]) (use h(1) in \<open>simp_all add: fresh_heap_def rtree_inv_init same_globals_def\<close>)
  then obtain st' where f: "format_direct bump_os d 2097152 0xFFFFFFFFFFFFFF9C st1 = Some st'"
    using format_direct_one [OF bump_os_ok _ v] by blast
  have total: "LZ_ALIGN_UP (128 + 0xFFFFFFFFFFFFFF9C) LZ_HUGE_PAGE_SIZE = 2097152" by (simp add: LZ_ALIGN_UP_def)
  have run: "lz_malloc bump_os 0 0xFFFFFFFFFFFFFF9C fresh_heap = Some (d + 128, st')"
    using d f d0 total by (simp add: lz_malloc_def Let_def)
  have p: "d + 128 \<noteq> 0" using b by (auto simp: word_unat_eq_iff unat_word_ariths)
  have big: "1048576 < unat (0xFFFFFFFFFFFFFF9C :: u64)" "\<not> unat (0xFFFFFFFFFFFFFF9C :: u64) + 128 + (2 ^ 21 - 1) < 2 ^ 64"
    by simp_all
  obtain n where n: "metas st' (d + 128 - 64) = MDirect n 0xFFFFFFFFFFFFFF9C" "\<not> 128 + unat (0xFFFFFFFFFFFFFF9C :: u64) \<le> unat n"
    using malloc_direct_size [OF bump_os_ok big(1) run p] big(2) by metis
  then show ?thesis using run p by blast
qed

end
