(* ===== verification/Api_Inv.thy ===== *)
theory Api_Inv
  imports Heap_Threads Direct
begin

text \<open>
  The allocator as a whole: heaps, direct mappings and threads. An object is what \<open>lz_malloc\<close> and its
  relatives have returned and nobody has freed yet.
\<close>

section \<open>Description and invariant\<close>

record alloc_desc =
  dG :: heap_desc
  dM :: "addr \<Rightarrow> addr list"
  dB :: "addr \<Rightarrow> addr list"
  dD :: "addr \<rightharpoonup> nat \<times> nat \<times> nat"   \<comment> \<open>a direct mapping: its length, the size of the object, the offset of the object\<close>
  dZ :: "addr list"                           \<comment> \<open>the list of zombies\<close>
  dX :: "nat set"                             \<comment> \<open>the threads that have exited\<close>

definition direct_at :: "lz_state \<Rightarrow> heap_desc \<Rightarrow> addr \<Rightarrow> nat \<times> nat \<times> nat \<Rightarrow> bool" where
  "direct_at st G d = (\<lambda>(t, n, off). chunk_base d \<and> 2097152 dvd t \<and> unat d + t \<le> 2 ^ 47 \<and> 0 < n \<and> 128 \<le> off \<and> off + n \<le> t \<and>
     ch_magic (hdrs st d) = LZ_CHUNK_MAGIC_V2 \<and> ch_chunk_type (hdrs st d) = LZ_CHUNK_TYPE_DIRECT \<and>
     metas st (d + 64) = MDirect (of_nat t) (of_nat n) \<and>
     (\<forall>a. unat d \<le> unat a \<longrightarrow> unat a < unat d + t \<longrightarrow> gown G (chunk_of a) = Some (Direct_of d)) \<and> 128 dvd off)"

definition direct_ok :: "lz_state \<Rightarrow> alloc_desc \<Rightarrow> bool" where
  "direct_ok st A \<longleftrightarrow> (\<forall>d r. dD A d = Some r \<longrightarrow> direct_at st (dG A) d r) \<and>
     (\<forall>c d. gown (dG A) c = Some (Direct_of d) \<longrightarrow>
        (\<exists>t n off. dD A d = Some (t, n, off) \<and> unat d \<le> unat c \<and> unat c < unat d + t))"

text \<open>A running thread has a heap of its own, and no zombie is in use.\<close>

definition threads_ok :: "lz_state \<Rightarrow> alloc_desc \<Rightarrow> bool" where
  "threads_ok st A \<longleftrightarrow> \<not> g_zombie_lock st \<and>
     chain (\<lambda>T. tl_next_zombie (tlhs st T)) (g_zombie_tlhs st) (dZ A) \<and> set (dZ A) \<subseteq> gheaps (dG A) \<and>
     (\<forall>t. t \<notin> dX A \<longrightarrow> g_tlh_key st t = tls_tlh_ptr st t \<and>
        (tls_tlh_ptr st t \<noteq> 0 \<longrightarrow> tls_tlh_ptr st t \<in> gheaps (dG A) - set (dZ A))) \<and>
     (\<forall>t u. t \<notin> dX A \<longrightarrow> u \<notin> dX A \<longrightarrow> tls_tlh_ptr st t \<noteq> 0 \<longrightarrow> tls_tlh_ptr st t = tls_tlh_ptr st u \<longrightarrow> t = u)"

definition api_inv :: "lz_state \<Rightarrow> alloc_desc \<Rightarrow> bool" where
  "api_inv st A \<longleftrightarrow> heap_inv st (dG A) (dM A) (dB A) \<and> telemetry_inv st \<and> direct_ok st A \<and> threads_ok st A"

lemma api_invD:
  assumes "api_inv st A"
  shows "heap_inv st (dG A) (dM A) (dB A)" "telemetry_inv st" "direct_ok st A" "threads_ok st A" "heap_struct st (dG A)"
  using assms heap_invD(1) by (auto simp: api_inv_def)

lemma direct_okD:
  assumes "direct_ok st A"
  shows "dD A d = Some r \<Longrightarrow> direct_at st (dG A) d r"
    "gown (dG A) c = Some (Direct_of d) \<Longrightarrow> \<exists>t n off. dD A d = Some (t, n, off) \<and> unat d \<le> unat c \<and> unat c < unat d + t"
  using assms unfolding direct_ok_def by blast+

lemma direct_atD:
  assumes "direct_at st G d (t, n, off)"
  shows "chunk_base d" "2097152 dvd t" "unat d + t \<le> 2 ^ 47" "0 < n" "128 \<le> off" "off + n \<le> t"
    "ch_magic (hdrs st d) = LZ_CHUNK_MAGIC_V2" "ch_chunk_type (hdrs st d) = LZ_CHUNK_TYPE_DIRECT"
    "metas st (d + 64) = MDirect (of_nat t) (of_nat n)"
    "unat d \<le> unat a \<Longrightarrow> unat a < unat d + t \<Longrightarrow> gown G (chunk_of a) = Some (Direct_of d)" "128 dvd off"
  using assms by (simp_all add: direct_at_def)

lemma threads_okD:
  assumes "threads_ok st A"
  shows "\<not> g_zombie_lock st" "chain (\<lambda>T. tl_next_zombie (tlhs st T)) (g_zombie_tlhs st) (dZ A)"
    "set (dZ A) \<subseteq> gheaps (dG A)" "t \<notin> dX A \<Longrightarrow> g_tlh_key st t = tls_tlh_ptr st t"
    "t \<notin> dX A \<Longrightarrow> tls_tlh_ptr st t \<noteq> 0 \<Longrightarrow> tls_tlh_ptr st t \<in> gheaps (dG A) - set (dZ A)"
    "t \<notin> dX A \<Longrightarrow> u \<notin> dX A \<Longrightarrow> tls_tlh_ptr st t \<noteq> 0 \<Longrightarrow> tls_tlh_ptr st t = tls_tlh_ptr st u \<Longrightarrow> t = u"
  using assms unfolding threads_ok_def by blast+

section \<open>Objects\<close>

abbreviation live_in :: "lz_state \<Rightarrow> alloc_desc \<Rightarrow> addr \<Rightarrow> addr \<Rightarrow> nat \<Rightarrow> bool" where
  "live_in st A \<equiv> live st (dG A) (dM A) (dB A)"

definition mapped_object :: "alloc_desc \<Rightarrow> addr \<Rightarrow> nat \<Rightarrow> bool" where
  "mapped_object A p n \<longleftrightarrow> (\<exists>d t off. dD A d = Some (t, n, off) \<and> p = d + of_nat off)"

definition object :: "lz_state \<Rightarrow> alloc_desc \<Rightarrow> addr \<Rightarrow> nat \<Rightarrow> bool" where
  "object st A p n \<longleftrightarrow> (\<exists>T. live_in st A T p n) \<or> mapped_object A p n"

lemma unat_chunk_of: "unat (chunk_of a) = unat a div 2097152 * 2097152"
  using unat_and_not_mask [of a 21] by (simp add: chunk_of_def mask_eq_exp_minus_1)

lemma in_own_chunk: "a \<in> chunk_block (chunk_of a)"
proof -
  have le: "chunk_of a \<le> a" by (simp add: word_le_nat_alt unat_chunk_of)
  have "unat (a - chunk_of a) = unat a mod 2097152"
    unfolding unat_sub [OF le] unat_chunk_of by (rule minus_div_mult_eq_mod)
  then show ?thesis unfolding chunk_block_def within_def by (simp add: word_less_nat_alt)
qed

lemma unat_add_small: "unat (d :: addr) + k < 2 ^ 64 \<Longrightarrow> unat (d + of_nat k) = unat d + k"
  by (simp add: unat_word_ariths unsigned_of_nat take_bit_nat_eq_self)

lemma direct_object:
  assumes ok: "direct_ok st A" and d: "dD A d = Some (t, n, off)"
  shows "unat (d + of_nat off) = unat d + off" "a \<in> bytes (d + of_nat off) n \<Longrightarrow> gown (dG A) (chunk_of a) = Some (Direct_of d)"
    "a \<in> bytes (d + of_nat off) n \<Longrightarrow> a \<in> direct_memory (dG A)" "gown (dG A) d = Some (Direct_of d)"
    "chunk_of (d + of_nat off) \<noteq> 0 \<and> gown (dG A) (chunk_of (d + of_nat off)) = Some (Direct_of d)"
proof -
  note r = direct_atD [OF direct_okD(1) [OF ok d]]
  show u: "unat (d + of_nat off) = unat d + off" by (rule unat_add_small) (use r(3,6) in simp)
  show o: "gown (dG A) (chunk_of a) = Some (Direct_of d)" if "a \<in> bytes (d + of_nat off) n" for a
    by (rule r(10)) (use that r(6) u in \<open>auto simp: bytes_def\<close>)
  show "a \<in> direct_memory (dG A)" if "a \<in> bytes (d + of_nat off) n"
    using o [OF that] in_own_chunk [of a] by (auto simp: direct_memory_def)
  have "gown (dG A) (chunk_of d) = Some (Direct_of d)" by (rule r(10)) (use r(4-6) in simp_all)
  then show "gown (dG A) d = Some (Direct_of d)" by (simp add: chunk_of_self [OF r(1)])
  have "gown (dG A) (chunk_of (d + of_nat off)) = Some (Direct_of d)" by (rule o) (use r(4) in \<open>simp add: bytes_def u\<close>)
  moreover have "0 < unat (chunk_of (d + of_nat off))"
  proof -
    obtain q where q: "unat d = 2097152 * q" "0 < q" using r(1) unat_gt_0 [of d] unfolding chunk_base_def by auto
    have "q \<le> (unat d + off) div 2097152" unfolding q(1) by (simp add: less_eq_div_iff_mult_less_eq)
    then show ?thesis using q(2) unfolding unat_chunk_of u by simp
  qed
  ultimately show "chunk_of (d + of_nat off) \<noteq> 0 \<and> gown (dG A) (chunk_of (d + of_nat off)) = Some (Direct_of d)" by auto
qed

lemma live_bytes:
  assumes inv: "heap_struct st G" and l: "live st G M B T p n" and a: "a \<in> bytes p n"
  shows "gown G (chunk_of a) \<in> {Some (Span_of T)} \<union> range (\<lambda>i. Some (Slab_of T i))"
proof -
  obtain c where c: "block_at st G c T p n" using l by (auto simp: live_def block_def)
  have "a \<in> chunk_block c" using block_at_bytes(1) [OF inv c] a by blast
  then have "chunk_of a = c" by (rule chunk_of_block [OF block_at_range(1) [OF inv c]])
  then show ?thesis using c by (auto simp: block_at_def split: option.splits chunk_use.splits)
qed

lemma object_cases [consumes 1, case_names live direct]:
  assumes "object st A p n"
  obtains T where "live st (dG A) (dM A) (dB A) T p n"
  | d t off where "dD A d = Some (t, n, off)" "p = d + of_nat off"
  using assms unfolding object_def mapped_object_def by blast

lemma object_range:
  assumes inv: "api_inv st A" and o: "object st A p n"
  shows "p \<noteq> 0" "0 < n" "unat p + n \<le> 2 ^ 47" "a \<in> bytes p n \<Longrightarrow> valid st a"
proof -
  note I = api_invD [OF inv]
  from o have "p \<noteq> 0 \<and> 0 < n \<and> unat p + n \<le> 2 ^ 47 \<and> (\<forall>a\<in>bytes p n. valid st a)"
  proof (cases rule: object_cases)
    case (live T)
    then obtain c where b: "block_at st (dG A) c T p n" "block st (dG A) T p n" by (auto simp: live_def block_def)
    note r = block_at_range [OF I(5) b(1)]
    have "p \<noteq> 0" using r(2) by auto
    then show ?thesis using r(1,3,4) block_valid [OF I(5) b(2)] by (simp add: chunk_base_def)
  next
    case (direct d t off)
    note r = direct_atD [OF direct_okD(1) [OF I(3) direct(1)]]
    note o = direct_object [OF I(3) direct(1)]
    have "valid st a" if "a \<in> bytes p n" for a
      using struct_chunk [OF I(5) o(2)] that in_own_chunk [of a] unfolding direct(2) chunk_at_def chunk_block_def by blast
    moreover have "p \<noteq> 0" using o(1) r(5) direct(2) by auto
    ultimately show ?thesis using r(3,4,6) o(1) direct(2) by simp
  qed
  then show "p \<noteq> 0" "0 < n" "unat p + n \<le> 2 ^ 47" "a \<in> bytes p n \<Longrightarrow> valid st a" by blast+
qed

lemma objects_disjoint:
  assumes inv: "api_inv st A" and p: "object st A p n" and q: "object st A q m"
  shows "p \<noteq> q \<Longrightarrow> bytes p n \<inter> bytes q m = {}" "p = q \<Longrightarrow> n = m"
proof -
  note I = api_invD [OF inv]
  have ne: "p \<in> bytes p n" "q \<in> bytes q m" using object_range(2) [OF inv p] object_range(2) [OF inv q] by (simp_all add: bytes_def)
  have "(p \<noteq> q \<longrightarrow> bytes p n \<inter> bytes q m = {}) \<and> (p = q \<longrightarrow> n = m)"
    using p
  proof (cases rule: object_cases)
    case P: (live T)
    show ?thesis
      using q
    proof (cases rule: object_cases)
      case (live U)
      then show ?thesis
        using P blocks_disjoint_heap [OF I(5)] block_unique [OF I(5)] unfolding live_def by blast
    next
      case (direct d t off)
      have "a \<notin> bytes q m" if "a \<in> bytes p n" for a
        using live_bytes [OF I(5) P that] direct_object(2) [OF I(3) direct(1), of a] direct(2) by auto
      then show ?thesis using ne by blast
    qed
  next
    case P: (direct d t off)
    show ?thesis
      using q
    proof (cases rule: object_cases)
      case (live U)
      have "a \<notin> bytes p n" if "a \<in> bytes q m" for a
        using live_bytes [OF I(5) live that] direct_object(2) [OF I(3) P(1), of a] P(2) by auto
      then show ?thesis using ne by blast
    next
      case Q: (direct d' t' off')
      show ?thesis
      proof (cases "d = d'")
        case True
        then show ?thesis using P Q by simp
      next
        case False
        have "a \<notin> bytes q m" if "a \<in> bytes p n" for a
          using direct_object(2) [OF I(3) P(1), of a] direct_object(2) [OF I(3) Q(1), of a] P(2) Q(2) that False by auto
        then show ?thesis using ne by blast
      qed
    qed
  qed
  then show "p \<noteq> q \<Longrightarrow> bytes p n \<inter> bytes q m = {}" "p = q \<Longrightarrow> n = m" by blast+
qed

section \<open>Steps as the program sees them\<close>

definition unchanged :: "addr set \<Rightarrow> lz_state \<Rightarrow> alloc_desc \<Rightarrow> lz_state \<Rightarrow> alloc_desc \<Rightarrow> bool" where
  "unchanged X st A st' A' \<longleftrightarrow> dX A' = dX A \<and>
     (\<forall>T p n. p \<notin> X \<longrightarrow> (live_in st' A' T p n \<longleftrightarrow> live_in st A T p n)) \<and>
     (\<forall>p n. p \<notin> X \<longrightarrow> (mapped_object A' p n \<longleftrightarrow> mapped_object A p n)) \<and>
     (\<forall>p n. p \<notin> X \<longrightarrow> object st A p n \<longrightarrow> (\<forall>a\<in>bytes p n. mem st' a = mem st a))"

lemma unchanged_refl [simp]: "unchanged X st A st A"
  by (simp add: unchanged_def)

lemma unchangedD:
  assumes "unchanged X st A st' A'"
  shows "dX A' = dX A" "p \<notin> X \<Longrightarrow> object st' A' p n \<longleftrightarrow> object st A p n"
    "p \<notin> X \<Longrightarrow> object st A p n \<Longrightarrow> a \<in> bytes p n \<Longrightarrow> mem st' a = mem st a"
    "p \<notin> X \<Longrightarrow> live_in st' A' T p n \<longleftrightarrow> live_in st A T p n"
    "p \<notin> X \<Longrightarrow> mapped_object A' p n \<longleftrightarrow> mapped_object A p n"
proof -
  show l: "live_in st' A' T p n \<longleftrightarrow> live_in st A T p n" if "p \<notin> X" for T using assms that unfolding unchanged_def by blast
  show m: "mapped_object A' p n \<longleftrightarrow> mapped_object A p n" if "p \<notin> X" using assms that unfolding unchanged_def by blast
  show "object st' A' p n \<longleftrightarrow> object st A p n" if "p \<notin> X" unfolding object_def l [OF that] m [OF that] ..
qed (use assms in \<open>auto simp: unchanged_def\<close>)

lemma unchanged_trans:
  assumes "unchanged X st A st' A'" "unchanged Y st' A' st'' A''"
  shows "unchanged (X \<union> Y) st A st'' A''"
proof -
  have "mem st'' a = mem st a" if "p \<notin> X \<union> Y" "object st A p n" "a \<in> bytes p n" for p n a
    using unchangedD(2,3) [OF assms(1), of p] unchangedD(3) [OF assms(2), of p] that by simp
  then show ?thesis using assms unfolding unchanged_def by simp
qed

lemma unchanged_mono: "unchanged X st A st' A' \<Longrightarrow> X \<subseteq> Y \<Longrightarrow> unchanged Y st A st' A'"
  unfolding unchanged_def by blast

lemma unchanged_null:
  assumes "unchanged {0} st A st' A'" "api_inv st A" "api_inv st' A'"
  shows "unchanged {} st A st' A'"
proof -
  have "\<not> object st A 0 n" "\<not> object st' A' 0 n" for n using object_range(1) assms(2,3) by blast+
  then have z: "\<not> live_in st A T 0 n" "\<not> live_in st' A' T 0 n" "\<not> mapped_object A 0 n" "\<not> mapped_object A' 0 n" for T n
    by (auto simp: object_def)
  have "live_in st' A' T p n \<longleftrightarrow> live_in st A T p n" "mapped_object A' p n \<longleftrightarrow> mapped_object A p n" for T p n
    using z unchangedD(4,5) [OF assms(1), of p] by (cases "p = 0"; simp)+
  moreover have "mem st' a = mem st a" if "object st A p n" "a \<in> bytes p n" for p n a
    using unchangedD(3) [OF assms(1) _ that] object_range(1) [OF assms(2) that(1)] by simp
  ultimately show ?thesis using unchangedD(1) [OF assms(1)] by (simp add: unchanged_def)
qed

lemma telemetry_inv_valid:
  "telemetry_inv st \<Longrightarrow> (\<And>a. valid st a \<Longrightarrow> valid st' a) \<Longrightarrow> g_telemetry_matrix st' = g_telemetry_matrix st \<Longrightarrow> telemetry_inv st'"
  by (auto simp: telemetry_inv_def)

lemma direct_ok_same:
  assumes ok: "direct_ok st A"
    and h: "\<And>a. a \<in> direct_memory (dG A) \<Longrightarrow> hdrs st' a = hdrs st a \<and> metas st' a = metas st a"
    and g: "\<And>c d. gown (dG A') c = Some (Direct_of d) \<longleftrightarrow> gown (dG A) c = Some (Direct_of d)" and d: "dD A' = dD A"
  shows "direct_ok st' A'"
proof -
  have "direct_at st' (dG A') d r" if r: "dD A d = Some r" for d r
  proof -
    obtain t n off where tno: "r = (t, n, off)" by (cases r)
    have o: "gown (dG A) d = Some (Direct_of d)" using direct_object(4) [OF ok] r tno by simp
    have "d \<in> direct_memory (dG A)" "d + 64 \<in> direct_memory (dG A)"
      using o unfolding direct_memory_def by (auto simp: chunk_block_def within_def intro!: exI [of _ "chunk_block d"])
    then show ?thesis using direct_okD(1) [OF ok r] h g unfolding tno by (simp add: direct_at_def)
  qed
  then show ?thesis using direct_okD(2) [OF ok] g d unfolding direct_ok_def by simp
qed

text \<open>A step of the heaps is a step of the allocator.\<close>

lemma api_client:
  assumes inv: "api_inv st A" and h: "heap_inv st' G' M' B'" and c: "client_step X st (dG A) (dM A) (dB A) st' G' M' B'"
  defines "A' \<equiv> A\<lparr>dG := G', dM := M', dB := B'\<rparr>"
  shows "api_inv st' A'" "unchanged X st A st' A'"
proof -
  note I = api_invD [OF inv] and C = client_stepD [OF c]
  have g: "g_telemetry_matrix st' = g_telemetry_matrix st" "tls_tlh_ptr st' = tls_tlh_ptr st" "g_tlh_key st' = g_tlh_key st"
    "g_zombie_tlhs st' = g_zombie_tlhs st" "g_zombie_lock st' = g_zombie_lock st"
    using C(1) by (simp_all add: outer_globals_def)
  note T = threads_okD [OF I(4)]
  have z: "chain (\<lambda>T. tl_next_zombie (tlhs st' T)) p (dZ A) = chain (\<lambda>T. tl_next_zombie (tlhs st T)) p (dZ A)" for p
    by (rule chain_cong) (use C(3) T(3) in \<open>auto simp: thread_part_def\<close>)
  have "threads_ok st' A'" using I(4) C(2) g z by (simp add: threads_ok_def A'_def)
  moreover have "direct_ok st' A'" by (rule direct_ok_same [OF I(3)]) (use C(5,6) in \<open>simp_all add: A'_def\<close>)
  moreover have "telemetry_inv st'" by (rule telemetry_inv_valid [OF I(2) C(7) g(1)])
  ultimately show "api_inv st' A'" using h by (simp add: api_inv_def A'_def)
  have "mem st' a = mem st a" if "p \<notin> X" "object st A p n" "a \<in> bytes p n" for p n a
    using that(2)
  proof (cases rule: object_cases)
    case (live T)
    then show ?thesis using C(9) that by blast
  next
    case (direct d t off)
    then show ?thesis using C(6) direct_object(3) [OF I(3) direct(1)] that(3) by blast
  qed
  then show "unchanged X st A st' A'" using C(8) by (simp add: unchanged_def A'_def mapped_object_def)
qed

section \<open>The heap of a thread\<close>

lemma thread_slot_ok:
  fixes tid :: u32
  assumes "telemetry_inv st"
  defines "s \<equiv> lz_telemetry_get_slot (1 + tid mod (LZ_MAX_TELEMETRY_SLOTS - 1)) st"
  shows "s = 0 \<or> g_telemetry_matrix st \<noteq> 0 \<and> within (g_telemetry_matrix st) 262144 s"
proof (cases "g_telemetry_matrix st = 0")
  case True
  then show ?thesis by (simp add: s_def lz_telemetry_get_slot_def)
next
  case False
  have i: "unat (1 + tid mod 4095 :: u32) = 1 + unat tid mod 4095" by (simp add: unat_word_ariths unat_mod)
  moreover have "unat tid mod 4095 < 4095" by simp
  ultimately have l: "unat (1 + tid mod 4095 :: u32) < 4096" by linarith
  have "unat s = unat (g_telemetry_matrix st) + 64 * unat (1 + tid mod 4095 :: u32)"
    using slot_address(1) [OF assms(1) False l] by (simp add: s_def)
  moreover have "unat (g_telemetry_matrix st) + 262144 \<le> 2 ^ 47" using assms(1) False by (simp add: telemetry_inv_def)
  ultimately show ?thesis using False l by (subst within_iff) simp_all
qed

lemma get_slot_upd [simp]:
  "lz_telemetry_get_slot i (st\<lparr>tlhs := f\<rparr>) = lz_telemetry_get_slot i st"
  "lz_telemetry_get_slot i (st\<lparr>tls_tlh_ptr := g\<rparr>) = lz_telemetry_get_slot i st"
  "lz_telemetry_get_slot i (st\<lparr>g_thread_counter := c\<rparr>) = lz_telemetry_get_slot i st"
  "lz_telemetry_get_slot i (st\<lparr>g_zombie_tlhs := z\<rparr>) = lz_telemetry_get_slot i st"
  "lz_telemetry_get_slot i (st\<lparr>g_zombie_lock := b\<rparr>) = lz_telemetry_get_slot i st"
  by (simp_all add: lz_telemetry_get_slot_def)

lemma valid_upd [simp]:
  "valid (st\<lparr>tlhs := f\<rparr>) = valid st" "valid (st\<lparr>tls_tlh_ptr := g\<rparr>) = valid st" "valid (st\<lparr>g_thread_counter := c\<rparr>) = valid st"
  "valid (st\<lparr>g_zombie_tlhs := z\<rparr>) = valid st" "valid (st\<lparr>g_zombie_lock := b\<rparr>) = valid st"
  by (simp_all add: valid_def fun_eq_iff)


text \<open>The heap \<open>T\<close> becomes the heap of thread \<open>t\<close>, with the next thread number.\<close>

definition give_heap :: "nat \<Rightarrow> addr \<Rightarrow> lz_tlh \<Rightarrow> lz_state \<Rightarrow> lz_state" where
  "give_heap t T h st = st\<lparr>g_thread_counter := g_thread_counter st + 1,
     tlhs := (tlhs st)(T := h\<lparr>tl_next_zombie := 0, tl_is_zombie := 0, tl_thread_id := g_thread_counter st,
       tl_local_bytes_alloc_batch := 0, tl_local_bytes_free_batch := 0,
       tl_stat_slot := lz_telemetry_get_slot (1 + g_thread_counter st mod (LZ_MAX_TELEMETRY_SLOTS - 1)) st\<rparr>),
     tls_tlh_ptr := (tls_tlh_ptr st)(t := T), g_tlh_key := (g_tlh_key st)(t := T)\<rparr>"

lemma give_heap_views: "same_views st (give_heap t T h st)"
  by (simp add: give_heap_def same_views_def)

lemma give_heap_stat:
  assumes "telemetry_inv st"
  shows "stat_ok (give_heap t T h st) T"
  using thread_slot_ok [OF assms, of "g_thread_counter st"] by (simp add: give_heap_def stat_ok_def)

lemma tlhs_eqI: "tlhs s' = tlhs s \<Longrightarrow> (\<And>f. s'\<lparr>tlhs := f\<rparr> = s\<lparr>tlhs := f\<rparr>) \<Longrightarrow> s' = (s :: lz_state)"
  by (cases s; cases s') simp

lemma ensure_zombie_run:
  assumes "tls_tlh_ptr st t = 0" "\<not> g_zombie_lock st" "g_zombie_tlhs st = T" "T \<noteq> 0" "valid st T"
  shows "ensure_tls_init env t st =
    Some (give_heap t T (tlhs st T) (st\<lparr>g_zombie_tlhs := tl_next_zombie (tlhs st T)\<rparr>))"
proof -
  let ?st = "give_heap t T (tlhs st T) (st\<lparr>g_zombie_tlhs := tl_next_zombie (tlhs st T)\<rparr>)"
  obtain st' where st': "ensure_tls_init env t st = Some st'"
    and eq: "tlhs st' = (tlhs st)(T := tlhs ?st T)" "\<And>f. st'\<lparr>tlhs := f\<rparr> = ?st\<lparr>tlhs := f\<rparr>"
    using assms
    by (simp add: ensure_tls_init_def lz_resurrect_zombie_def zombie_lock_def zombie_unlock_def get_tlh_def upd_tlh_def
        next_thread_id_def Let_def give_heap_def)
  have "tlhs ?st = (tlhs st)(T := tlhs ?st T)" by (simp add: give_heap_def)
  from tlhs_eqI [OF trans [OF eq(1) this [symmetric]] eq(2)] have "st' = ?st" .
  then show ?thesis using st' by simp
qed


definition init_tlh :: "lz_tlh \<Rightarrow> lz_tlh" where
  "init_tlh h = h\<lparr>tl_bytes_allocated := 0, tl_active_spans := 0, tl_remote_free_head := 0, tl_outgoing_batch := zero_batch,
     tl_bins := empty_bins\<rparr>"

lemma ensure_new_run:
  assumes "tls_tlh_ptr st t = 0" "\<not> g_zombie_lock st" "g_zombie_tlhs st = 0" "sys_mmap env 2240 st = (Some T, st1)" "valid st1 T"
  shows "ensure_tls_init env t st = Some (give_heap t T (init_tlh (tlhs st1 T)) st1)"
proof -
  let ?st = "give_heap t T (init_tlh (tlhs st1 T)) st1"
  have l: "st\<lparr>g_zombie_lock := False\<rparr> = st" using assms(2) by (cases st) simp
  have "tlhs ?st T = (tlhs st1 T)\<lparr>tl_thread_id := g_thread_counter st1, tl_bytes_allocated := 0, tl_active_spans := 0,
     tl_remote_free_head := 0, tl_outgoing_batch := zero_batch, tl_bins := empty_bins, tl_is_zombie := 0, tl_next_zombie := 0,
     tl_local_bytes_alloc_batch := 0, tl_local_bytes_free_batch := 0,
     tl_stat_slot := lz_telemetry_get_slot (1 + g_thread_counter st1 mod (LZ_MAX_TELEMETRY_SLOTS - 1)) st1\<rparr>"
    by (rule lz_tlh.equality) (simp_all add: give_heap_def init_tlh_def)
  then obtain st' where st': "ensure_tls_init env t st = Some st'"
    and eq: "tlhs st' = (tlhs st1)(T := tlhs ?st T)" "\<And>f. st'\<lparr>tlhs := f\<rparr> = ?st\<lparr>tlhs := f\<rparr>"
    using assms l
    by (simp add: ensure_tls_init_def lz_resurrect_zombie_def zombie_lock_def zombie_unlock_def get_tlh_def upd_tlh_def
        next_thread_id_def Let_def lz_tlh_init_def empty_bins_def [symmetric] zero_batch_def [symmetric]) (simp add: give_heap_def)
  have "tlhs ?st = (tlhs st1)(T := tlhs ?st T)" by (simp add: give_heap_def)
  from tlhs_eqI [OF trans [OF eq(1) this [symmetric]] eq(2)] have "st' = ?st" .
  then show ?thesis using st' by simp
qed

lemma ensure_oom:
  assumes "tls_tlh_ptr st t = 0" "\<not> g_zombie_lock st" "g_zombie_tlhs st = 0" "os_mmap env (trace st) 2240 = None"
  shows "ensure_tls_init env t st = None"
  using assms by (simp add: ensure_tls_init_def lz_resurrect_zombie_def zombie_lock_def zombie_unlock_def sys_mmap_def Let_def)


text \<open>More memory is mapped and nothing else happens.\<close>

lemma heap_inv_grow:
  assumes inv: "heap_inv st G M B" and k: "keeps {} st st'" and g: "same_globals st st'"
  shows "heap_inv st' G M B" "client_step {} st G M B st' G M B"
proof -
  note I = heap_invD [OF inv]
  note lay = layout_okD [OF heap_structD(3) [OF I(1)]]
  have g': "g_rtree_root st' = g_rtree_root st" "g_telemetry_matrix st' = g_telemetry_matrix st" "outer_globals st st'"
    using g by (simp_all add: same_globals_def outer_globals_def)
  have vmm: "vmm_inv st' (gpools G)"
    by (rule vmm_inv_frame [OF heap_structD(1) [OF I(1)] k])
       (use g vmm_invD(5) [OF heap_structD(1) [OF I(1)]] in \<open>simp_all add: same_globals_def locks_free_def\<close>)
  have p: "pinned st' G = pinned st G" by (simp add: pinned_def g')
  have lay': "layout_ok st' G"
    using heap_structD(3) [OF I(1)] chunk_at_keeps [OF _ k] keeps_valid [OF k] unfolding layout_ok_def p by blast
  have get: "lz_rtree_get st' a = lz_rtree_get st a" for a
    by (rule rtree_get_keeps [OF heap_structD(2) [OF I(1)] k g'(1)]) simp
  have idx: "index_ok st' G" by (rule index_ok_more [OF heap_structD(4) [OF I(1)] get])
  have tl: "tlhs st' T = tlhs st T" if "T \<in> gheaps G" for T
    using keepsD(4) [OF k lay(3) [OF heap_pinned [OF that]]] by simp
  have G: "G = G\<lparr>gpools := gpools G, gown := gown G\<rparr>" by simp
  note o = heap_struct_outer [OF I(1) k _ tl g'(3) G _ vmm rtree_inv_keeps [OF heap_structD(2) [OF I(1)] k g'(1)] lay' idx]
  have s: "heap_struct st' G" "evolves {} st G st' G" by (rule o; simp)+
  show "heap_inv st' G M B" by (rule heap_inv_evolves [OF inv s(1) I(2) s(2)]) simp
  show "client_step {} st G M B st' G M B" by (rule evolves_client [OF s(2)])
qed

lemma api_grow:
  assumes "api_inv st A" "keeps {} st st'" "same_globals st st'"
  shows "api_inv st' A" "unchanged {} st A st' A"
  using api_client [OF assms(1) heap_inv_grow [OF api_invD(1) [OF assms(1)] assms(2,3)]] by simp_all

lemma threads_ok_give:
  assumes ok: "threads_ok st A" and T: "T \<in> gheaps (dG A') - set (dZ A')" "T \<noteq> 0" "\<And>u. u \<notin> dX A \<Longrightarrow> tls_tlh_ptr st u \<noteq> T"
    and A': "gheaps (dG A) \<subseteq> gheaps (dG A')" "set (dZ A') \<subseteq> set (dZ A)" "dX A' = dX A"
    and st': "tls_tlh_ptr st' = (tls_tlh_ptr st)(t := T)" "g_tlh_key st' = (g_tlh_key st)(t := T)" "g_zombie_lock st' = g_zombie_lock st"
    and ch: "chain (\<lambda>U. tl_next_zombie (tlhs st' U)) (g_zombie_tlhs st') (dZ A')"
  shows "threads_ok st' A'"
proof -
  note Th = threads_okD [OF ok]
  have "t' = u" if "t' \<notin> dX A'" "u \<notin> dX A'" "tls_tlh_ptr st' t' \<noteq> 0" "tls_tlh_ptr st' t' = tls_tlh_ptr st' u" for t' u
    using that T(3) [of t'] T(3) [of u] Th(6) [of t' u] unfolding st'(1) A'(3) by (auto split: if_splits)
  moreover have "tls_tlh_ptr st' u \<in> gheaps (dG A') - set (dZ A')" if "u \<notin> dX A'" "tls_tlh_ptr st' u \<noteq> 0" for u
    using that Th(5) [of u] T(1) A'(1,2) unfolding st'(1) A'(3) by (auto split: if_splits)
  moreover have "g_tlh_key st' u = tls_tlh_ptr st' u" if "u \<notin> dX A'" for u using that Th(4) [of u] A'(3) by (simp add: st')
  moreover have "set (dZ A') \<subseteq> gheaps (dG A')" using Th(3) A'(1,2) by blast
  ultimately show ?thesis using Th(1) st'(3) ch unfolding threads_ok_def by blast
qed

lemma api_new_heap:
  fixes h :: lz_tlh
  assumes inv: "api_inv st A" and t: "t \<notin> dX A" and T: "T \<noteq> 0" "T \<notin> gheaps (dG A)" "valid st T"
    and tls: "tls_tlh_ptr st t = 0"
    and out: "\<And>c. c \<in> dom (gown (dG A)) \<union> idle (gpools (dG A)) \<Longrightarrow> T \<notin> chunk_block c"
  defines "A' \<equiv> A\<lparr>dG := add_heap T (dG A), dM := (dM A)(T := []), dB := (dB A)(T := [])\<rparr>"
    and "st' \<equiv> give_heap t T (init_tlh h) st"
  shows "api_inv st' A'" "unchanged {} st A st' A'"
proof -
  note I = api_invD [OF inv] and Th = threads_okD [OF api_invD(4) [OF inv]]
  note v = give_heap_views [of st t T "init_tlh h", folded st'_def]
  have sel: "dG A' = add_heap T (dG A)" "dM A' = (dM A)(T := [])" "dB A' = (dB A)(T := [])" by (simp_all add: A'_def)
  note n = heap_inv_new [OF I(1) v T out]
  have h: "heap_inv st' (dG A') (dM A') (dB A')" unfolding sel
    by (rule n(1)) (use T(2) give_heap_stat [OF I(2)] in \<open>auto simp: st'_def give_heap_def init_tlh_def\<close>)
  have l: "live st' (dG A') (dM A') (dB A') U y n \<longleftrightarrow> live st (dG A) (dM A) (dB A) U y n" for U y n unfolding sel
    by (rule n(2)) (use T(2) give_heap_stat [OF I(2)] in \<open>auto simp: st'_def give_heap_def init_tlh_def\<close>)
  have z: "chain (\<lambda>U. tl_next_zombie (tlhs st' U)) p (dZ A) = chain (\<lambda>U. tl_next_zombie (tlhs st U)) p (dZ A)" for p
    by (rule chain_cong) (use Th(3) T(2) in \<open>auto simp: st'_def give_heap_def\<close>)
  have u: "tls_tlh_ptr st u \<noteq> T" if "u \<notin> dX A" for u using Th(5) [OF that] T(1,2) by auto
  have "threads_ok st' A'"
    by (rule threads_ok_give [OF I(4) _ T(1) u, where t = t])
       (use T(2) Th(2,3) z in \<open>auto simp: A'_def give_heap_def st'_def simp del: fun_upd_apply\<close>)
  moreover have "telemetry_inv st'" by (rule telemetry_inv_valid [OF I(2)]) (use v in \<open>simp_all add: same_views_def valid_def\<close>)
  moreover have "direct_ok st' A'" by (rule direct_ok_same [OF I(3)]) (use v in \<open>simp_all add: same_views_def A'_def\<close>)
  ultimately show "api_inv st' A'" using h by (simp add: api_inv_def)
  have "mem st' = mem st" using v by (simp add: same_views_def)
  then show "unchanged {} st A st' A'" using l by (simp add: unchanged_def) (simp add: A'_def mapped_object_def)
qed


text \<open>A step that changes records of heaps and globals of threads only.\<close>

lemma api_threads:
  assumes inv: "api_inv st A" and v: "same_views st st'"
    and h: "\<And>T. T \<in> gheaps (dG A) \<Longrightarrow> same_heap (tlhs st T) (tlhs st' T) \<and> stat_ok st' T"
    and A': "dG A' = dG A" "dM A' = dM A" "dB A' = dB A" "dD A' = dD A" and t: "threads_ok st' A'"
  shows "api_inv st' A'" "dX A' = dX A \<Longrightarrow> unchanged {} st A st' A'"
proof -
  note I = api_invD [OF inv]
  have i: "heap_inv st' (dG A) (dM A) (dB A)" "\<And>U y n. live st' (dG A) (dM A) (dB A) U y n \<longleftrightarrow> live st (dG A) (dM A) (dB A) U y n"
    by (rule heap_inv_threads [OF I(1) v]; use h in blast)+
  have "telemetry_inv st'" by (rule telemetry_inv_valid [OF I(2)]) (use v in \<open>simp_all add: same_views_def valid_def\<close>)
  moreover have "direct_ok st' A'" by (rule direct_ok_same [OF I(3)]) (use v A' in \<open>simp_all add: same_views_def\<close>)
  ultimately show "api_inv st' A'" using i(1) t A' by (simp add: api_inv_def)
  have "mem st' = mem st" using v by (simp add: same_views_def)
  then show "unchanged {} st A st' A'" if "dX A' = dX A" using i(2) A' that by (simp add: unchanged_def mapped_object_def)
qed

lemma api_take_zombie:
  assumes inv: "api_inv st A" and t: "t \<notin> dX A" and tls: "tls_tlh_ptr st t = 0" and z: "dZ A = T # Z"
  defines "A' \<equiv> A\<lparr>dZ := Z\<rparr>" and "st' \<equiv> give_heap t T (tlhs st T) (st\<lparr>g_zombie_tlhs := tl_next_zombie (tlhs st T)\<rparr>)"
  shows "api_inv st' A'" "unchanged {} st A st' A'"
proof -
  note I = api_invD [OF inv] and Th = threads_okD [OF api_invD(4) [OF inv]]
  have d: "T \<notin> set Z" "T \<in> gheaps (dG A)" "T \<noteq> 0" "set Z \<subseteq> gheaps (dG A)"
    using chain_distinct [OF Th(2)] Th(3) chain_not_null [OF Th(2)] z by auto
  have ch: "chain (\<lambda>U. tl_next_zombie (tlhs st U)) (tl_next_zombie (tlhs st T)) Z" using Th(2) z by simp
  have "chain (\<lambda>U. tl_next_zombie (tlhs st' U)) p Z = chain (\<lambda>U. tl_next_zombie (tlhs st U)) p Z" for p
    by (rule chain_cong) (use d(1) in \<open>auto simp: st'_def give_heap_def\<close>)
  with ch have "chain (\<lambda>U. tl_next_zombie (tlhs st' U)) (tl_next_zombie (tlhs st T)) Z" by simp
  moreover have u: "tls_tlh_ptr st u \<noteq> T" if "u \<notin> dX A" for u using Th(5) [OF that] d(3) z by auto
  ultimately have th: "threads_ok st' A'"
    by (intro threads_ok_give [OF I(4) _ d(3) u, where t = t])
       (use d z in \<open>auto simp: A'_def give_heap_def st'_def simp del: fun_upd_apply\<close>)
  have v: "same_views st st'" by (simp add: st'_def give_heap_def same_views_def)
  have "stat_ok st' U" if "U \<in> gheaps (dG A)" for U
  proof (cases "U = T")
    case True
    have "telemetry_inv (st\<lparr>g_zombie_tlhs := tl_next_zombie (tlhs st T)\<rparr>)" using I(2) by (simp add: telemetry_inv_def)
    then show ?thesis unfolding True st'_def by (rule give_heap_stat)
  next
    case False
    then show ?thesis using heap_structD(9) [OF I(5) that] by (simp add: stat_ok_def st'_def give_heap_def)
  qed
  then have h: "same_heap (tlhs st U) (tlhs st' U) \<and> stat_ok st' U" if "U \<in> gheaps (dG A)" for U
    using that by (simp add: same_heap_def st'_def give_heap_def)
  show "api_inv st' A'" "unchanged {} st A st' A'"
    by (rule api_threads [OF inv v h _ _ _ _ th]; simp add: A'_def)+
qed

lemma fresh_outside:
  assumes inv: "heap_struct st G" and k: "keeps {} st st'" and T: "\<not> valid st T"
  shows "T \<notin> gheaps G" "c \<in> dom (gown G) \<union> idle (gpools G) \<Longrightarrow> T \<notin> chunk_block c"
proof -
  show "T \<notin> gheaps G" using T lists_okD(4) [OF heap_structD(8) [OF inv]] by blast
  assume "c \<in> dom (gown G) \<union> idle (gpools G)"
  then have "chunk_at st c" using struct_chunk [OF inv] vmm_invD(4) [OF heap_structD(1) [OF inv]] by blast
  then show "T \<notin> chunk_block c" using T by (auto simp: chunk_at_def chunk_block_def)
qed

text \<open>A thread that needs a heap gets one, unless the system has no memory for it.\<close>

definition no_heap :: "os_env \<Rightarrow> nat \<Rightarrow> lz_state \<Rightarrow> bool" where
  "no_heap env t st \<longleftrightarrow> tls_tlh_ptr st t = 0 \<and> g_zombie_tlhs st = 0 \<and> os_mmap env (trace st) 2240 = None"

lemma ensure_tls_spec:
  assumes ok: "mmap_ok env" and inv: "api_inv st A" and t: "t \<notin> dX A"
  shows "if no_heap env t st then ensure_tls_init env t st = None
    else \<exists>st' A'. ensure_tls_init env t st = Some st' \<and> api_inv st' A' \<and> unchanged {} st A st' A' \<and>
      tls_tlh_ptr st' t \<in> gheaps (dG A') \<and> trace_ext st st'"
proof -
  note I = api_invD [OF inv] and Th = threads_okD [OF api_invD(4) [OF inv]]
  consider (own) "tls_tlh_ptr st t \<noteq> 0" | (zombie) T Z where "tls_tlh_ptr st t = 0" "dZ A = T # Z"
    | (none) "tls_tlh_ptr st t = 0" "dZ A = []" "os_mmap env (trace st) 2240 = None"
    | (new) T where "tls_tlh_ptr st t = 0" "dZ A = []" "os_mmap env (trace st) 2240 = Some T" by (cases "dZ A") auto
  then show ?thesis
  proof cases
    case own
    then have "ensure_tls_init env t st = Some st" "tls_tlh_ptr st t \<in> gheaps (dG A)"
      using Th(5) [OF t] by (simp_all add: ensure_tls_init_def)
    then show ?thesis using own inv by (auto simp: no_heap_def)
  next
    case zombie
    have z: "g_zombie_tlhs st = T" "T \<noteq> 0" "T \<in> gheaps (dG A)" using Th(2,3) zombie(2) by auto
    have v: "valid st T" by (rule lists_okD(4) [OF heap_structD(8) [OF I(5) z(3)]])
    let ?st = "give_heap t T (tlhs st T) (st\<lparr>g_zombie_tlhs := tl_next_zombie (tlhs st T)\<rparr>)"
    have "tls_tlh_ptr ?st t \<in> gheaps (dG (A\<lparr>dZ := Z\<rparr>))" "trace_ext st ?st" using z(3) by (simp_all add: give_heap_def trace_ext_def)
    then show ?thesis
      using api_take_zombie [OF inv t zombie] ensure_zombie_run [OF zombie(1) Th(1) z(1,2) v, of env] z(1,2)
      by (auto simp: no_heap_def)
  next
    case none
    then have "g_zombie_tlhs st = 0" using Th(2) by simp
    then show ?thesis using none ensure_oom [OF none(1) Th(1)] by (simp add: no_heap_def)
  next
    case new
    obtain st1 where m: "sys_mmap env 2240 st = (Some T, st1)" using new(3) by (simp add: sys_mmap_def)
    note n = sys_mmap_Some [OF ok m]
    have T: "within T 2240 T" by (simp add: within_def)
    note k = sys_mmap_keeps [OF ok m] and sg = sys_mmap_globals [OF m]
    note g = api_grow [OF inv k sg]
    have z: "g_zombie_tlhs st = 0" using Th(2) new(2) by simp
    have tls: "tls_tlh_ptr st1 t = 0" using sg new(1) by (simp add: same_globals_def)
    note f = fresh_outside [OF I(5) k, of T]
    let ?A = "A\<lparr>dG := add_heap T (dG A), dM := (dM A)(T := []), dB := (dB A)(T := [])\<rparr>"
    let ?st = "give_heap t T (init_tlh (tlhs st1 T)) st1"
    have a: "api_inv ?st ?A" "unchanged {} st1 A ?st ?A"
      by (rule api_new_heap [OF g(1) t n(1) f(1) _ tls f(2)]; use n(5) [OF T] in simp)+
    have "unchanged {} st A ?st ?A" using unchanged_trans [OF g(2) a(2)] by simp
    moreover have "ensure_tls_init env t st = Some ?st" by (rule ensure_new_run [OF new(1) Th(1) z m]) (use n(5) [OF T] in simp)
    moreover have "tls_tlh_ptr ?st t \<in> gheaps (dG ?A)" by (simp add: give_heap_def)
    moreover have "trace_ext st ?st" using sys_trace(1) [OF m] by (simp add: give_heap_def trace_ext_def)
    ultimately show ?thesis using a(1) new by (auto simp: no_heap_def)
  qed
qed

end
