(* ===== verification/Api_Direct.thy ===== *)
theory Api_Direct
  imports Api_Inv
begin

text \<open>
  Direct mappings come and go: the branches of \<open>lz_malloc\<close>, \<open>lz_memalign\<close> and \<open>lz_free\<close> that talk to
  the system.
\<close>

section \<open>Changing what belongs to direct mappings\<close>

text \<open>The memory the heaps and the memory manager rely on.\<close>

definition inner_memory :: "lz_state \<Rightarrow> heap_desc \<Rightarrow> addr set" where
  "inner_memory st G = pinned st G \<union> (\<Union>c\<in>idle (gpools G). chunk_block c) \<union>
     {a. \<exists>c u. gown G c = Some u \<and> (\<forall>d. u \<noteq> Direct_of d) \<and> a \<in> chunk_block c}"

lemma inner_memoryI:
  "a \<in> pinned st G \<Longrightarrow> a \<in> inner_memory st G"
  "c \<in> idle (gpools G) \<Longrightarrow> a \<in> chunk_block c \<Longrightarrow> a \<in> inner_memory st G"
  "gown G c = Some u \<Longrightarrow> \<forall>d. u \<noteq> Direct_of d \<Longrightarrow> a \<in> chunk_block c \<Longrightarrow> a \<in> inner_memory st G"
  unfolding inner_memory_def by blast+

lemma heap_struct_remap:
  assumes inv: "heap_struct st G" and g: "same_globals st st'"
    and same: "\<And>a. a \<in> inner_memory st G \<Longrightarrow> valid st' a \<and> same_at a st st'"
    and own: "\<And>c u. \<forall>d. u \<noteq> Direct_of d \<Longrightarrow> w c = Some u \<longleftrightarrow> gown G c = Some u"
    and lay: "\<And>c d. w c = Some (Direct_of d) \<Longrightarrow> chunk_at st' c \<and> c \<notin> idle (gpools G) \<and> pinned st G \<inter> chunk_block c = {}"
    and idx: "index_ok st' (G\<lparr>gown := w\<rparr>)"
  shows "heap_struct st' (G\<lparr>gown := w\<rparr>)" "block st' (G\<lparr>gown := w\<rparr>) T y n \<longleftrightarrow> block st G T y n"
    "block st G T y n \<Longrightarrow> a \<in> bytes y n \<Longrightarrow> mem st' a = mem st a"
proof -
  let ?G = "G\<lparr>gown := w\<rparr>"
  note V = heap_structD(1) [OF inv] and L = layout_okD [OF heap_structD(3) [OF inv]] and ok = heap_structD(5) [OF inv]
  have at: "valid st' a" "mem st' a = mem st a" "hdrs st' a = hdrs st a" "metas st' a = metas st a" "tlhs st' a = tlhs st a"
    if "a \<in> inner_memory st G" for a using same [OF that] by (simp_all add: same_at_def)
  have in_c: "c \<in> chunk_block c" "c + 64 \<in> chunk_block c" for c by (simp_all add: chunk_block_def within_def)
  have p: "pinned st' ?G = pinned st G" using g by (simp add: pinned_def same_globals_def)
  have chunk: "chunk_at st' c" if "chunk_at st c" "\<And>a. a \<in> chunk_block c \<Longrightarrow> a \<in> inner_memory st G" for c
    using that at(1) by (simp add: chunk_at_def chunk_block_def)
  have hi: "hdrs st' c = hdrs st c" if "c \<in> idle (gpools G)" for c by (rule at(3) [OF inner_memoryI(2) [OF that in_c(1)]])
  have vmm: "vmm_inv st' (gpools G)"
  proof -
    have "pool_inv st' n (fst (gpools G) n)" if "n < 16" for n
    proof -
      have i: "c \<in> idle (gpools G)" if "c \<in> set (fst (gpools G) n)" for c using idle_pool [OF \<open>n < 16\<close> that] .
      have "chain (hnext st') q (fst (gpools G) n) = chain (hnext st) q (fst (gpools G) n)" for q
        by (rule chain_cong) (simp add: hnext_def hi i)
      then show ?thesis using V that g hi i by (simp add: vmm_inv_def pool_inv_def same_globals_def)
    qed
    moreover have "chain (hnext st') q (snd (gpools G)) = chain (hnext st) q (snd (gpools G))" for q
      by (rule chain_cong) (simp add: hnext_def hi idle_def)
    moreover have "chunk_at st' c" if "c \<in> idle (gpools G)" for c
      by (rule chunk [OF vmm_invD(4) [OF V that] inner_memoryI(2) [OF that]])
    ultimately show ?thesis using V g by (simp add: vmm_inv_def same_globals_def locks_free_def)
  qed
  have rt: "rtree_inv st'"
  proof -
    have "valid st' a" if "unat i < 8192" "g_rtree_root st i \<noteq> 0" "within (g_rtree_root st i) 131072 a" for i a
      by (rule at(1) [OF inner_memoryI(1)]) (use that in \<open>auto simp: pinned_def\<close>)
    then show ?thesis using heap_structD(2) [OF inv] g by (simp add: rtree_inv_def same_globals_def)
  qed
  have nd: "\<forall>d. Slab_of T i \<noteq> Direct_of d" "\<forall>d. Span_of T \<noteq> Direct_of d" for T i by simp_all
  have cs: "chunk_same st st' c" "node_same st st' (c + 64)" "metas st' (c + 64) = metas st (c + 64)"
    if "gown G c = Some u" "\<forall>d. u \<noteq> Direct_of d" for c u
    using at inner_memoryI(3) [OF that] in_c
    by (auto simp: chunk_same_def node_same_def meta_next_def meta_prev_def slab_node_def span_node_def)
  have lay': "layout_ok st' ?G"
    unfolding layout_ok_def p
  proof (intro conjI ballI)
    fix c assume "c \<in> dom (gown ?G)"
    then obtain u where u: "w c = Some u" by auto
    show "chunk_at st' c" "c \<notin> idle (gpools ?G)"
    proof -
      have "chunk_at st' c \<and> c \<notin> idle (gpools ?G)"
      proof (cases "\<exists>d. u = Direct_of d")
        case True
        then show ?thesis using lay u by auto
      next
        case False
        then have o: "gown G c = Some u" using own u by blast
        then show ?thesis using chunk [OF L(1) [OF o] inner_memoryI(3) [OF o]] False L(2) [OF o] by simp
      qed
      then show "chunk_at st' c" "c \<notin> idle (gpools ?G)" by auto
    qed
  next
    fix a assume a: "a \<in> pinned st G"
    show "valid st' a" by (rule at(1) [OF inner_memoryI(1) [OF a]])
    fix c assume "c \<in> dom (gown ?G) \<union> idle (gpools ?G)"
    then consider u where "w c = Some u" | "c \<in> idle (gpools G)" by auto
    then show "a \<notin> chunk_block c"
    proof cases
      case (1 u)
      then show ?thesis using lay [of c] own [of u c] L(4) [OF a, of c u] a by (cases "\<exists>d. u = Direct_of d") auto
    qed (use L(5) [OF a] in blast)
  qed
  have desc: "desc_ok ?G" using ok own [OF nd(1)] own [OF nd(2)] unfolding desc_ok_def by simp
  have tl: "tlhs st' T = tlhs st T" "valid st' T" if "T \<in> gheaps G" for T
    using at(1,5) [OF inner_memoryI(1) [OF heap_pinned [OF that]]] by auto
  have "slab_ok st' ?G c T i" if "w c = Some (Slab_of T i)" for c T i
  proof -
    have o: "gown G c = Some (Slab_of T i)" using that own [OF nd(1)] by blast
    show ?thesis
      by (rule slab_ok_same [OF heap_structD(6) [OF inv o] cs(1) [OF o nd(1)] struct_base [OF inv o] desc_okD(2) [OF ok o]])
         (use g in \<open>simp_all add: same_globals_def\<close>)
  qed
  moreover have "span_ok st' c T" if "w c = Some (Span_of T)" for c T
    using span_ok_same [OF heap_structD(7) [OF inv] cs(1) [OF _ nd(2)]] that own [OF nd(2)] by blast
  moreover have "lists_ok st' ?G T \<and> stat_ok st' T" if T: "T \<in> gheaps G" for T
  proof
    show "lists_ok st' ?G T"
    proof (rule lists_ok_same [OF heap_structD(8) [OF inv T]])
      fix s i assume "i < 40" "s \<in> desc_slabs G T i"
      then have "gown G (s - 64) = Some (Slab_of T i)" using desc_okD(4) [OF ok T] by simp
      from cs(2) [OF this nd(1)] show "node_same st st' s" by simp
    next
      fix s assume "s \<in> set (gspans G T)"
      then have "gown G (s - 64) = Some (Span_of T)" using desc_okD(5) [OF ok T] by simp
      from cs(2) [OF this nd(2)] show "node_same st st' s" by simp
    qed (use tl [OF T] in simp_all)
    show "stat_ok st' T" using heap_structD(9) [OF inv T] tl(1) [OF T] g by (simp add: stat_ok_def same_globals_def)
  qed
  ultimately show "heap_struct st' ?G" using vmm rt lay' idx desc unfolding heap_struct_def by simp
  have b: "block_at st' ?G c T y n = block_at st G c T y n" for c T y n
  proof (cases "\<exists>u. (\<forall>d. u \<noteq> Direct_of d) \<and> gown G c = Some u")
    case True
    then obtain u where u: "\<forall>d. u \<noteq> Direct_of d" "gown G c = Some u" by blast
    then have "w c = gown G c" "span_start st' c y n = span_start st c y n"
      using own [OF u(1)] cs(3) [OF u(2,1)] by (simp_all add: span_start_def)
    then show ?thesis by (simp add: block_at_def slab_used_def split: option.splits chunk_use.splits)
  next
    case False
    then have "\<not> (\<exists>u. (\<forall>d. u \<noteq> Direct_of d) \<and> w c = Some u)" using own by blast
    with False show ?thesis by (auto simp: block_at_def split: option.splits chunk_use.splits)
  qed
  then show "block st' ?G T y n \<longleftrightarrow> block st G T y n" by (simp add: block_def)
  assume y: "block st G T y n" "a \<in> bytes y n"
  then obtain c where c: "block_at st G c T y n" by (auto simp: block_def)
  then obtain u where u: "gown G c = Some u" "\<forall>d. u \<noteq> Direct_of d"
    by (auto simp: block_at_def split: option.splits chunk_use.splits)
  have "a \<in> chunk_block c" using block_at_bytes(1) [OF inv c] y(2) by blast
  then show "mem st' a = mem st a" by (rule at(2) [OF inner_memoryI(3) [OF u]])
qed


lemma heap_inv_remap:
  assumes inv: "heap_inv st G M B" and g: "same_globals st st'"
    and same: "\<And>a. a \<in> inner_memory st G \<Longrightarrow> valid st' a \<and> same_at a st st'"
    and hs: "heap_struct st' (G\<lparr>gown := w\<rparr>)" and b: "\<And>T y n. block st' (G\<lparr>gown := w\<rparr>) T y n \<longleftrightarrow> block st G T y n"
    and m: "\<And>T y n a. block st G T y n \<Longrightarrow> a \<in> bytes y n \<Longrightarrow> mem st' a = mem st a"
  shows "heap_inv st' (G\<lparr>gown := w\<rparr>) M B" "live st' (G\<lparr>gown := w\<rparr>) M B T y n \<longleftrightarrow> live st G M B T y n"
proof -
  note I = heap_invD [OF inv]
  have tl: "tlhs st' T = tlhs st T" if "T \<in> gheaps G" for T
    using same [OF inner_memoryI(1) [OF heap_pinned [OF that]]] by (simp add: same_at_def)
  have c: "clear_link st' x = clear_link st x" if x: "block st G T x n" for T x n
    unfolding clear_link_def by (rule load64_same) (use m [OF x] block_word(1) [OF I(1) x] in blast)
  have "mail_ok st' (G\<lparr>gown := w\<rparr>) T (M T)" "batch_ok st' (G\<lparr>gown := w\<rparr>) T (B T)" if T: "T \<in> gheaps G" for T
  proof -
    show "mail_ok st' (G\<lparr>gown := w\<rparr>) T (M T)"
      by (rule mail_ok_same [OF msgs_okD(1) [OF I(3) T]]) (use tl [OF T] b c in auto)
    show "batch_ok st' (G\<lparr>gown := w\<rparr>) T (B T)"
      by (rule batch_ok_same [OF msgs_okD(2) [OF I(3) T]]) (use tl [OF T] b c in auto)
  qed
  moreover have "status_ok (G\<lparr>gown := w\<rparr>)" using I(2) by (simp add: status_ok_def)
  ultimately show "heap_inv st' (G\<lparr>gown := w\<rparr>) M B" using hs msgs_okD(3) [OF I(3)] by (simp add: heap_inv_def msgs_ok_def)
  show "live st' (G\<lparr>gown := w\<rparr>) M B T y n \<longleftrightarrow> live st G M B T y n" by (simp add: live_def b pending_def)
qed


lemma inner_valid:
  assumes inv: "heap_struct st G" and a: "a \<in> inner_memory st G"
  shows "valid st a"
  using a layout_okD(3) [OF heap_structD(3) [OF inv]] vmm_invD(4) [OF heap_structD(1) [OF inv]] struct_chunk [OF inv]
  unfolding inner_memory_def chunk_at_def chunk_block_def by blast

lemma direct_not_inner:
  assumes inv: "heap_struct st G" and c: "gown G c = Some (Direct_of d)" "a \<in> chunk_block c"
  shows "a \<notin> inner_memory st G"
proof
  assume "a \<in> inner_memory st G"
  then consider "a \<in> pinned st G" | e where "e \<in> idle (gpools G)" "a \<in> chunk_block e"
    | e u where "gown G e = Some u" "\<forall>d. u \<noteq> Direct_of d" "a \<in> chunk_block e"
    unfolding inner_memory_def by blast
  then show False
  proof cases
    case 1
    then show ?thesis using layout_okD(4) [OF heap_structD(3) [OF inv]] c by blast
  next
    case 2
    have "c \<noteq> e" using layout_okD(2) [OF heap_structD(3) [OF inv] c(1)] 2(1) by blast
    from chunk_blocks_disjoint [OF struct_chunk [OF inv c(1)] vmm_invD(4) [OF heap_structD(1) [OF inv] 2(1)] this]
    show ?thesis using c(2) 2(2) by blast
  next
    case 3
    then have "c \<noteq> e" using c(1) by auto
    from chunk_blocks_disjoint [OF struct_chunk [OF inv c(1)] struct_chunk [OF inv 3(1)] this]
    show ?thesis using c(2) 3(3) by blast
  qed
qed

text \<open>The 2 MB blocks of the addresses from \<open>d\<close> to \<open>d + t\<close>.\<close>

definition region :: "addr \<Rightarrow> nat \<Rightarrow> addr set" where
  "region d t = {a. unat d \<le> unat a \<and> unat a < unat d + t}"

lemma region_chunk:
  assumes "chunk_base d" "2097152 dvd t" "unat d + t \<le> 2 ^ 47"
  shows "chunk_of a \<in> region d t \<longleftrightarrow> a \<in> region d t"
    "chunk_of a \<in> region d t \<Longrightarrow> x \<in> chunk_block (chunk_of a) \<Longrightarrow> x \<in> region d t"
    "a \<in> region d t \<Longrightarrow> chunk_base (chunk_of a)"
proof -
  obtain q where q: "unat d = 2097152 * q" "0 < q" using assms(1) unat_gt_0 [of d] unfolding chunk_base_def by auto
  obtain k where k: "t = 2097152 * k" using assms(2) by (elim dvdE)
  have r1: "2097152 * q \<le> x div 2097152 * 2097152 \<longleftrightarrow> 2097152 * q \<le> x" for x :: nat
    by (simp add: less_eq_div_iff_mult_less_eq mult.commute)
  have r2: "x div 2097152 * 2097152 < 2097152 * q + 2097152 * k \<longleftrightarrow> x < 2097152 * q + 2097152 * k" for x :: nat
  proof -
    have "x div 2097152 * 2097152 < 2097152 * m \<longleftrightarrow> x < 2097152 * m" for m
      using div_less_iff_less_mult [of 2097152 x m] by (simp add: mult.commute)
    from this [of "q + k"] show ?thesis by (simp add: add_mult_distrib2)
  qed
  show i: "chunk_of a \<in> region d t \<longleftrightarrow> a \<in> region d t" for a
    unfolding region_def q k unat_chunk_of mem_Collect_eq r1 r2 ..
  have base: "chunk_base (chunk_of a)" if "a \<in> region d t" for a
  proof -
    have r: "2097152 * q \<le> unat a" "unat a < 2097152 * (q + k)" using that unfolding region_def q k by simp_all
    have "q \<le> unat a div 2097152" using r(1) by (simp add: less_eq_div_iff_mult_less_eq)
    moreover have "unat a div 2097152 < q + k" using r(2) by (simp add: less_mult_imp_div_less)
    then have "unat (chunk_of a) + 2097152 \<le> 2097152 * (q + k)" unfolding unat_chunk_of by simp
    then have "unat (chunk_of a) + 2097152 \<le> 2 ^ 47" using assms(3) unfolding q k by simp
    moreover have "unat (chunk_of a) \<noteq> 0" using calculation(1) q(2) unfolding unat_chunk_of by simp
    moreover have "unat (chunk_of a) mod 2097152 = 0" unfolding unat_chunk_of by simp
    ultimately show ?thesis unfolding chunk_base_def by auto
  qed
  show "a \<in> region d t \<Longrightarrow> chunk_base (chunk_of a)" by (rule base)
  assume c: "chunk_of a \<in> region d t" and x: "x \<in> chunk_block (chunk_of a)"
  have "chunk_of x = chunk_of a" by (rule chunk_of_block [OF base x]) (use c i in blast)
  then show "x \<in> region d t" using c i [of x] by simp
qed

lemma direct_at_same:
  assumes "direct_at st G d r" "hdrs st' d = hdrs st d" "metas st' (d + 64) = metas st (d + 64)"
    and "\<And>c. gown G c = Some (Direct_of d) \<Longrightarrow> w c = Some (Direct_of d)"
  shows "direct_at st' (G\<lparr>gown := w\<rparr>) d r"
  using assms unfolding direct_at_def by (cases r) simp

lemma direct_part:
  assumes ok: "direct_ok st A" and d: "dD A d = Some r"
  shows "d \<in> direct_memory (dG A)" "d + 64 \<in> direct_memory (dG A)"
proof -
  have "gown (dG A) d = Some (Direct_of d)" using direct_object(4) [OF ok] d by (cases r) auto
  then show "d \<in> direct_memory (dG A)" "d + 64 \<in> direct_memory (dG A)"
    unfolding direct_memory_def by (auto simp: chunk_block_def within_def intro!: exI [of _ "chunk_block d"])
qed

section \<open>A new mapping\<close>

definition add_direct :: "addr \<Rightarrow> nat \<Rightarrow> nat \<Rightarrow> nat \<Rightarrow> alloc_desc \<Rightarrow> alloc_desc" where
  "add_direct d t n off A = A\<lparr>dG := (dG A)\<lparr>gown := (\<lambda>c. if chunk_of c = c \<and> c \<in> region d t then Some (Direct_of d) else gown (dG A) c)\<rparr>,
     dD := (dD A)(d \<mapsto> (t, n, off))\<rparr>"

lemma threads_ok_same:
  assumes "threads_ok st A" "same_globals st st'" "gheaps (dG A') = gheaps (dG A)" "dZ A' = dZ A" "dX A' = dX A"
    and "\<And>T. T \<in> gheaps (dG A) \<Longrightarrow> tlhs st' T = tlhs st T"
  shows "threads_ok st' A'"
proof -
  have "chain (\<lambda>T. tl_next_zombie (tlhs st' T)) p (dZ A) = chain (\<lambda>T. tl_next_zombie (tlhs st T)) p (dZ A)" for p
    by (rule chain_cong) (use assms(6) threads_okD(3) [OF assms(1)] in auto)
  then show ?thesis using assms(1-5) by (simp add: threads_ok_def same_globals_def)
qed


lemma chunk_of_idem: "chunk_of (chunk_of a) = chunk_of a"
  by (simp add: chunk_of_def and.assoc)

lemma api_add_direct:
  assumes inv: "api_inv st A" and k: "keeps {} st st'" and g: "same_globals st st'"
    and d: "chunk_base d" "2097152 dvd t" "unat d + t \<le> 2 ^ 47" "0 < n" "128 \<le> off" "off + n \<le> t" "128 dvd off"
    and new: "\<And>a. a \<in> region d t \<Longrightarrow> \<not> valid st a \<and> valid st' a"
    and hdr: "ch_magic (hdrs st' d) = LZ_CHUNK_MAGIC_V2" "ch_chunk_type (hdrs st' d) = LZ_CHUNK_TYPE_DIRECT"
      "metas st' (d + 64) = MDirect (of_nat t) (of_nat n)"
  defines "A' \<equiv> add_direct d t n off A"
  shows "api_inv st' A'" "unchanged {d + of_nat off} st A st' A'" "object st' A' (d + of_nat off) n"
    "\<not> object st A (d + of_nat off) m"
proof -
  note I = api_invD [OF inv] and rc = region_chunk [OF d(1-3)]
  let ?G = "dG A"
  define w where "w = (\<lambda>c. if chunk_of c = c \<and> c \<in> region d t then Some (Direct_of d) else gown ?G c)"
  have A': "dG A' = ?G\<lparr>gown := w\<rparr>" "dM A' = dM A" "dB A' = dB A" "dD A' = (dD A)(d \<mapsto> (t, n, off))" "dZ A' = dZ A" "dX A' = dX A"
    by (simp_all add: A'_def add_direct_def w_def)
  have in_r: "d \<in> region d t" using d(4,5,6) by (simp add: region_def)
  have none: "gown ?G c = None" if "c \<in> region d t" for c
    using new [OF that] chunk_at_valid [OF struct_chunk [OF I(5)]] by fastforce
  have wn: "w c = Some u \<longleftrightarrow> gown ?G c = Some u" if "\<forall>e. u \<noteq> Direct_of e" for c u using none that by (auto simp: w_def)
  have wd: "w c = Some (Direct_of e) \<longleftrightarrow> (if chunk_of c = c \<and> c \<in> region d t then e = d else gown ?G c = Some (Direct_of e))" for c e
    by (auto simp: w_def)
  have same: "valid st' a \<and> same_at a st st'" if "valid st a" for a using k that by (simp add: keeps_def)
  note inner = inner_valid [OF I(5)]
  have lay: "chunk_at st' c \<and> c \<notin> idle (gpools ?G) \<and> pinned st ?G \<inter> chunk_block c = {}" if c: "w c = Some (Direct_of e)" for c e
  proof (cases "chunk_of c = c \<and> c \<in> region d t")
    case True
    have b: "chunk_base c" using rc(3) [of c] True by simp
    have blk: "x \<in> region d t" if "x \<in> chunk_block c" for x using rc(2) [of c x] True that by simp
    have "chunk_at st' c"
      using b new [OF blk] unfolding chunk_at_def chunk_base_def and_mask_0_iff chunk_block_def by simp
    moreover have "c \<notin> idle (gpools ?G)"
      using chunk_at_valid [OF vmm_invD(4) [OF heap_structD(1) [OF I(5)]]] new True by blast
    moreover have "pinned st ?G \<inter> chunk_block c = {}" using layout_okD(3) [OF heap_structD(3) [OF I(5)]] new [OF blk] by blast
    ultimately show ?thesis by blast
  next
    case False
    then have o: "gown ?G c = Some (Direct_of e)" using c unfolding w_def by (simp only: if_False)
    then show ?thesis
      using chunk_at_keeps [OF struct_chunk [OF I(5) o] k] layout_okD(2,4) [OF heap_structD(3) [OF I(5)]] by blast
  qed
  have get: "lz_rtree_get st' a = lz_rtree_get st a" for a
    by (rule rtree_get_keeps [OF heap_structD(2) [OF I(5)] k]) (use g in \<open>simp_all add: same_globals_def\<close>)
  have idx: "index_ok st' (?G\<lparr>gown := w\<rparr>)"
  proof (rule index_ok_more [OF heap_structD(4) [OF I(5)] get])
    fix c u assume o: "gown ?G c = Some u"
    then have "c \<notin> region d t" using none by auto
    then show "gown (?G\<lparr>gown := w\<rparr>) c = Some u" using o by (simp add: w_def)
  qed
  note R = heap_struct_remap [OF I(5) g same [OF inner] wn lay idx]
  note H = heap_inv_remap [OF I(1) g same [OF inner] R]
  have dok: "direct_ok st' A'"
    unfolding direct_ok_def
  proof (intro conjI allI impI)
    fix e r assume r: "dD A' e = Some r"
    show "direct_at st' (dG A') e r"
    proof (cases "e = d")
      case True
      have "w (chunk_of a) = Some (Direct_of d)" if "a \<in> region d t" for a
        using that rc(1) [of a] by (simp add: w_def chunk_of_idem)
      moreover have "r = (t, n, off)" using r True by (simp add: A')
      ultimately show ?thesis using d hdr unfolding True A' by (simp add: direct_at_def region_def)
    next
      case False
      then have o: "dD A e = Some r" using r A' by simp
      have v: "valid st a" if "a \<in> direct_memory ?G" for a
        using that struct_chunk [OF I(5)] unfolding direct_memory_def chunk_at_def chunk_block_def by blast
      note dp = direct_part [OF I(3) o]
      show ?thesis unfolding A'
        by (rule direct_at_same [OF direct_okD(1) [OF I(3) o]])
           (use same [OF v [OF dp(1)]] same [OF v [OF dp(2)]] none in \<open>auto simp: w_def same_at_def\<close>)
    qed
  next
    fix c e assume "gown (dG A') c = Some (Direct_of e)"
    then show "\<exists>t n off. dD A' e = Some (t, n, off) \<and> unat e \<le> unat c \<and> unat c < unat e + t"
      using direct_okD(2) [OF I(3), of c e] none [OF in_r] direct_object(4) [OF I(3), of d] unfolding A'
      by (auto simp: w_def region_def split: if_splits)
  qed
  have "threads_ok st' A'"
    by (rule threads_ok_same [OF I(4) g]) (use same [OF inner [OF inner_memoryI(1) [OF heap_pinned]]] A' in \<open>auto simp: same_at_def\<close>)
  moreover have "telemetry_inv st'" by (rule telemetry_inv_keeps [OF I(2) k]) (use g in \<open>simp add: same_globals_def\<close>)
  ultimately show inv': "api_inv st' A'" using H(1) dok by (simp add: api_inv_def A')
  have off: "d + of_nat off \<in> region d t" using unat_add_small [of d off] d(3,4,6) by (simp add: region_def)
  have no_d: "dD A d = None" using none [OF in_r] direct_object(4) [OF I(3), of d] by (cases "dD A d") auto
  show no: "\<not> object st A (d + of_nat off) m" for m
    using object_range(2,4) [OF inv, of "d + of_nat off" m] new [OF off] by (auto simp: bytes_def)
  show "object st' A' (d + of_nat off) n" unfolding object_def mapped_object_def A' by auto
  have l: "live st' (dG A') (dM A') (dB A') T p m \<longleftrightarrow> live st (dG A) (dM A) (dB A) T p m" for T p m unfolding A' by (rule H(2))
  have dd: "dD A' e = Some (t', m, o') \<and> p = e + of_nat o' \<longleftrightarrow> dD A e = Some (t', m, o') \<and> p = e + of_nat o'"
    if "p \<noteq> d + of_nat off" for p m e t' o'
    by (cases "e = d") (use no_d that in \<open>auto simp: A'\<close>)
  have "mapped_object A' p m \<longleftrightarrow> mapped_object A p m" if "p \<noteq> d + of_nat off" for p m
    unfolding mapped_object_def dd [OF that] ..
  moreover have "mem st' a = mem st a" if "object st A p m" "a \<in> bytes p m" for p m a
    using same [OF object_range(4) [OF inv that]] by (simp add: same_at_def)
  ultimately show "unchanged {d + of_nat off} st A st' A'" using l unfolding unchanged_def by (simp add: A')
qed


section \<open>The blocks of a mapping in the index\<close>

lemma heap_inv_record:
  assumes ok: "mmap_ok env" and inv: "heap_inv st G M B" and c: "gown G c = Some (Direct_of d)" and m: "m = 0 \<or> m = d"
  shows "\<exists>st'. lz_rtree_set env c m st = Some st' \<and> heap_inv st' G M B \<and> client_step {} st G M B st' G M B \<and> trace_ext st st' \<and>
    (\<forall>p. m = 0 \<longrightarrow> lz_rtree_get st' p = (if block_of p = block_of c then Some 0 else lz_rtree_get st p))"
proof -
  note I = heap_invD [OF inv]
  obtain st' where st': "lz_rtree_set env c m st = Some st'" "heap_struct st' G" "evolves {} st G st' G"
    "\<forall>p. lz_rtree_get st' p = (if \<not> rtree_refuses env c m st \<and> block_of p = block_of c then Some m else lz_rtree_get st p)"
    using struct_record [OF ok I(1) c, of m] m by auto
  have "heap_inv st' G M B" by (rule heap_inv_evolves [OF inv st'(2) I(2) st'(3)]) simp
  then show ?thesis
    using st'(1,4) evolves_client [OF st'(3)] trD [OF rtree_set_tr(1) st'(1)] by (auto simp: rtree_refuses_def)
qed

lemma record_blocks:
  assumes ok: "mmap_ok env" and m: "m = 0 \<or> m = d" and k: "k * 2 ^ 21 < 2 ^ 64"
    and own: "\<And>i. i < k \<Longrightarrow> gown G (d + of_nat (i * 2 ^ 21)) = Some (Direct_of d)"
  shows "j \<le> k \<Longrightarrow> heap_inv st G M B \<Longrightarrow>
    \<exists>st'. for_blocks (\<lambda>off. lz_rtree_set env (d + off) m) (of_nat (k * 2 ^ 21)) (of_nat (j * 2 ^ 21)) st = Some st' \<and>
      heap_inv st' G M B \<and> client_step {} st G M B st' G M B \<and> trace_ext st st' \<and>
      (m = 0 \<longrightarrow> (\<forall>p. lz_rtree_get st' p =
         (if \<exists>i. j \<le> i \<and> i < k \<and> block_of p = block_of (d + of_nat (i * 2 ^ 21)) then Some 0 else lz_rtree_get st p)))"
proof (induction "k - j" arbitrary: j st)
  case 0
  then have "j = k" by simp
  then show ?case using 0 by (auto simp: for_blocks_done)
next
  case (Suc n)
  then have j: "j < k" and n: "n = k - Suc j" by simp_all
  obtain st1 where st1: "lz_rtree_set env (d + of_nat (j * 2 ^ 21)) m st = Some st1" "heap_inv st1 G M B"
    "client_step {} st G M B st1 G M B" "trace_ext st st1"
    "\<forall>p. m = 0 \<longrightarrow> lz_rtree_get st1 p = (if block_of p = block_of (d + of_nat (j * 2 ^ 21)) then Some 0 else lz_rtree_get st p)"
    using heap_inv_record [OF ok Suc.prems(2) own [OF j] m] by blast
  obtain st2 where st2: "for_blocks (\<lambda>off. lz_rtree_set env (d + off) m) (of_nat (k * 2 ^ 21)) (of_nat (Suc j * 2 ^ 21)) st1 = Some st2"
    "heap_inv st2 G M B" "client_step {} st1 G M B st2 G M B" "trace_ext st1 st2"
    "m = 0 \<longrightarrow> (\<forall>p. lz_rtree_get st2 p =
       (if \<exists>i. Suc j \<le> i \<and> i < k \<and> block_of p = block_of (d + of_nat (i * 2 ^ 21)) then Some 0 else lz_rtree_get st1 p))"
    using Suc.hyps(1) [OF n _ st1(2)] j by auto
  have get: "lz_rtree_get st2 p = (if \<exists>i. j \<le> i \<and> i < k \<and> block_of p = block_of (d + of_nat (i * 2 ^ 21)) then Some 0 else lz_rtree_get st p)"
    if "m = 0" for p
  proof (cases "block_of p = block_of (d + of_nat (j * 2 ^ 21))")
    case True
    then have "lz_rtree_get st2 p = Some 0" using st2(5) st1(5) that by simp
    then show ?thesis using True j by auto
  next
    case False
    then have e: "(\<exists>i. j \<le> i \<and> i < k \<and> block_of p = block_of (d + of_nat (i * 2 ^ 21))) \<longleftrightarrow>
        (\<exists>i. Suc j \<le> i \<and> i < k \<and> block_of p = block_of (d + of_nat (i * 2 ^ 21)))" by (metis Suc_leD le_antisym not_less_eq_eq)
    have g1: "lz_rtree_get st1 p = lz_rtree_get st p" using st1(5) that False by simp
    show ?thesis unfolding e g1 [symmetric] using st2(5) that by blast
  qed
  have "client_step {} st G M B st2 G M B" using client_step_trans [OF st1(3) st2(3)] by simp
  moreover have "for_blocks (\<lambda>off. lz_rtree_set env (d + off) m) (of_nat (k * 2 ^ 21)) (of_nat (j * 2 ^ 21)) st = Some st2"
    using st1(1) st2(1) by (subst for_blocks_step [OF j k]) simp
  ultimately show ?case using st2(2) get trace_ext_trans [OF st1(4) st2(4)] by blast
qed

lemma region_block:
  assumes "chunk_base d" "2097152 dvd t" "unat d + t \<le> 2 ^ 47" "i < t div 2097152"
  shows "d + of_nat (i * 2 ^ 21) \<in> region d t" "chunk_of (d + of_nat (i * 2 ^ 21)) = d + of_nat (i * 2 ^ 21)"
    "unat (d + of_nat (i * 2 ^ 21)) = unat d + i * 2 ^ 21"
proof -
  obtain k where k: "t = 2097152 * k" using assms(2) by (elim dvdE)
  have i: "i * 2 ^ 21 < t" using assms(4) unfolding k by simp
  show u: "unat (d + of_nat (i * 2 ^ 21)) = unat d + i * 2 ^ 21" by (rule unat_add_small) (use i assms(3) in simp)
  show "d + of_nat (i * 2 ^ 21) \<in> region d t" using i by (simp only: region_def mem_Collect_eq u) simp
  obtain q where q: "unat d = 2097152 * q" using assms(1) unfolding chunk_base_def by auto
  have "unat (chunk_of (d + of_nat (i * 2 ^ 21))) = unat (d + of_nat (i * 2 ^ 21))"
    unfolding unat_chunk_of u q by simp
  then show "chunk_of (d + of_nat (i * 2 ^ 21)) = d + of_nat (i * 2 ^ 21)" by (rule unsigned_word_eqI)
qed

lemma region_covered:
  assumes "chunk_base d" "2097152 dvd t" "unat d + t \<le> 2 ^ 47" "a \<in> region d t"
  obtains i where "i < t div 2097152" "chunk_of a = d + of_nat (i * 2 ^ 21)"
proof -
  obtain k where k: "t = 2097152 * k" using assms(2) by (elim dvdE)
  obtain q where q: "unat d = 2097152 * q" using assms(1) unfolding chunk_base_def by auto
  define i where "i = unat a div 2097152 - q"
  have r: "2097152 * q \<le> unat a" "unat a < 2097152 * (q + k)" using assms(4) unfolding region_def q k by simp_all
  have "q \<le> unat a div 2097152" using r(1) by (simp add: less_eq_div_iff_mult_less_eq mult.commute)
  moreover have "unat a div 2097152 < q + k" using r(2) by (simp add: less_mult_imp_div_less mult.commute)
  ultimately have i: "i < k" "unat a div 2097152 = q + i" by (auto simp: i_def)
  have i': "i < t div 2097152" using i(1) unfolding k by simp
  have "unat (chunk_of a) = unat (d + of_nat (i * 2 ^ 21))"
    unfolding unat_chunk_of region_block(3) [OF assms(1-3) i'] q i(2) by simp
  then have "chunk_of a = d + of_nat (i * 2 ^ 21)" by (rule unsigned_word_eqI)
  then show thesis using that i' by blast
qed


section \<open>Allocation\<close>

text \<open>The common end of \<open>lz_malloc\<close> and \<open>lz_memalign\<close> for large requests.\<close>

definition direct_alloc :: "os_env \<Rightarrow> u64 \<Rightarrow> u64 \<Rightarrow> u64 \<Rightarrow> lz_state \<Rightarrow> (addr \<times> lz_state) option" where
  "direct_alloc env total_bytes off sz st =
     (let (p, st) = lz_sys_alloc_huge_aligned env total_bytes st
      in if p = 0 then Some (0, st) else do { st \<leftarrow> format_direct env p total_bytes sz st; Some (p + off, st) })"

lemma huge_aligned_trace:
  assumes "lz_sys_alloc_huge_aligned env n st = (p, st')"
  shows "trace_ext st st'" "mmap_ok env \<Longrightarrow> unat n + 2097152 < 2 ^ 64 \<Longrightarrow> p = 0 \<Longrightarrow> refused st st'"
proof -
  obtain m s where m: "sys_mmap env (n + LZ_HUGE_PAGE_SIZE) st = (m, s)" by fastforce
  have "trace_ext s st'"
    using assms m by (auto simp: lz_sys_alloc_huge_aligned_def Let_def trace_ext_def sys_munmap_def sys_madvise_def split: option.splits if_splits)
  then show "trace_ext st st'" by (rule trace_ext_trans [OF sys_trace(1) [OF m]])
  assume "mmap_ok env" "unat n + 2097152 < 2 ^ 64" "p = 0"
  then have "os_mmap env (trace st) (n + LZ_HUGE_PAGE_SIZE) = None" using huge_aligned_spec(3) [OF _ _ assms] by simp
  then have "m = None" "st' = s" using m assms by (auto simp: sys_mmap_def lz_sys_alloc_huge_aligned_def Let_def)
  then show "refused st st'" using sys_trace(4) m by simp
qed

lemma direct_mapped:
  assumes ok: "mmap_ok env" and n: "unat n + 2097152 < 2 ^ 64" "2097152 dvd unat n" "0 < unat n"
    and run: "lz_sys_alloc_huge_aligned env n st = (p, st1)" and p: "p \<noteq> 0"
  shows "chunk_base p" "unat p + unat n \<le> 2 ^ 47" "a \<in> region p (unat n) \<longleftrightarrow> within p n a"
proof -
  note h = huge_aligned_spec(4) [OF ok n(1) run p]
  have "2097152 \<le> unat n" using n(2,3) by (auto elim!: dvdE)
  then show "chunk_base p" using h p unfolding chunk_base_def and_mask_0_iff by simp
  show b: "unat p + unat n \<le> 2 ^ 47" using h by simp
  show "a \<in> region p (unat n) \<longleftrightarrow> within p n a" using b by (subst within_iff) (simp_all add: region_def)
qed

lemma direct_alloc_spec:
  assumes ok: "mmap_ok env" and inv: "api_inv st A" and n: "unat total_bytes + 2097152 < 2 ^ 64" "2097152 dvd unat total_bytes"
    and sz: "0 < unat sz" "128 \<le> unat off" "unat off + unat sz \<le> unat total_bytes" "128 dvd unat off"
  shows "\<exists>p st' A'. direct_alloc env total_bytes off sz st = Some (p, st') \<and> api_inv st' A' \<and> trace_ext st st' \<and>
    (if p = 0 then unchanged {} st A st' A' \<and> refused st st'
     else unchanged {p} st A st' A' \<and> object st' A' p (unat sz) \<and> (\<forall>m. \<not> object st A p m) \<and>
       (\<forall>a\<in>bytes p (unat sz). mem st' a = 0) \<and> (\<exists>d. chunk_base d \<and> unat p = unat d + unat off))"
proof -
  let ?t = "unat total_bytes"
  obtain p st1 where h: "lz_sys_alloc_huge_aligned env total_bytes st = (p, st1)" by fastforce
  note H = huge_aligned_spec [OF ok n(1) h] and ht = huge_aligned_trace [OF h]
  show ?thesis
  proof (cases "p = 0")
    case True
    then have "direct_alloc env total_bytes off sz st = Some (0, st1)" using h by (simp add: direct_alloc_def)
    then show ?thesis using api_grow [OF inv H(2,1)] ht(1) ht(2) [OF ok n(1) True] by auto
  next
    case False
    have t0: "0 < ?t" using sz by simp
    note D = direct_mapped [OF ok n t0 h False]
    let ?h = "(hdrs st1 p)\<lparr>ch_magic := LZ_CHUNK_MAGIC_V2, ch_owning_tlh := 0, ch_chunk_type := LZ_CHUNK_TYPE_DIRECT,
      ch_node_id := 0, ch_canary := 0, ch_next := 0\<rparr>"
    define st2 where "st2 = st1\<lparr>hdrs := (hdrs st1)(p := ?h\<lparr>ch_checksum := lz_calc_checksum ?h\<rparr>), metas := (metas st1)(p + 64 := MDirect total_bytes sz)\<rparr>"
    have reg: "p \<in> region p ?t" "p + 64 \<in> region p ?t"
    proof -
      have "unat (p + 64) = unat p + 64" using D(1) unat_add_small [of p 64] by (simp add: chunk_base_def)
      then show "p \<in> region p ?t" "p + 64 \<in> region p ?t" using sz by (simp_all add: region_def)
    qed
    have v: "valid st2 = valid st1" by (simp add: st2_def valid_def fun_eq_iff)
    have new: "\<not> valid st a \<and> valid st1 a" if "a \<in> region p ?t" for a using H(5,6) [OF False] D(3) that by blast
    have k2: "keeps {} st st2"
    proof -
      have "same_at a st st2" if "valid st a" for a
      proof -
        have "a \<noteq> p" "a \<noteq> p + 64" using that new reg by auto
        then show ?thesis using H(2) that by (simp add: keeps_def same_at_def st2_def)
      qed
      then show ?thesis using H(2) unfolding keeps_def v by blast
    qed
    have g2: "same_globals st st2" using H(1) by (simp add: same_globals_def st2_def)
    let ?A = "add_direct p ?t (unat sz) (unat off) A"
    note add = api_add_direct [OF inv k2 g2 D(1) n(2) D(2) sz]
    have a2: "api_inv st2 ?A" "unchanged {p + of_nat (unat off)} st A st2 ?A" "object st2 ?A (p + of_nat (unat off)) (unat sz)"
      "\<And>m. \<not> object st A (p + of_nat (unat off)) m"
      by (rule add; use new v in \<open>simp add: st2_def\<close>)+
    note I2 = api_invD [OF a2(1)]
    define k where "k = ?t div 2097152"
    have k: "?t = k * 2 ^ 21" using n(2) by (auto simp: k_def)
    have k64: "k * 2 ^ 21 < 2 ^ 64" using n(1) unfolding k by simp
    have own: "gown (dG ?A) (p + of_nat (i * 2 ^ 21)) = Some (Direct_of p)" if "i < k" for i
      using region_block [OF D(1) n(2) D(2)] that unfolding k_def by (simp add: add_direct_def)
    obtain st3 where st3: "for_blocks (\<lambda>off. lz_rtree_set env (p + off) p) (of_nat (k * 2 ^ 21)) (of_nat (0 * 2 ^ 21)) st2 = Some st3"
      "heap_inv st3 (dG ?A) (dM ?A) (dB ?A)" "client_step {} st2 (dG ?A) (dM ?A) (dB ?A) st3 (dG ?A) (dM ?A) (dB ?A)" "trace_ext st2 st3"
      using record_blocks [OF ok disjI2 [OF refl] k64 own le0 I2(1)] by blast
    have loop: "for_blocks (\<lambda>off. lz_rtree_set env (p + off) p) total_bytes 0 st2 = Some st3" using st3(1) unfolding k [symmetric] by simp
    have a3: "api_inv st3 ?A" "unchanged {} st2 ?A st3 ?A" using api_client [OF a2(1) st3(2,3)] by simp_all
    have fmt: "format_direct env p total_bytes sz st1 = Some st3"
      using new [OF reg(1)] new [OF reg(2)] loop
      by (simp add: format_direct_def upd_hdr_def set_meta_def valid_def st2_def)
    have u: "unchanged {p + off} st A st3 ?A" using unchanged_trans [OF a2(2) a3(2)] by simp
    have o: "object st3 ?A (p + off) (unat sz)" using unchangedD(2) [OF a3(2)] a2(3) by simp
    have uo: "unat (p + off) = unat p + unat off" using unat_add_small [of p "unat off"] D(2) sz by simp
    have z: "mem st3 a = 0" if "a \<in> bytes (p + off) (unat sz)" for a
    proof -
      have "a \<in> region p ?t" using that sz(3) uo by (auto simp: bytes_def region_def)
      then have "mem st1 a = 0" using H(6) [OF False] D(3) by blast
      then have "mem st2 a = 0" by (simp add: st2_def)
      then show ?thesis using unchangedD(3) [OF a3(2) _ a2(3)] that by simp
    qed
    have p0: "p + off \<noteq> 0" by (rule object_range(1) [OF a3(1) o])
    have tr: "trace_ext st st3" using trace_ext_trans [OF ht(1) trace_ext_trans [OF trace_ext_same st3(4)]] by (simp add: st2_def)
    have run: "direct_alloc env total_bytes off sz st = Some (p + off, st3)" using h False fmt by (simp add: direct_alloc_def)
    show ?thesis
      by (intro exI [of _ "p + off"] exI [of _ st3] exI [of _ ?A]) (use run a3(1) tr p0 u o a2(4) z uo D(1) in auto)
  qed
qed


section \<open>Giving a mapping back\<close>

definition drop_direct :: "addr \<Rightarrow> alloc_desc \<Rightarrow> alloc_desc" where
  "drop_direct d A = A\<lparr>dG := (dG A)\<lparr>gown := (\<lambda>c. if gown (dG A) c = Some (Direct_of d) then None else gown (dG A) c)\<rparr>,
     dD := (dD A)(d := None)\<rparr>"

lemma api_drop_direct:
  assumes inv: "api_inv st A" and d: "dD A d = Some (t, n, off)"
    and clear: "\<And>a. a \<in> region d t \<Longrightarrow> lz_rtree_get st a = Some 0"
  defines "A' \<equiv> drop_direct d A" and "st' \<equiv> sys_munmap d (of_nat t) st"
  shows "api_inv st' A'" "unchanged {d + of_nat off} st A st' A'" "\<not> object st' A' (d + of_nat off) m"
proof -
  note I = api_invD [OF inv]
  note r = direct_atD [OF direct_okD(1) [OF I(3) d]]
  note rc = region_chunk [OF r(1-3)]
  let ?G = "dG A"
  define w where "w = (\<lambda>c. if gown ?G c = Some (Direct_of d) then None else gown ?G c)"
  have A': "dG A' = ?G\<lparr>gown := w\<rparr>" "dM A' = dM A" "dB A' = dB A" "dD A' = (dD A)(d := None)" "dZ A' = dZ A" "dX A' = dX A"
    by (simp_all add: A'_def drop_direct_def w_def)
  have wn: "w c = Some u \<longleftrightarrow> gown ?G c = Some u" if "u \<noteq> Direct_of d" for c u using that by (simp add: w_def)
  have ut: "unat (of_nat t :: u64) = t" using r(3) by (simp add: unsigned_of_nat take_bit_nat_eq_self)
  have v: "valid st' a \<longleftrightarrow> valid st a \<and> a \<notin> region d t" for a
  proof -
    have "within d (of_nat t) a \<longleftrightarrow> a \<in> region d t" using r(3) by (subst within_iff) (auto simp: ut region_def)
    then show ?thesis by (auto simp: st'_def sys_munmap_def valid_def)
  qed
  have sa: "same_at a st st'" for a by (simp add: same_at_def st'_def sys_munmap_def)
  have g: "same_globals st st'" unfolding st'_def by (rule sys_munmap_globals)
  have reg: "gown ?G (chunk_of a) = Some (Direct_of d)" if "a \<in> region d t" for a by (rule r(10)) (use that in \<open>simp_all add: region_def\<close>)
  have same: "valid st' a \<and> same_at a st st'" if "a \<in> inner_memory st ?G" for a
    using inner_valid [OF I(5) that] direct_not_inner [OF I(5) reg in_own_chunk] that sa v by blast
  have out: "a \<notin> region d t" if "gown ?G c = Some (Direct_of e)" "e \<noteq> d" "a \<in> chunk_block c" for c e a
    using chunk_of_block [OF struct_base [OF I(5) that(1)] that(3)] that(1,2) reg [of a] by auto
  have lay: "chunk_at st' c \<and> c \<notin> idle (gpools ?G) \<and> pinned st ?G \<inter> chunk_block c = {}" if c: "w c = Some (Direct_of e)" for c e
  proof -
    have o: "gown ?G c = Some (Direct_of e)" "e \<noteq> d" using c by (auto simp: w_def split: if_splits)
    then show ?thesis
      using struct_chunk [OF I(5) o(1)] out [OF o] v layout_okD(4) [OF heap_structD(3) [OF I(5)] _ o(1)] layout_okD(2) [OF heap_structD(3) [OF I(5)] o(1)]
      unfolding chunk_at_def chunk_block_def by blast
  qed
  have get: "lz_rtree_get st' a = lz_rtree_get st a" for a
  proof (cases "g_rtree_root st (rtree_l1_idx a) = 0")
    case True
    then show ?thesis using g by (simp add: lz_rtree_get_def same_globals_def)
  next
    case False
    then have "g_rtree_root st (rtree_l1_idx a) + 8 * rtree_l2_idx a \<in> pinned st ?G"
      using leaf_entry_within rtree_idx_bounds(1) [of a] unfolding pinned_def by blast
    then have "valid st' (g_rtree_root st (rtree_l1_idx a) + 8 * rtree_l2_idx a)" using same [OF inner_memoryI(1)] by blast
    moreover have "leaves st' = leaves st" by (simp add: st'_def sys_munmap_def)
    ultimately show ?thesis using g v by (simp add: lz_rtree_get_def same_globals_def Let_def)
  qed
  have idx: "index_ok st' (?G\<lparr>gown := w\<rparr>)"
    unfolding index_ok_def get
  proof (intro allI impI)
    fix a :: addr assume "unat a < 2 ^ 48"
    then obtain x where x: "lz_rtree_get st a = Some x" "x \<noteq> 0 \<Longrightarrow> \<exists>u. gown ?G (chunk_of a) = Some u \<and> x = use_header (chunk_of a) u"
      using heap_structD(4) [OF I(5)] unfolding index_ok_def by blast
    have "w (chunk_of a) = gown ?G (chunk_of a)" if "x \<noteq> 0"
    proof -
      have "a \<notin> region d t" using clear [of a] x(1) that by auto
      moreover have "unat d \<le> unat (chunk_of a) \<and> unat (chunk_of a) < unat d + t" if "gown ?G (chunk_of a) = Some (Direct_of d)"
        using direct_okD(2) [OF I(3) that] d by auto
      ultimately show ?thesis using rc(1) [of a] by (auto simp: w_def region_def)
    qed
    then show "\<exists>v. lz_rtree_get st a = Some v \<and>
        (v \<noteq> 0 \<longrightarrow> (\<exists>u. gown (?G\<lparr>gown := w\<rparr>) (chunk_of a) = Some u \<and> v = use_header (chunk_of a) u))"
      using x by (intro exI [of _ x]) auto
  qed
  have wn': "w c = Some u \<longleftrightarrow> gown ?G c = Some u" if "\<forall>e. u \<noteq> Direct_of e" for c u using wn that by blast
  note R = heap_struct_remap [OF I(5) g same wn' lay idx]
  note H = heap_inv_remap [OF I(1) g same R]
  have dok: "direct_ok st' A'"
    unfolding direct_ok_def
  proof (intro conjI allI impI)
    fix e x assume x: "dD A' e = Some x"
    then have o: "dD A e = Some x" "e \<noteq> d" using A' by (auto split: if_splits)
    show "direct_at st' (dG A') e x" unfolding A'
      by (rule direct_at_same [OF direct_okD(1) [OF I(3) o(1)]]) (use sa o(2) in \<open>simp_all add: same_at_def w_def\<close>)
  next
    fix c e assume "gown (dG A') c = Some (Direct_of e)"
    then have "gown ?G c = Some (Direct_of e)" "e \<noteq> d" by (auto simp: A' w_def split: if_splits)
    then show "\<exists>t n off. dD A' e = Some (t, n, off) \<and> unat e \<le> unat c \<and> unat c < unat e + t"
      using direct_okD(2) [OF I(3)] by (simp add: A')
  qed
  have "threads_ok st' A'" by (rule threads_ok_same [OF I(4) g]) (use sa A' in \<open>auto simp: same_at_def\<close>)
  moreover have "telemetry_inv st'"
  proof -
    have "valid st' a" if "g_telemetry_matrix st \<noteq> 0" "within (g_telemetry_matrix st) 262144 a" for a
      using same [OF inner_memoryI(1)] that unfolding pinned_def by blast
    then show ?thesis using I(2) g by (auto simp: telemetry_inv_def same_globals_def)
  qed
  ultimately show inv': "api_inv st' A'" using H(1) dok by (simp add: api_inv_def A')
  have l: "live st' (dG A') (dM A') (dB A') T p m \<longleftrightarrow> live st (dG A) (dM A) (dB A) T p m" for T p m unfolding A' by (rule H(2))
  have dd: "dD A' e = Some (t', m, o') \<and> p = e + of_nat o' \<longleftrightarrow> dD A e = Some (t', m, o') \<and> p = e + of_nat o'"
    if "p \<noteq> d + of_nat off" for p m e t' o'
    by (cases "e = d") (use d that in \<open>auto simp: A'\<close>)
  have "mapped_object A' p m \<longleftrightarrow> mapped_object A p m" if "p \<noteq> d + of_nat off" for p m
    unfolding mapped_object_def dd [OF that] ..
  moreover have "mem st' = mem st" by (simp add: st'_def sys_munmap_def)
  ultimately show "unchanged {d + of_nat off} st A st' A'" using l unfolding unchanged_def by (simp add: A')
  have bt: "d + of_nat off \<in> region d t" using direct_object(1) [OF I(3) d] r(4,6) by (simp add: region_def)
  show "\<not> object st' A' (d + of_nat off) m"
    using object_range(2,4) [OF inv', of "d + of_nat off" m] v bt by (auto simp: bytes_def)
qed

end
