(* ===== verification/Api_Calls.thy ===== *)
theory Api_Calls
  imports Api_Direct
begin

text \<open>
  The functions of \<open>src/src/hooks/lzmalloc.c\<close>, each with what it does to the objects of the program:
  what it returns, which objects appear and disappear, and that everything else stays as it is.
\<close>

section \<open>malloc\<close>

text \<open>A call that returns the address of a new object of \<open>n\<close> bytes, or NULL after the system refused memory.\<close>

definition new_object :: "lz_state \<Rightarrow> alloc_desc \<Rightarrow> addr \<Rightarrow> nat \<Rightarrow> lz_state \<Rightarrow> alloc_desc \<Rightarrow> bool" where
  "new_object st A p n st' A' \<longleftrightarrow> api_inv st' A' \<and> trace_ext st st' \<and>
     (if p = 0 then unchanged {} st A st' A' \<and> refused st st'
      else unchanged {p} st A st' A' \<and> object st' A' p n \<and> (\<forall>m. \<not> object st A p m))"

lemma new_objectD:
  assumes "new_object st A p n st' A'"
  shows "api_inv st' A'" "trace_ext st st'" "p = 0 \<Longrightarrow> unchanged {} st A st' A'" "p = 0 \<Longrightarrow> refused st st'"
    "p \<noteq> 0 \<Longrightarrow> unchanged {p} st A st' A'" "p \<noteq> 0 \<Longrightarrow> object st' A' p n" "p \<noteq> 0 \<Longrightarrow> \<not> object st A p m"
  using assms unfolding new_object_def by auto

lemma new_object_after:
  assumes u: "unchanged {} st A st1 A1" "trace_ext st st1" and n: "new_object st1 A1 p n st2 A2"
  shows "new_object st A p n st2 A2"
  using n unchanged_trans [OF u(1)] unchangedD(2) [OF u(1)] trace_ext_trans [OF u(2)] refused_ext(1) [OF u(2)]
  unfolding new_object_def by auto

lemma live_not_mapped:
  assumes inv: "api_inv st A" and l: "live_in st A T p n"
  shows "\<not> mapped_object A p m"
proof
  assume "mapped_object A p m"
  then obtain d tt off where d: "dD A d = Some (tt, m, off)" "p = d + of_nat off" by (auto simp: mapped_object_def)
  have "object st A p n" using l by (auto simp: object_def)
  then have "p \<in> bytes p n" using object_range(2) [OF inv] by (simp add: bytes_def)
  from live_bytes [OF api_invD(5) [OF inv] l this] show False
    using direct_object(5) [OF api_invD(3) [OF inv] d(1)] d(2) by auto
qed

lemma handed_out_new:
  assumes inv: "api_inv st A" and h: "handed_out st (dG A) (dM A) (dB A) st' G' M' B' T p n"
    and tr: "trace_ext st st'" and z: "p = 0 \<longrightarrow> refused st st'"
  shows "new_object st A p n st' (A\<lparr>dG := G', dM := M', dB := B'\<rparr>)"
proof -
  let ?A = "A\<lparr>dG := G', dM := M', dB := B'\<rparr>"
  have H: "heap_inv st' G' M' B'" "client_step {p} st (dG A) (dM A) (dB A) st' G' M' B'"
    "p \<noteq> 0 \<Longrightarrow> \<not> live_in st A U p m" "p \<noteq> 0 \<Longrightarrow> live st' G' M' B' T p n" for U m
    using h by (auto simp: handed_out_def)
  note a = api_client [OF inv H(1,2)]
  have "\<not> object st A p m" if "p \<noteq> 0" for m
  proof
    assume o: "object st A p m"
    then have "mapped_object A p m" using H(3) [OF that] by (auto simp: object_def)
    then have "mapped_object ?A p m" by (simp add: mapped_object_def)
    then show False using live_not_mapped [OF a(1), of T p n] H(4) [OF that] by simp
  qed
  moreover have "object st' ?A p n" if "p \<noteq> 0" using H(4) [OF that] by (auto simp: object_def)
  ultimately show ?thesis
    unfolding new_object_def using a tr z unchanged_null [OF _ inv a(1)] by auto
qed

text \<open>The size of the object a request of \<open>n\<close> bytes gets.\<close>

definition granted :: "nat \<Rightarrow> nat" where
  "granted n = (if n \<le> 32768 then class_bytes (unat (lz_size_to_class (of_nat (max n 1))))
     else if n \<le> 1048576 then 4096 * ((n + 4095) div 4096) else n)"

lemma granted_bounds: "n \<le> granted n" "0 < granted n"
proof -
  have "n \<le> granted n \<and> 0 < granted n"
  proof (cases "n \<le> 32768")
    case True
    have u: "unat (of_nat (max n 1) :: u64) = max n 1" using True by (simp add: unsigned_of_nat take_bit_nat_eq_self)
    have "0 < (of_nat (max n 1) :: u64)" "(of_nat (max n 1) :: u64) \<le> LZ_MAX_SLAB_OBJ_SIZE"
      using True u by (simp_all add: word_less_nat_alt word_le_nat_alt)
    from size_class_bounds(2) [OF this] show ?thesis using True unfolding u granted_def by simp
  next
    case False
    moreover have "n \<le> 4096 * ((n + 4095) div 4096)" by linarith
    ultimately show ?thesis unfolding granted_def by (simp add: div_greater_zero_iff)
  qed
  then show "n \<le> granted n" "0 < granted n" by blast+
qed

lemma direct_total:
  assumes "unat off + unat sz + 2097151 < 2 ^ 63"
  defines "tot \<equiv> LZ_ALIGN_UP (off + sz) LZ_HUGE_PAGE_SIZE"
  shows "unat tot + 2097152 < 2 ^ 64" "2097152 dvd unat tot" "unat off + unat sz \<le> unat tot"
proof -
  have u: "unat (off + sz) = unat off + unat sz" using assms(1) by (simp add: unat_word_ariths)
  have "unat tot = (unat off + unat sz + (2 ^ 21 - 1)) div 2 ^ 21 * 2 ^ 21"
    unfolding tot_def align_up_huge_wrap u using assms(1) by simp
  moreover have "(unat off + unat sz + (2 ^ 21 - 1)) div 2 ^ 21 * 2 ^ 21 \<le> unat off + unat sz + (2 ^ 21 - 1)" by simp
  ultimately show "unat tot + 2097152 < 2 ^ 64" "2097152 dvd unat tot" using assms(1) by simp_all
  show "unat off + unat sz \<le> unat tot"
    using \<open>unat tot = _\<close> round_up_ge [of "2 ^ 21" "unat off + unat sz"] by simp
qed

text \<open>A call that returns a result with \<open>Q\<close>; it may trap or fault only when \<open>N\<close>.\<close>

definition returns_or :: "bool \<Rightarrow> 'a option \<Rightarrow> ('a \<Rightarrow> bool) \<Rightarrow> bool" where
  "returns_or N res Q \<longleftrightarrow> (case res of None \<Rightarrow> N | Some r \<Rightarrow> Q r)"

lemma returns_orI: "res = Some r \<Longrightarrow> Q r \<Longrightarrow> returns_or N res Q"
  by (simp add: returns_or_def)

lemma returns_or_mono: "returns_or N res Q \<Longrightarrow> (N \<Longrightarrow> N') \<Longrightarrow> (\<And>r. Q r \<Longrightarrow> Q' r) \<Longrightarrow> returns_or N' res Q'"
  by (auto simp: returns_or_def split: option.splits)

lemma returns_or_bind:
  "returns_or N m Q \<Longrightarrow> (N \<Longrightarrow> N') \<Longrightarrow> (\<And>r. m = Some r \<Longrightarrow> Q r \<Longrightarrow> returns_or N' (f r) Q') \<Longrightarrow> returns_or N' (m \<bind> f) Q'"
  by (cases m) (auto simp: returns_or_def)

lemma ensure_then:
  assumes ok: "mmap_ok env" and inv: "api_inv st A" and t: "t \<notin> dX A"
    and k: "\<And>st1 A1. api_inv st1 A1 \<Longrightarrow> unchanged {} st A st1 A1 \<Longrightarrow> trace_ext st st1 \<Longrightarrow> tls_tlh_ptr st1 t \<in> gheaps (dG A1) \<Longrightarrow>
      \<exists>r. f st1 = Some r \<and> Q r"
  shows "returns_or (no_heap env t st) (ensure_tls_init env t st \<bind> f) Q"
proof (cases "no_heap env t st")
  case True
  then show ?thesis using ensure_tls_spec [OF ok inv t] by (simp add: returns_or_def)
next
  case False
  then obtain st1 A1 where "ensure_tls_init env t st = Some st1" "api_inv st1 A1" "unchanged {} st A st1 A1"
    "tls_tlh_ptr st1 t \<in> gheaps (dG A1)" "trace_ext st st1"
    using ensure_tls_spec [OF ok inv t] by auto
  then show ?thesis using k [of st1 A1] by (auto simp: returns_or_def)
qed

lemma small_alloc:
  assumes ok: "mmap_ok env" and inv: "api_inv st A" and T: "T \<in> gheaps (dG A)" and sz: "0 < sz" "sz \<le> LZ_MAX_SLAB_OBJ_SIZE"
  shows "\<exists>r. lz_tlh_alloc env T sz st = Some r \<and>
    (\<exists>A'. new_object st A (fst r) (class_bytes (unat (lz_size_to_class sz))) (snd r) A')"
proof -
  obtain p st' G' M' where h: "lz_tlh_alloc env T sz st = Some (p, st')"
    "handed_out st (dG A) (dM A) (dB A) st' G' M' (dB A) T p (class_bytes (unat (lz_size_to_class sz)))" "p = 0 \<longrightarrow> refused st st'"
    using tlh_alloc_small [OF ok api_invD(1) [OF inv] T sz] by blast
  have "trace_ext st st'" using trD [OF tlh_alloc_tr h(1)] by simp
  from handed_out_new [OF inv h(2) this h(3)] show ?thesis using h(1) by auto
qed

lemma span_call:
  assumes ok: "mmap_ok env" and inv: "api_inv st A" and T: "T \<in> gheaps (dG A)" and sz: "0 < sz" "sz \<le> 1048576"
  shows "\<exists>r. lz_span_alloc env T sz st = Some r \<and> 4096 dvd unat (fst r) \<and>
    (\<exists>A'. new_object st A (fst r) (4096 * ((unat sz + 4095) div 4096)) (snd r) A')"
proof -
  obtain p st' G' where h: "lz_span_alloc env T sz st = Some (p, st')"
    "handed_out st (dG A) (dM A) (dB A) st' G' (dM A) (dB A) T p (4096 * ((unat sz + 4095) div 4096))" "p = 0 \<longrightarrow> refused st st'" "4096 dvd unat p"
    using span_alloc_client [OF ok api_invD(1) [OF inv] T sz] by blast
  have "trace_ext st st'" using trD [OF span_alloc_tr h(1)] by simp
  from handed_out_new [OF inv h(2) this h(3)] show ?thesis using h(1,4) by auto
qed

lemma malloc_spec:
  assumes ok: "mmap_ok env" and inv: "api_inv st A" and t: "t \<notin> dX A" and sz: "unat sz < 2 ^ 62"
  shows "returns_or (no_heap env t st) (lz_malloc env t sz st) (\<lambda>(p, st'). \<exists>A'. new_object st A p (granted (unat sz)) st' A' \<and>
    (1048576 < unat sz \<longrightarrow> p \<noteq> 0 \<longrightarrow> (\<forall>a\<in>bytes p (unat sz). mem st' a = 0)))"
proof -
  define s where "s = (if sz = 0 then 1 else sz)"
  have us: "unat s = max (unat sz) 1" "0 < s"
    using unat_gt_0 [of sz] by (auto simp: s_def word_gt_0)
  consider (small) "unat sz \<le> 32768" | (span) "32768 < unat sz" "unat sz \<le> 1048576" | (direct) "1048576 < unat sz" by linarith
  then show ?thesis
  proof cases
    case small
    have s: "s \<le> LZ_MAX_SLAB_OBJ_SIZE" using small us(1) by (simp add: word_le_nat_alt)
    have g: "granted (unat sz) = class_bytes (unat (lz_size_to_class s))" using small by (simp only: granted_def us(1) [symmetric] if_True) simp
    have run: "lz_malloc env t sz st = ensure_tls_init env t st \<bind> (\<lambda>st. lz_tlh_alloc env (tls_tlh_ptr st t) s st)"
      using s by (simp add: lz_malloc_def s_def Let_def)
    show ?thesis
      unfolding run
    proof (rule ensure_then [OF ok inv t])
      fix st1 A1 assume a: "api_inv st1 A1" "unchanged {} st A st1 A1" "trace_ext st st1" "tls_tlh_ptr st1 t \<in> gheaps (dG A1)"
      from small_alloc [OF ok a(1,4) us(2) s] show "\<exists>r. lz_tlh_alloc env (tls_tlh_ptr st1 t) s st1 = Some r \<and>
          (case r of (p, st') \<Rightarrow> \<exists>A'. new_object st A p (granted (unat sz)) st' A' \<and>
            (1048576 < unat sz \<longrightarrow> p \<noteq> 0 \<longrightarrow> (\<forall>a\<in>bytes p (unat sz). mem st' a = 0)))"
        using new_object_after [OF a(2,3)] small unfolding g by fastforce
    qed
  next
    case span
    have s: "s = sz" "\<not> sz \<le> LZ_MAX_SLAB_OBJ_SIZE" "sz \<le> 1048576" "0 < sz"
      using span us(2) by (auto simp: s_def word_le_nat_alt word_less_nat_alt)
    have g: "granted (unat sz) = 4096 * ((unat sz + 4095) div 4096)" using span by (simp add: granted_def)
    have run: "lz_malloc env t sz st = ensure_tls_init env t st \<bind> (\<lambda>st. lz_span_alloc env (tls_tlh_ptr st t) sz st)"
      using s by (simp add: lz_malloc_def Let_def s_def)
    show ?thesis
      unfolding run
    proof (rule ensure_then [OF ok inv t])
      fix st1 A1 assume a: "api_inv st1 A1" "unchanged {} st A st1 A1" "trace_ext st st1" "tls_tlh_ptr st1 t \<in> gheaps (dG A1)"
      from span_call [OF ok a(1,4) s(4,3)] show "\<exists>r. lz_span_alloc env (tls_tlh_ptr st1 t) sz st1 = Some r \<and>
          (case r of (p, st') \<Rightarrow> \<exists>A'. new_object st A p (granted (unat sz)) st' A' \<and>
            (1048576 < unat sz \<longrightarrow> p \<noteq> 0 \<longrightarrow> (\<forall>a\<in>bytes p (unat sz). mem st' a = 0)))"
        using new_object_after [OF a(2,3)] span unfolding g by fastforce
    qed
  next
    case direct
    have s: "s = sz" "\<not> sz \<le> LZ_MAX_SLAB_OBJ_SIZE" "\<not> sz \<le> 1048576" using direct by (auto simp: s_def word_le_nat_alt)
    have g: "granted (unat sz) = unat sz" using direct by (simp add: granted_def)
    have run: "lz_malloc env t sz st = direct_alloc env (LZ_ALIGN_UP (128 + sz) LZ_HUGE_PAGE_SIZE) 128 sz st"
      using s by (auto simp: lz_malloc_def direct_alloc_def Let_def s_def split: prod.splits)
    note tot = direct_total [of 128 sz]
    obtain p st' A' where r: "direct_alloc env (LZ_ALIGN_UP (128 + sz) LZ_HUGE_PAGE_SIZE) 128 sz st = Some (p, st')" "api_inv st' A'" "trace_ext st st'"
      "if p = 0 then unchanged {} st A st' A' \<and> refused st st'
       else unchanged {p} st A st' A' \<and> object st' A' p (unat sz) \<and> (\<forall>m. \<not> object st A p m) \<and> (\<forall>a\<in>bytes p (unat sz). mem st' a = 0)"
      using direct_alloc_spec [OF ok inv tot(1,2), of sz 128] tot(3) sz direct by auto
    have "new_object st A p (granted (unat sz)) st' A'" unfolding new_object_def g using r(2-4) by auto
    then show ?thesis unfolding run using r(4) by (intro returns_orI [OF r(1)]) auto
  qed
qed


section \<open>Looking up an object\<close>

text \<open>
  The index knows the object. It does not when the system refused the leaf of the index that its
  chunk needed; then \<open>lz_free\<close> leaves the object alone.
\<close>

definition indexed :: "lz_state \<Rightarrow> addr \<Rightarrow> bool" where
  "indexed st p \<longleftrightarrow> find_chunk p st \<noteq> Some 0"

lemma rtree_get_chunk: "lz_rtree_get st (chunk_of p) = lz_rtree_get st p"
proof -
  have "block_of (chunk_of p) = block_of p" unfolding chunk_of_mask
    by (rule bit_word_eqI) (auto simp: block_of_def bit_simps)
  then show ?thesis using rtree_idx_eq_iff [of "chunk_of p" p] by (simp add: lz_rtree_get_def)
qed

lemma find_chunk_get: "find_chunk p st = lz_rtree_get st p"
  by (cases "lz_rtree_get st p") (simp_all add: find_chunk_def rtree_get_chunk)

lemma find_object:
  assumes inv: "api_inv st A" and o: "object st A p n"
  shows "find_chunk p st = Some 0 \<or> (\<exists>u. gown (dG A) (chunk_of p) = Some u \<and> find_chunk p st = Some (use_header (chunk_of p) u))"
proof -
  have "unat p < 2 ^ 48" using object_range(2,3) [OF inv o] by simp
  then show ?thesis
    using heap_structD(4) [OF api_invD(5) [OF inv]] unfolding index_ok_def find_chunk_get by fastforce
qed

lemma find_live:
  assumes inv: "api_inv st A" and l: "live_in st A T p n" and i: "indexed st p"
  shows "find_chunk p st = Some (chunk_of p)"
proof -
  have o: "object st A p n" using l by (auto simp: object_def)
  have "p \<in> bytes p n" using object_range(2) [OF inv o] by (simp add: bytes_def)
  from live_bytes [OF api_invD(5) [OF inv] l this] show ?thesis
    using find_object [OF inv o] i by (auto simp: indexed_def)
qed

lemma find_direct:
  assumes inv: "api_inv st A" and d: "dD A d = Some (t, n, off)" "p = d + of_nat off" and i: "indexed st p"
  shows "find_chunk p st = Some d"
proof -
  have o: "object st A p n" using d by (auto simp: object_def mapped_object_def)
  then show ?thesis
    using find_object [OF inv o] i direct_object(5) [OF api_invD(3) [OF inv] d(1)] d(2) by (auto simp: indexed_def)
qed

section \<open>free\<close>

lemma free_direct:
  assumes ok: "mmap_ok env" and inv: "api_inv st A" and d: "dD A d = Some (t, n, off)" "p = d + of_nat off" and i: "indexed st p"
  shows "\<exists>st' A'. lz_free env th p st = Some st' \<and> api_inv st' A' \<and> trace_ext st st' \<and> unchanged {p} st A st' A' \<and>
    (\<forall>m. \<not> object st' A' p m)"
proof -
  note I = api_invD [OF inv] and r = direct_atD [OF direct_okD(1) [OF api_invD(3) [OF inv] d(1)]]
  note f = find_direct [OF inv d i]
  have od: "gown (dG A) d = Some (Direct_of d)" by (rule direct_object(4) [OF I(3) d(1)])
  have v: "valid st d" "valid st (d + 64)"
    using struct_chunk [OF I(5) od] by (simp_all add: chunk_at_def within_def)
  define k where "k = t div 2097152"
  have k: "t = k * 2 ^ 21" using r(2) by (auto simp: k_def)
  have k64: "k * 2 ^ 21 < 2 ^ 64" using r(3) unfolding k by simp
  have own: "gown (dG A) (d + of_nat (j * 2 ^ 21)) = Some (Direct_of d)" if "j < k" for j
  proof -
    note b = region_block [OF r(1-3), of j] that [unfolded k_def]
    have "gown (dG A) (chunk_of (d + of_nat (j * 2 ^ 21))) = Some (Direct_of d)"
      by (rule r(10)) (use b(1) [OF b(4)] in \<open>simp_all only: region_def mem_Collect_eq\<close>)
    then show ?thesis unfolding b(2) [OF b(4)] .
  qed
  obtain st1 where st1: "for_blocks (\<lambda>off. lz_rtree_set env (d + off) 0) (of_nat (k * 2 ^ 21)) (of_nat (0 * 2 ^ 21)) st = Some st1"
    "heap_inv st1 (dG A) (dM A) (dB A)" "client_step {} st (dG A) (dM A) (dB A) st1 (dG A) (dM A) (dB A)" "trace_ext st st1"
    "\<forall>q. lz_rtree_get st1 q = (if \<exists>j. 0 \<le> j \<and> j < k \<and> block_of q = block_of (d + of_nat (j * 2 ^ 21)) then Some 0 else lz_rtree_get st q)"
    using record_blocks [OF ok disjI1 [OF refl] k64 own le0 I(1)] by blast
  have a1: "api_inv st1 A" "unchanged {} st A st1 A" using api_client [OF inv st1(2,3)] by simp_all
  have clear: "lz_rtree_get st1 a = Some 0" if a: "a \<in> region d t" for a
  proof -
    obtain j where j: "j < t div 2097152" "chunk_of a = d + of_nat (j * 2 ^ 21)" by (rule region_covered [OF r(1-3) a])
    have "unat a < 2 ^ 48" using a r(3) by (simp add: region_def)
    then have "block_of a = block_of (chunk_of a)" using block_of_chunk [OF _ region_chunk(3) [OF r(1-3) a]] by simp
    then show ?thesis using st1(5) j unfolding k_def by auto
  qed
  note dr = api_drop_direct [OF a1(1) d(1) clear]
  let ?st = "sys_munmap d (of_nat t) st1"
  have u: "unchanged {p} st A ?st (drop_direct d A)" using unchanged_trans [OF a1(2) dr(2)] d(2) by simp
  have tr: "trace_ext st ?st" by (rule trace_ext_trans [OF st1(4) sys_trace(2)])
  have "object st A p n" using d by (auto simp: object_def mapped_object_def)
  from object_range(1) [OF inv this] have p0: "p \<noteq> 0" .
  have d0: "d \<noteq> 0" using r(1) by (simp add: chunk_base_def)
  have loop: "for_blocks (\<lambda>offset. lz_rtree_clear env (d + offset)) (of_nat t) 0 st = Some st1"
    using st1(1) unfolding k [symmetric] by (simp add: lz_rtree_clear_def [abs_def])
  have "lz_free env th p st = Some ?st"
    using p0 f d0 v r(7-9) loop by (simp add: lz_free_def get_hdr_def get_direct_def)
  then show ?thesis using dr(1,3) u tr d(2) by blast
qed

lemma free_spec:
  assumes ok: "mmap_ok env" and inv: "api_inv st A" and t: "t \<notin> dX A" and o: "object st A p n"
  shows "returns_or (no_heap env t st) (lz_free env t p st) (\<lambda>st'. \<exists>A'. api_inv st' A' \<and> trace_ext st st' \<and> unchanged {p} st A st' A' \<and>
    (if indexed st p then \<forall>m. \<not> object st' A' p m else st' = st \<and> A' = A))"
proof (cases "indexed st p")
  case False
  then have "lz_free env t p st = Some st" using object_range(1) [OF inv o] by (simp add: indexed_def lz_free_def)
  then show ?thesis using inv False by (intro returns_orI) auto
next
  case True
  show ?thesis
    using o
  proof (cases rule: object_cases)
    case (direct d tt off)
    from free_direct [OF ok inv direct True, of t] obtain st' A' where "lz_free env t p st = Some st'" "api_inv st' A'"
      "trace_ext st st'" "unchanged {p} st A st' A'" "\<forall>m. \<not> object st' A' p m" by blast
    then show ?thesis using True by (intro returns_orI [where r = st']) auto
  next
    case (live T)
    have b: "block st (dG A) T p n" using live by (simp add: live_def)
    note h = block_header [OF api_invD(5) [OF inv] b]
    have run: "lz_free env t p st = ensure_tls_init env t st \<bind> (\<lambda>st. lz_tlh_free env (tls_tlh_ptr st t) p st)"
      using find_live [OF inv live True] h object_range(1) [OF inv o] by (auto simp: lz_free_def)
    show ?thesis
      unfolding run
    proof (rule ensure_then [OF ok inv t])
      fix st1 A1 assume a: "api_inv st1 A1" "unchanged {} st A st1 A1" "trace_ext st st1" "tls_tlh_ptr st1 t \<in> gheaps (dG A1)"
      have l1: "live_in st1 A1 T p n" using unchangedD(4) [OF a(2)] live by simp
      obtain st' G' M' B' where f: "lz_tlh_free env (tls_tlh_ptr st1 t) p st1 = Some st'" "heap_inv st' G' M' B'"
        "client_step {p} st1 (dG A1) (dM A1) (dB A1) st' G' M' B'" "\<forall>V m. \<not> live st' G' M' B' V p m"
        using tlh_free_client [OF ok api_invD(1) [OF a(1)] a(4) l1] by blast
      let ?A = "A1\<lparr>dG := G', dM := M', dB := B'\<rparr>"
      note c = api_client [OF a(1) f(2,3)]
      note nm = live_not_mapped [OF a(1) l1]
      have "\<not> object st' ?A p m" for m using nm f(4) by (auto simp: object_def mapped_object_def)
      moreover have "unchanged {p} st A st' ?A" using unchanged_trans [OF a(2) c(2)] by simp
      moreover have "trace_ext st st'" using trace_ext_trans [OF a(3)] trD [OF tlh_free_tr f(1)] by blast
      ultimately show "\<exists>r. lz_tlh_free env (tls_tlh_ptr st1 t) p st1 = Some r \<and> (\<exists>A'. api_inv r A' \<and> trace_ext st r \<and> unchanged {p} st A r A' \<and>
          (if indexed st p then \<forall>m. \<not> object r A' p m else r = st \<and> A' = A))"
        using f(1) c(1) True by auto
    qed
  qed
qed

end
