(* ===== verification/Api_Memory.thy ===== *)
theory Api_Memory
  imports Api_Calls
begin

text \<open>
  The contents of objects: a write of the program inside an object disturbs nothing else, so
  \<open>lz_calloc\<close> may clear and \<open>lz_realloc\<close> may copy.
\<close>

section \<open>Writing to an object\<close>

lemma mem_only:
  "same_globals st (st\<lparr>mem := M\<rparr>)" "valid (st\<lparr>mem := M\<rparr>) = valid st" "lz_rtree_get (st\<lparr>mem := M\<rparr>) = lz_rtree_get st"
  by (simp_all add: same_globals_def valid_def lz_rtree_get_def fun_eq_iff Let_def)

lemma write_live:
  assumes inv: "api_inv st A" and l: "live_in st A T p n" and M: "\<And>a. a \<notin> bytes p n \<Longrightarrow> M a = mem st a"
  shows "api_inv (st\<lparr>mem := M\<rparr>) A" "unchanged {p} st A (st\<lparr>mem := M\<rparr>) A" "object (st\<lparr>mem := M\<rparr>) A q m \<longleftrightarrow> object st A q m"
proof -
  note I = api_invD [OF inv] heap_invD [OF api_invD(1) [OF inv]]
  have b: "block st (dG A) T p n" "p \<notin> pending (dG A) (dM A) (dB A)" using l by (simp_all add: live_def)
  note w = struct_write [OF I(5) b(1) M]
  have h: "heap_inv (st\<lparr>mem := M\<rparr>) (dG A) (dM A) (dB A)"
    by (rule heap_inv_evolves [OF I(1) w(1) I(7) w(2)]) (use b(2) in simp_all)
  have c: "client_step {p} st (dG A) (dM A) (dB A) (st\<lparr>mem := M\<rparr>) (dG A) (dM A) (dB A)"
    by (rule evolves_client [OF w(2)]) simp
  show "api_inv (st\<lparr>mem := M\<rparr>) A" "unchanged {p} st A (st\<lparr>mem := M\<rparr>) A" using api_client [OF inv h c] by simp_all
  show "object (st\<lparr>mem := M\<rparr>) A q m \<longleftrightarrow> object st A q m" by (simp add: object_def live_def w(3))
qed

lemma write_direct:
  assumes inv: "api_inv st A" and d: "dD A d = Some (t, n, off)" "p = d + of_nat off"
    and M: "\<And>a. a \<notin> bytes p n \<Longrightarrow> M a = mem st a"
  shows "api_inv (st\<lparr>mem := M\<rparr>) A" "unchanged {p} st A (st\<lparr>mem := M\<rparr>) A" "object (st\<lparr>mem := M\<rparr>) A q m \<longleftrightarrow> object st A q m"
proof -
  note I = api_invD [OF inv] and L = layout_okD [OF heap_structD(3) [OF api_invD(5) [OF inv]]]
  let ?st = "st\<lparr>mem := M\<rparr>"
  have out: "a \<notin> bytes p n" if "a \<in> inner_memory st (dG A)" for a
    using direct_not_inner [OF I(5) direct_object(2) [OF I(3) d(1)] in_own_chunk] that d(2) by blast
  have same: "valid ?st a \<and> same_at a st ?st" if "a \<in> inner_memory st (dG A)" for a
    using inner_valid [OF I(5) that] M [OF out [OF that]] by (simp add: same_at_def mem_only)
  have idx: "index_ok ?st ((dG A)\<lparr>gown := gown (dG A)\<rparr>)"
    using heap_structD(4) [OF I(5)] by (simp add: index_ok_def mem_only)
  have lay: "chunk_at ?st c \<and> c \<notin> idle (gpools (dG A)) \<and> pinned st (dG A) \<inter> chunk_block c = {}"
    if c: "gown (dG A) c = Some (Direct_of e)" for c e
    using struct_chunk [OF I(5) c] L(2,4) c by (auto simp: chunk_at_def mem_only)
  note R = heap_struct_remap [OF I(5) mem_only(1) same refl lay idx]
  note H = heap_inv_remap [OF I(1) mem_only(1) same R]
  have dok: "direct_ok ?st A" using I(3) by (simp add: direct_ok_def direct_at_def)
  have tel: "telemetry_inv ?st" by (rule telemetry_inv_valid [OF I(2)]) (simp_all add: mem_only)
  have thr: "threads_ok ?st A" using I(4) by (simp add: threads_ok_def)
  show "api_inv ?st A" using H(1) dok tel thr by (simp add: api_inv_def)
  have l: "live_in ?st A T y k \<longleftrightarrow> live_in st A T y k" for T y k using H(2) by simp
  show "object ?st A q m \<longleftrightarrow> object st A q m" for q m by (simp add: object_def l)
  have po: "object st A p n" using d by (auto simp: object_def mapped_object_def)
  have "M a = mem st a" if "y \<noteq> p" "object st A y k" "a \<in> bytes y k" for y k a
    by (rule M) (use objects_disjoint(1) [OF inv that(2) po that(1)] that(3) in blast)
  then show "unchanged {p} st A ?st A" by (simp add: unchanged_def l)
qed

lemma api_write:
  assumes inv: "api_inv st A" and o: "object st A p n" and M: "\<And>a. a \<notin> bytes p n \<Longrightarrow> M a = mem st a"
  shows "api_inv (st\<lparr>mem := M\<rparr>) A" "unchanged {p} st A (st\<lparr>mem := M\<rparr>) A" "object (st\<lparr>mem := M\<rparr>) A q m \<longleftrightarrow> object st A q m"
proof -
  let ?P = "api_inv (st\<lparr>mem := M\<rparr>) A \<and> unchanged {p} st A (st\<lparr>mem := M\<rparr>) A \<and>
    (object (st\<lparr>mem := M\<rparr>) A q m \<longleftrightarrow> object st A q m)"
  have ?P
    using o
  proof (cases rule: object_cases)
    case (live T)
    show ?thesis by (intro conjI write_live [OF inv live M])
  next
    case (direct d t off)
    show ?thesis by (intro conjI write_direct [OF inv direct M])
  qed
  then show "api_inv (st\<lparr>mem := M\<rparr>) A" "unchanged {p} st A (st\<lparr>mem := M\<rparr>) A"
    "object (st\<lparr>mem := M\<rparr>) A q m \<longleftrightarrow> object st A q m" by blast+
qed

section \<open>The size of an object\<close>

lemma ucast_of_nat_unat: "of_nat (unat (x :: u32)) = (ucast x :: u64)"
  by (rule word_unat_eq_iff [THEN iffD2]) (simp add: unat_ucast unsigned_of_nat)

lemma usable_live:
  assumes inv: "api_inv st A" and l: "live_in st A T p n" and i: "indexed st p"
  shows "lz_malloc_usable_size p st = Some (of_nat n)"
proof -
  note I = api_invD [OF inv]
  have b: "block st (dG A) T p n" using l by (simp add: live_def)
  note h = block_header [OF I(5) b] and f = find_live [OF inv l i]
  have o: "object st A p n" using l by (auto simp: object_def)
  note r = object_range [OF inv o]
  have c: "block_at st (dG A) (chunk_of p) T p n" using b block_iff [OF I(5)] by simp
  then show ?thesis
  proof (cases rule: block_at_cases)
    case (slab i)
    from slab_record [OF I(5) slab(1)] obtain s where s: "slab_rep st (chunk_of p) i (gcarved (dG A) (chunk_of p)) (gfree (dG A) (chunk_of p)) s"
      "get_slab st (chunk_of p + 64) = Some s" "i < 40" by blast
    have k: "ch_chunk_type (hdrs st (chunk_of p)) = LZ_CHUNK_TYPE_SLAB"
      using heap_structD(6) [OF I(5) slab(1)] by (simp add: slab_ok_def hdr_ok_def)
    have "unat (sl_block_size s) = class_bytes i"
      using s(1) class_bytes_bounds [OF s(3)] by (simp add: slab_rep_def slab_shape_def unsigned_of_nat take_bit_nat_eq_self)
    then have "(ucast (sl_block_size s) :: u64) = of_nat n"
      using ucast_of_nat_unat [of "sl_block_size s"] slab(3) by simp
    then show ?thesis using r(1) f h k s(2) by (simp add: lz_malloc_usable_size_def)
  next
    case span
    from span_start_unat [OF I(5) span] obtain s j where s: "metas st (chunk_of p + 64) = MSpan s" "span_inv s" "j + pages_of s j \<le> 512"
      "0 < pages_of s j" "unat p = unat (chunk_of p) + 4096 * j" "n = 4096 * pages_of s j" by blast
    have v: "valid st (chunk_of p + 64)" by (rule meta_in_chunk(2) [OF struct_chunk [OF I(5) span(1)]])
    have k: "ch_chunk_type (hdrs st (chunk_of p)) = LZ_CHUNK_TYPE_SPAN"
      using heap_structD(7) [OF I(5) span(1)] by (auto simp: span_ok_def hdr_ok_def)
    have j: "j < 512" using s(3,4) by simp
    have "unat ((p - chunk_of p) div LZ_PAGE_SIZE) = j"
      using s(5) by (subst unat_div) (simp add: unat_sub word_le_nat_alt)
    then have "unat (ucast ((p - chunk_of p) div LZ_PAGE_SIZE) :: u32) = j"
      using j by (simp add: unat_ucast take_bit_nat_eq_self)
    moreover have "length (sp_alloc_size_pages s) = 512" using s(2) by (simp add: span_inv_def)
    moreover have "(ucast (sp_alloc_size_pages s ! j) :: u64) * LZ_PAGE_SIZE = of_nat n"
      unfolding s(6) using j by (simp add: pages_of_def)
    ultimately show ?thesis using r(1) f h k s(1) v j by (simp add: lz_malloc_usable_size_def get_span_def Let_def)
  qed
qed

lemma usable_direct:
  assumes inv: "api_inv st A" and d: "dD A d = Some (t, n, off)" "p = d + of_nat off" and i: "indexed st p"
  shows "lz_malloc_usable_size p st = Some (of_nat n)"
proof -
  note I = api_invD [OF inv] and r = direct_atD [OF direct_okD(1) [OF api_invD(3) [OF inv] d(1)]]
  have "object st A p n" using d by (auto simp: object_def mapped_object_def)
  from object_range(1) [OF inv this] have "p \<noteq> 0" .
  moreover have "d \<noteq> 0" using r(1) by (simp add: chunk_base_def)
  moreover have "valid st d" "valid st (d + 64)"
    using struct_chunk [OF I(5) direct_object(4) [OF I(3) d(1)]] by (simp_all add: chunk_at_def within_def)
  ultimately show ?thesis
    using find_direct [OF inv d i] r(7-9) by (simp add: lz_malloc_usable_size_def get_hdr_def get_direct_def)
qed

lemma usable_spec:
  assumes inv: "api_inv st A" and o: "object st A p n"
  shows "lz_malloc_usable_size p st = Some (if indexed st p then of_nat n else 0)"
proof (cases "indexed st p")
  case True
  have "lz_malloc_usable_size p st = Some (of_nat n)"
    by (rule object_cases [OF o]) (erule usable_live [OF inv _ True], erule (1) usable_direct [OF inv _ _ True])
  then show ?thesis using True by simp
next
  case False
  then show ?thesis by (simp add: indexed_def lz_malloc_usable_size_def)
qed

section \<open>calloc\<close>

lemma within_bytes:
  assumes inv: "api_inv st A" and o: "object st A p n" and k: "unat k \<le> n"
  shows "within p k a \<longleftrightarrow> a \<in> bytes p (unat k)" "valid_range st p k" "bytes p (unat k) \<subseteq> bytes p n"
proof -
  note r = object_range [OF inv o]
  show "within p k a \<longleftrightarrow> a \<in> bytes p (unat k)" using within_iff [of p k a] r(3) k by (simp add: bytes_def)
  show b: "bytes p (unat k) \<subseteq> bytes p n" using k by (auto simp: bytes_def)
  have "p + of_nat i \<in> bytes p (unat k)" if "i < unat k" for i
    using unat_add_small [of p i] r(3) k that by (simp add: bytes_def)
  then show "valid_range st p k" using r(4) b unfolding valid_range_def by blast
qed

lemma new_object_write:
  assumes n: "new_object st A p n st' A'" and p: "p \<noteq> 0" and M: "\<And>a. a \<notin> bytes p n \<Longrightarrow> M a = mem st' a"
  shows "new_object st A p n (st'\<lparr>mem := M\<rparr>) A'"
proof -
  note N = new_objectD [OF n]
  note w = api_write [OF N(1) N(6) [OF p] M]
  have "unchanged {p} st A (st'\<lparr>mem := M\<rparr>) A'" using unchanged_trans [OF N(5) [OF p] w(2)] by simp
  moreover have "trace_ext st (st'\<lparr>mem := M\<rparr>)" using N(2) by (simp add: trace_ext_def)
  ultimately show ?thesis unfolding new_object_def using w(1,3) N(6,7) p by simp
qed

lemma mul_overflow_iff:
  assumes "num \<noteq> (0 :: u64)"
  shows "SIZE_MAX div num < sz \<longleftrightarrow> 2 ^ 64 \<le> unat num * unat sz"
proof -
  have n: "0 < unat num" using assms unat_gt_0 by blast
  have "SIZE_MAX div num < sz \<longleftrightarrow> (2 ^ 64 - 1) div unat num < unat sz"
    by (simp add: word_less_nat_alt unat_div SIZE_MAX_def)
  also have "\<dots> \<longleftrightarrow> 2 ^ 64 - 1 < unat sz * unat num" using n by (rule div_less_iff_less_mult)
  finally show ?thesis by (auto simp: mult.commute)
qed

definition calloc_bytes :: "u64 \<Rightarrow> u64 \<Rightarrow> nat" where
  "calloc_bytes num sz = (if num = 0 \<or> sz = 0 then 1 else unat num * unat sz)"

lemma calloc_run:
  "2 ^ 64 \<le> calloc_bytes num sz \<Longrightarrow> lz_calloc env t num sz st = Some (0, st)"
  "calloc_bytes num sz < 2 ^ 64 \<Longrightarrow> lz_calloc env t num sz st = lz_malloc env t (of_nat (calloc_bytes num sz)) st \<bind> (\<lambda>(p, st).
     if p = 0 then Some (0, st)
     else (if calloc_bytes num sz \<le> 1048576 then memset_zero p (of_nat (calloc_bytes num sz)) st else Some st) \<bind> (\<lambda>st. Some (p, st)))"
proof -
  define a b where "a = (if num = 0 \<or> sz = 0 then 1 else num)" "b = (if num = 0 \<or> sz = 0 then 1 else sz)"
  have k: "calloc_bytes num sz = unat a * unat b" "a \<noteq> 0" by (simp_all add: calloc_bytes_def a_b_def)
  have ab: "(if num = 0 \<or> sz = 0 then (1, 1) else (num, sz)) = (a, b)" by (simp add: a_b_def)
  have run: "lz_calloc env t num sz st = (if SIZE_MAX div a < b then Some (0, st) else do {
        (p, st) \<leftarrow> lz_malloc env t (a * b) st;
        if p = 0 then Some (0, st)
        else do { st \<leftarrow> (if a * b \<le> 1048576 then memset_zero p (a * b) st else Some st); Some (p, st) } })"
    unfolding lz_calloc_def ab Let_def prod.case ..
  note o = mul_overflow_iff [OF k(2), of b]
  show "lz_calloc env t num sz st = Some (0, st)" if "2 ^ 64 \<le> calloc_bytes num sz" using that unfolding run k(1) o by simp
  assume l: "calloc_bytes num sz < 2 ^ 64"
  have u: "a * b = of_nat (calloc_bytes num sz)" unfolding k(1) by simp
  have "unat (a * b) = calloc_bytes num sz" unfolding u using l by (simp add: unsigned_of_nat take_bit_nat_eq_self)
  then have c: "a * b \<le> 1048576 \<longleftrightarrow> calloc_bytes num sz \<le> 1048576" by (simp add: word_le_nat_alt)
  have "\<not> SIZE_MAX div a < b" using l unfolding o k(1) by simp
  then show "lz_calloc env t num sz st = lz_malloc env t (of_nat (calloc_bytes num sz)) st \<bind> (\<lambda>(p, st).
     if p = 0 then Some (0, st)
     else (if calloc_bytes num sz \<le> 1048576 then memset_zero p (of_nat (calloc_bytes num sz)) st else Some st) \<bind> (\<lambda>st. Some (p, st)))"
    unfolding run by (simp only: if_False c [unfolded u] u)
qed

lemma calloc_spec:
  assumes ok: "mmap_ok env" and inv: "api_inv st A" and t: "t \<notin> dX A" and k: "calloc_bytes num sz < 2 ^ 62"
  shows "returns_or (no_heap env t st) (lz_calloc env t num sz st) (\<lambda>(p, st'). \<exists>A'. new_object st A p (granted (calloc_bytes num sz)) st' A' \<and>
    (p \<noteq> 0 \<longrightarrow> (\<forall>a\<in>bytes p (calloc_bytes num sz). mem st' a = 0)))"
proof -
  define k' where "k' = calloc_bytes num sz"
  have u: "unat (of_nat k' :: u64) = k'" using k by (simp add: k'_def unsigned_of_nat take_bit_nat_eq_self)
  have l: "calloc_bytes num sz < 2 ^ 64" using k by simp
  have s: "unat (of_nat k' :: u64) < 2 ^ 62" using k unfolding u by (simp add: k'_def)
  show ?thesis
    unfolding calloc_run(2) [OF l] k'_def [symmetric]
  proof (rule returns_or_bind [OF malloc_spec [OF ok inv t s, unfolded u]], assumption, clarify)
    fix p st1 A1
    assume n: "new_object st A p (granted k') st1 A1" and z: "1048576 < k' \<longrightarrow> p \<noteq> 0 \<longrightarrow> (\<forall>a\<in>bytes p k'. mem st1 a = 0)"
    let ?f = "(if p = 0 then Some (0, st1)
       else (if k' \<le> 1048576 then memset_zero p (of_nat k') st1 else Some st1) \<bind> (\<lambda>st. Some (p, st)))"
    have "\<exists>st2. ?f = Some (p, st2) \<and> new_object st A p (granted k') st2 A1 \<and> (p \<noteq> 0 \<longrightarrow> (\<forall>a\<in>bytes p k'. mem st2 a = 0))"
    proof (cases "p \<noteq> 0 \<and> k' \<le> 1048576")
      case False
      then show ?thesis using n z by (intro exI [of _ st1]) auto
    next
      case True
      then have p: "p \<noteq> 0" "k' \<le> 1048576" by auto
      note b = within_bytes [OF new_objectD(1) [OF n] new_objectD(6) [OF n p(1)], of "of_nat k'", unfolded u, OF granted_bounds(1)]
      have "new_object st A p (granted k') (st1\<lparr>mem := fill p (of_nat k') 0 (mem st1)\<rparr>) A1"
        by (rule new_object_write [OF n p(1)]) (use b in \<open>auto simp: fill_def\<close>)
      then show ?thesis using p b by (simp add: memset_zero_def fill_def)
    qed
    then show "returns_or (no_heap env t st) ?f
      (\<lambda>(p, st'). \<exists>A'. new_object st A p (granted k') st' A' \<and> (p \<noteq> 0 \<longrightarrow> (\<forall>a\<in>bytes p k'. mem st' a = 0)))"
      by (auto simp: returns_or_def)
  qed
qed

section \<open>realloc\<close>

text \<open>Without a move: no new memory is needed.\<close>

lemma realloc_in_place:
  assumes inv: "api_inv st A" and o: "object st A p n" and s: "new_size \<noteq> 0"
  shows "\<not> indexed st p \<Longrightarrow> lz_realloc env t p new_size st = Some (0, st)"
    "indexed st p \<Longrightarrow> unat new_size \<le> n \<Longrightarrow> lz_realloc env t p new_size st = Some (p, st)"
proof -
  note r = object_range [OF inv o]
  have u: "unat (of_nat n :: u64) = n" using r(3) by (simp add: unsigned_of_nat take_bit_nat_eq_self)
  then have n0: "(of_nat n :: u64) \<noteq> 0" using r(2) by (metis unat_0 less_numeral_extra(3))
  show "lz_realloc env t p new_size st = Some (0, st)" if "\<not> indexed st p"
    using r(1) s that by (simp add: lz_realloc_def usable_spec [OF inv o])
  show "lz_realloc env t p new_size st = Some (p, st)" if "indexed st p" "unat new_size \<le> n"
    using r(1) s that n0 by (simp add: lz_realloc_def usable_spec [OF inv o] word_le_nat_alt u)
qed

text \<open>The state after the copy of the move.\<close>

lemma copy_object:
  assumes inv: "api_inv st A" and o: "object st A p n" and q: "new_object st A q m st1 A1" "q \<noteq> 0" and l: "n \<le> m"
  shows "\<exists>st2. memcpy q p (of_nat n) st1 = Some st2 \<and> new_object st A q m st2 A1 \<and> object st2 A1 p n \<and>
    (\<forall>j<n. mem st2 (q + of_nat j) = mem st (p + of_nat j)) \<and> (no_heap env t st2 \<longleftrightarrow> no_heap env t st1)"
proof -
  note N = new_objectD [OF q(1)] and r = object_range [OF inv o]
  have u: "unat (of_nat n :: u64) = n" using r(3) by (simp add: unsigned_of_nat take_bit_nat_eq_self)
  have pq: "p \<noteq> q" using N(7) [OF q(2)] o by blast
  note U = unchangedD(2,3) [OF N(5) [OF q(2)], of p]
  have o1: "object st1 A1 p n" using U(1) pq o by simp
  note bq = within_bytes [OF N(1) N(6) [OF q(2)], of "of_nat n", unfolded u, OF l]
    and bp = within_bytes [OF N(1) o1, of "of_nat n", unfolded u, OF le_refl]
  define M where "M = (\<lambda>a. if within q (of_nat n) a then mem st1 (p + (a - q)) else mem st1 a)"
  have run: "memcpy q p (of_nat n) st1 = Some (st1\<lparr>mem := M\<rparr>)" using bq(2) bp(2) by (simp add: memcpy_def M_def)
  have M: "M a = mem st1 a" if "a \<notin> bytes q m" for a using bq(1,3) that by (auto simp: M_def)
  have rq: "unat q + m \<le> 2 ^ 47" by (rule object_range(3) [OF N(1) N(6) [OF q(2)]])
  have c: "M (q + of_nat j) = mem st (p + of_nat j)" if j: "j < n" for j
  proof -
    have "q + of_nat j \<in> bytes q n" using unat_add_small [of q j] rq l j by (simp add: bytes_def)
    then have "M (q + of_nat j) = mem st1 (p + of_nat j)" using bq(1) by (simp add: M_def)
    moreover have "p + of_nat j \<in> bytes p n" using unat_add_small [of p j] r(3) j by (simp add: bytes_def)
    ultimately show ?thesis using U(2) [OF _ o] pq by simp
  qed
  have "object (st1\<lparr>mem := M\<rparr>) A1 p n" using api_write(3) [OF N(1) N(6) [OF q(2)] M] o1 by simp
  moreover have "no_heap env t (st1\<lparr>mem := M\<rparr>) \<longleftrightarrow> no_heap env t st1" by (simp add: no_heap_def)
  ultimately show ?thesis using run new_object_write [OF q(1,2) M] c by auto
qed

text \<open>A move needs a new object, and a heap of the thread to free the old one.\<close>

definition moved :: "lz_state \<Rightarrow> alloc_desc \<Rightarrow> addr \<Rightarrow> nat \<Rightarrow> addr \<Rightarrow> nat \<Rightarrow> lz_state \<Rightarrow> alloc_desc \<Rightarrow> bool" where
  "moved st A p n q m st' A' \<longleftrightarrow> api_inv st' A' \<and> trace_ext st st' \<and>
     (if q = 0 then unchanged {} st A st' A' \<and> refused st st'
      else unchanged {p, q} st A st' A' \<and> object st' A' q m \<and> (\<forall>k. \<not> object st A q k) \<and>
        (\<forall>j<n. mem st' (q + of_nat j) = mem st (p + of_nat j)) \<and> (\<forall>k. object st' A' p k \<longrightarrow> \<not> indexed st' p))"

lemma realloc_move:
  assumes ok: "mmap_ok env" and inv: "api_inv st A" and t: "t \<notin> dX A" and o: "object st A p n" and i: "indexed st p"
    and s: "n < unat new_size" "unat new_size < 2 ^ 62"
  shows "returns_or (no_heap env t st \<or> (\<exists>q st1. lz_malloc env t new_size st = Some (q, st1) \<and> no_heap env t st1))
    (lz_realloc env t p new_size st) (\<lambda>(q, st'). \<exists>A'. moved st A p n q (granted (unat new_size)) st' A')"
proof -
  note r = object_range [OF inv o]
  have u: "unat (of_nat n :: u64) = n" using r(3) by (simp add: unsigned_of_nat take_bit_nat_eq_self)
  have c: "new_size \<noteq> 0" "(of_nat n :: u64) \<noteq> 0" "\<not> new_size \<le> of_nat n"
    using s(1) r(2) u by (auto simp: word_le_nat_alt)
  let ?m = "granted (unat new_size)"
  have l: "n \<le> ?m" using granted_bounds(1) [of "unat new_size"] s(1) by simp
  have run: "lz_realloc env t p new_size st = lz_malloc env t new_size st \<bind> (\<lambda>(q, st). if q = 0 then Some (0, st)
     else do { st \<leftarrow> memcpy q p (of_nat n) st; st \<leftarrow> lz_free env t p st; Some (q, st) })"
    using r(1) c i by (simp add: lz_realloc_def usable_spec [OF inv o])
  show ?thesis
    unfolding run
  proof (rule returns_or_bind [OF malloc_spec [OF ok inv t s(2)]], blast, clarify)
    fix q st1 A1
    assume m: "lz_malloc env t new_size st = Some (q, st1)" and n: "new_object st A q ?m st1 A1"
    let ?N = "no_heap env t st \<or> (\<exists>q st1. lz_malloc env t new_size st = Some (q, st1) \<and> no_heap env t st1)"
    show "returns_or ?N (if q = 0 then Some (0, st1) else do { st \<leftarrow> memcpy q p (of_nat n) st1; st \<leftarrow> lz_free env t p st; Some (q, st) })
      (\<lambda>(q, st'). \<exists>A'. moved st A p n q ?m st' A')"
    proof (cases "q = 0")
      case True
      then have "moved st A p n 0 ?m st1 A1" using new_objectD(1-4) [OF n] by (simp add: moved_def)
      then show ?thesis using True by (auto simp: returns_or_def)
    next
      case False
      obtain st2 where st2: "memcpy q p (of_nat n) st1 = Some st2" "new_object st A q ?m st2 A1" "object st2 A1 p n"
        "\<forall>j<n. mem st2 (q + of_nat j) = mem st (p + of_nat j)" "no_heap env t st2 \<longleftrightarrow> no_heap env t st1"
        using copy_object [OF inv o n False l] by blast
      note N = new_objectD [OF st2(2)]
      have t1: "t \<notin> dX A1" using t unchangedD(1) [OF N(5) [OF False]] by simp
      have pq: "p \<noteq> q" using N(7) [OF False] o by blast
      have f: "returns_or ?N (lz_free env t p st2) (\<lambda>st'. \<exists>A'. moved st A p n q ?m st' A')"
      proof (rule returns_or_mono [OF free_spec [OF ok N(1) t1 st2(3)]])
        show ?N if "no_heap env t st2" using that st2(5) m by blast
        fix st3 assume "\<exists>A'. api_inv st3 A' \<and> trace_ext st2 st3 \<and> unchanged {p} st2 A1 st3 A' \<and>
          (if indexed st2 p then \<forall>m. \<not> object st3 A' p m else st3 = st2 \<and> A' = A1)"
        then obtain A3 where a: "api_inv st3 A3" "trace_ext st2 st3" "unchanged {p} st2 A1 st3 A3"
          "if indexed st2 p then \<forall>m. \<not> object st3 A3 p m else st3 = st2 \<and> A3 = A1" by blast
        note U = unchangedD(2,3) [OF a(3), of q]
        have "unchanged {p, q} st A st3 A3" using unchanged_trans [OF N(5) [OF False] a(3)] by (simp add: insert_commute)
        moreover have "mem st3 (q + of_nat j) = mem st (p + of_nat j)" if "j < n" for j
          using U(2) [OF _ N(6) [OF False], of "q + of_nat j"] pq st2(4) that l object_range(3) [OF N(1) N(6) [OF False]]
            unat_add_small [of q j] by (simp add: bytes_def)
        moreover have "\<not> indexed st3 p" if "object st3 A3 p k" for k using a(4) that by (auto split: if_splits)
        ultimately have "moved st A p n q ?m st3 A3"
          unfolding moved_def using a(1) trace_ext_trans [OF N(2) a(2)] U(1) pq N(6,7) [OF False] False by auto
        then show "\<exists>A'. moved st A p n q ?m st3 A'" by blast
      qed
      show ?thesis using False st2(1) f by (auto simp: returns_or_def split: option.splits)
    qed
  qed
qed

end
