(* ===== verification/Api_Align.thy ===== *)
theory Api_Align
  imports Api_Memory
begin

text \<open>
  Alignment: what every object of the allocator has, and what \<open>lz_memalign\<close> adds.
\<close>

lemma power_of_two:
  assumes "is_power_of_two al"
  obtains k where "k < 64" "al = 2 ^ k" "unat al = 2 ^ k"
proof -
  have "LZ_IS_POWER_OF_TWO al" using assms by (simp add: is_power_of_two_def LZ_IS_POWER_OF_TWO_def)
  then obtain k where k: "k < 64" "al = 2 ^ k" using is_power_of_two_iff by blast
  then show thesis using that unat_pow2 [of k, where 'a = 64] by simp
qed

text \<open>The address of a live object of size \<open>n\<close>: a multiple of whatever divides \<open>n\<close> and 128, or of a page.\<close>

lemma object_aligned:
  assumes inv: "api_inv st A" and o: "object st A p n" and a: "a dvd n" "a dvd 128"
  shows "a dvd unat p"
proof -
  note I = api_invD [OF inv]
  have chunk: "a dvd unat c" if "chunk_base c" for c
    by (rule dvd_trans [OF a(2)]) (use that in \<open>auto simp: chunk_base_def intro: dvd_trans [of 128 2097152]\<close>)
  from o show ?thesis
  proof (cases rule: object_cases)
    case (live T)
    then obtain c where c: "block_at st (dG A) c T p n" by (auto simp: live_def block_def)
    then show ?thesis
    proof (cases rule: block_at_cases)
      case (slab i)
      obtain j where j: "j < slots i" "p = obj c i j" "i < 40" "chunk_base c"
        by (rule slab_used_obj [OF I(5) slab(1,2)])
      then show ?thesis using chunk a slab(3) by (simp add: unat_obj)
    next
      case span
      from span_start_unat [OF I(5) span] obtain j where j: "unat p = unat c + 4096 * j" "chunk_base c" by blast
      have "a dvd 4096 * j" by (rule dvd_trans [OF a(2)]) (simp add: dvd_mult2)
      then show ?thesis using chunk j by simp
    qed
  next
    case (direct d t off)
    note r = direct_atD [OF direct_okD(1) [OF I(3) direct(1)]]
    show ?thesis
      using direct_object(1) [OF I(3) direct(1)] direct(2) chunk [OF r(1)] dvd_trans [OF a(2) r(11)] by simp
  qed
qed

lemma align_up_bounds:
  assumes "k < 62" "unat s < 2 ^ 62"
  shows "unat s \<le> unat (LZ_ALIGN_UP s (2 ^ k))" "2 ^ k dvd unat (LZ_ALIGN_UP s (2 ^ k))" "unat (LZ_ALIGN_UP s (2 ^ k)) \<le> unat s + 2 ^ k - 1"
    "2 ^ k dvd m \<Longrightarrow> unat s \<le> m \<Longrightarrow> unat (LZ_ALIGN_UP s (2 ^ k)) \<le> m"
proof -
  have p: "(2::nat) ^ k \<le> 2 ^ 62" using assms(1) by (intro power_increasing) simp_all
  have u: "unat (LZ_ALIGN_UP s (2 ^ k)) = (unat s + 2 ^ k - 1) div 2 ^ k * 2 ^ k"
    by (rule unat_align_up) (use assms p in simp_all)
  show "unat s \<le> unat (LZ_ALIGN_UP s (2 ^ k))" unfolding u using round_up_ge [of "2 ^ k" "unat s"] by simp
  show "2 ^ k dvd unat (LZ_ALIGN_UP s (2 ^ k))" unfolding u by simp
  show "unat (LZ_ALIGN_UP s (2 ^ k)) \<le> unat s + 2 ^ k - 1" unfolding u by (rule div_times_less_eq_dividend)
  assume m: "2 ^ k dvd m" "unat s \<le> m"
  then obtain q where q: "m = 2 ^ k * q" by (elim dvdE)
  define P :: nat where "P = 2 ^ k"
  have P: "0 < P" by (simp add: P_def)
  have "(unat s + P - 1) div P < Suc q" by (rule less_mult_imp_div_less) (use m(2) q P in \<open>simp add: P_def [symmetric] mult.commute\<close>)
  then have "(unat s + 2 ^ k - 1) div 2 ^ k \<le> q" by (simp add: P_def)
  then show "unat (LZ_ALIGN_UP s (2 ^ k)) \<le> m" unfolding u q by (simp add: mult.commute)
qed

section \<open>memalign\<close>

lemma memalign_small:
  assumes ok: "mmap_ok env" and inv: "api_inv st A" and t: "t \<notin> dX A" and k: "k \<le> 6" and sz: "0 < unat sz" "unat sz \<le> 32768"
  shows "returns_or (no_heap env t st) (lz_malloc env t (LZ_ALIGN_UP sz (2 ^ k)) st)
    (\<lambda>(p, st'). \<exists>A' n. new_object st A p n st' A' \<and> unat sz \<le> n \<and> 2 ^ k dvd unat p)"
proof -
  define r where "r = LZ_ALIGN_UP sz (2 ^ k)"
  have "(2::nat) ^ k dvd 2 ^ 15" using k by (intro le_imp_power_dvd) simp
  then have r: "unat sz \<le> unat r" "2 ^ k dvd unat r" "unat r \<le> 32768"
    using align_up_bounds [of k sz] k sz unfolding r_def by simp_all
  have "max (unat r) 1 = unat r" using r(1) sz(1) by simp
  then have g: "granted (unat r) = class_bytes (unat (lz_size_to_class r))" using r(3) by (simp add: granted_def del: max.absorb1)
  have d: "2 ^ k dvd granted (unat r)" unfolding g by (rule class_bytes_aligned [OF k r(2)]) (use r sz in simp)
  have d128: "(2::nat) ^ k dvd 128" using le_imp_power_dvd [of k 7 "2 :: nat"] k by simp
  have s: "unat r < 2 ^ 62" using r(3) by simp
  show ?thesis
    unfolding r_def [symmetric]
  proof (rule returns_or_mono [OF malloc_spec [OF ok inv t s]], assumption, clarify)
    fix p st1 A1 assume n: "new_object st A p (granted (unat r)) st1 A1"
    have "2 ^ k dvd unat p" if "p \<noteq> 0" by (rule object_aligned [OF new_objectD(1) [OF n] new_objectD(6) [OF n that] d d128])
    then have "2 ^ k dvd unat p" by (cases "p = 0") simp_all
    then show "\<exists>A' n. new_object st A p n st1 A' \<and> unat sz \<le> n \<and> 2 ^ k dvd unat p"
      using n granted_bounds(1) [of "unat r"] r(1) by (intro exI [of _ A1] exI [of _ "granted (unat r)"]) simp
  qed
qed

lemma memalign_span:
  assumes ok: "mmap_ok env" and inv: "api_inv st A" and t: "t \<notin> dX A" and k: "k \<le> 12" and sz: "0 < sz" "sz \<le> 1048576"
  shows "returns_or (no_heap env t st) (ensure_tls_init env t st \<bind> (\<lambda>st. lz_span_alloc env (tls_tlh_ptr st t) sz st))
    (\<lambda>(p, st'). \<exists>A' n. new_object st A p n st' A' \<and> unat sz \<le> n \<and> 2 ^ k dvd unat p)"
proof (rule ensure_then [OF ok inv t])
  fix st1 A1 assume a: "api_inv st1 A1" "unchanged {} st A st1 A1" "trace_ext st st1" "tls_tlh_ptr st1 t \<in> gheaps (dG A1)"
  from span_call [OF ok a(1,4) sz] obtain p st2 A2 where r: "lz_span_alloc env (tls_tlh_ptr st1 t) sz st1 = Some (p, st2)"
    "4096 dvd unat p" "new_object st1 A1 p (4096 * ((unat sz + 4095) div 4096)) st2 A2" by auto
  have "(2::nat) ^ k dvd 2 ^ 12" using k by (rule le_imp_power_dvd)
  then have "2 ^ k dvd unat p" using r(2) by (intro dvd_trans [of "2 ^ k" "4096" "unat p"]) simp_all
  moreover have "unat sz \<le> 4096 * ((unat sz + 4095) div 4096)" by linarith
  ultimately show "\<exists>r. lz_span_alloc env (tls_tlh_ptr st1 t) sz st1 = Some r \<and>
      (case r of (p, st') \<Rightarrow> \<exists>A' n. new_object st A p n st' A' \<and> unat sz \<le> n \<and> 2 ^ k dvd unat p)"
    using r(1) new_object_after [OF a(2,3) r(3)] by auto
qed

text \<open>The offset of an object in a mapping is 128 or the alignment.\<close>

lemma dynamic_offset:
  assumes "k < 62"
  shows "LZ_ALIGN_UP 128 (2 ^ k) = (if k \<le> 7 then 128 else 2 ^ k)" "unat (LZ_ALIGN_UP 128 (2 ^ k)) = (if k \<le> 7 then 128 else 2 ^ k)"
proof -
  show u: "unat (LZ_ALIGN_UP 128 (2 ^ k)) = (if k \<le> 7 then 128 else 2 ^ k)"
  proof (cases "k \<le> 7")
    case True
    have d: "(2::nat) ^ k dvd 128" using le_imp_power_dvd [OF True, of "2 :: nat"] by simp
    have "unat (LZ_ALIGN_UP 128 (2 ^ k)) \<le> 128" "128 \<le> unat (LZ_ALIGN_UP 128 (2 ^ k))"
      using align_up_bounds(4) [OF assms, of 128 128] d align_up_bounds(1) [OF assms, of 128] by simp_all
    then show ?thesis using True by simp
  next
    case False
    then have p: "128 \<le> (2::nat) ^ k" using power_increasing [of 7 k "2 :: nat"] by simp
    have "unat (LZ_ALIGN_UP 128 (2 ^ k)) \<le> 2 ^ k"
      using align_up_bounds(4) [OF assms, of 128 "2 ^ k"] p by simp
    moreover have "2 ^ k \<le> unat (LZ_ALIGN_UP 128 (2 ^ k))"
      by (rule dvd_imp_le) (use align_up_bounds(1,2) [OF assms, of 128] in simp_all)
    ultimately show ?thesis using False by simp
  qed
  then show "LZ_ALIGN_UP 128 (2 ^ k) = (if k \<le> 7 then 128 else 2 ^ k)"
    using assms by (auto simp: word_unat_eq_iff unat_pow2)
qed

lemma memalign_direct:
  assumes ok: "mmap_ok env" and inv: "api_inv st A" and k: "2 ^ k + unat sz < (2 :: nat) ^ 61" and sz: "0 < unat sz"
  defines "off \<equiv> LZ_ALIGN_UP 128 (2 ^ k)"
  shows "\<exists>p st' A'. direct_alloc env (LZ_ALIGN_UP (off + sz) LZ_HUGE_PAGE_SIZE) off sz st = Some (p, st') \<and>
    new_object st A p (unat sz) st' A' \<and> (k \<le> 21 \<longrightarrow> 2 ^ k dvd unat p)"
proof -
  have "(2::nat) ^ k < 2 ^ 61" using k by simp
  then have k61: "k < 61" by (rule power_less_imp_less_exp [rotated]) simp
  have o: "unat off = (if k \<le> 7 then 128 else 2 ^ k)" using dynamic_offset(2) [of k] k61 unfolding off_def by simp
  have o128: "128 dvd unat off" unfolding o using le_imp_power_dvd [of 7 k "2 :: nat"] by simp
  have ok2: "2 ^ k dvd unat off" unfolding o using le_imp_power_dvd [of k 7 "2 :: nat"] by simp
  have ob: "128 \<le> unat off" "unat off \<le> 128 + 2 ^ k" using o128 by (auto simp: o intro: dvd_imp_le)
  have "unat off + unat sz + 2097151 < 2 ^ 63" using ob(2) k by simp
  note tot = direct_total [OF this]
  from direct_alloc_spec [OF ok inv tot(1,2) sz ob(1) tot(3) o128]
  obtain p st' A' where r: "direct_alloc env (LZ_ALIGN_UP (off + sz) LZ_HUGE_PAGE_SIZE) off sz st = Some (p, st')" "api_inv st' A'" "trace_ext st st'"
    "if p = 0 then unchanged {} st A st' A' \<and> refused st st'
     else unchanged {p} st A st' A' \<and> object st' A' p (unat sz) \<and> (\<forall>m. \<not> object st A p m) \<and>
       (\<forall>a\<in>bytes p (unat sz). mem st' a = 0) \<and> (\<exists>d. chunk_base d \<and> unat p = unat d + unat off)" by blast
  have "2 ^ k dvd unat p" if "k \<le> 21"
  proof (cases "p = 0")
    case False
    then obtain d where d: "chunk_base d" "unat p = unat d + unat off" using r(4) by auto
    have "(2::nat) ^ k dvd 2097152" using le_imp_power_dvd [OF that, of "2 :: nat"] by simp
    then have "2 ^ k dvd unat d" using d(1) unfolding chunk_base_def by (auto intro: dvd_trans)
    then show ?thesis using d(2) ok2 by simp
  qed simp
  moreover have "new_object st A p (unat sz) st' A'" unfolding new_object_def using r(2-4) by auto
  ultimately show ?thesis using r(1) by blast
qed

lemma memalign_spec:
  assumes ok: "mmap_ok env" and inv: "api_inv st A" and t: "t \<notin> dX A" and al: "is_power_of_two al"
    and sz: "0 < unat sz" "unat al + unat sz < 2 ^ 61"
  shows "returns_or (no_heap env t st) (lz_memalign env t al sz st)
    (\<lambda>(p, st'). \<exists>A' n. new_object st A p n st' A' \<and> unat sz \<le> n \<and> (unat al \<le> 2097152 \<longrightarrow> unat al dvd unat p))"
proof -
  obtain k where k: "k < 64" "al = 2 ^ k" "unat al = 2 ^ k" by (rule power_of_two [OF al])
  have al0: "\<not> (al = 0 \<or> \<not> is_power_of_two al)" using al by (auto simp: is_power_of_two_def)
  have le: "(2::nat) ^ k \<le> 2 ^ m \<longleftrightarrow> k \<le> m" for m by (simp add: power_increasing_iff)
  consider (small) "k \<le> 6" "unat sz \<le> 32768" | (span) "\<not> (k \<le> 6 \<and> unat sz \<le> 32768)" "k \<le> 12" "unat sz \<le> 1048576"
    | (direct) "\<not> (k \<le> 6 \<and> unat sz \<le> 32768)" "\<not> (k \<le> 12 \<and> unat sz \<le> 1048576)" by blast
  then show ?thesis
  proof cases
    case small
    then have run: "lz_memalign env t al sz st = lz_malloc env t (LZ_ALIGN_UP sz (2 ^ k)) st"
      using al0 le [of 6] k(3) by (simp add: lz_memalign_def word_le_nat_alt flip: k(2))
    show ?thesis unfolding run k(3)
      by (rule returns_or_mono [OF memalign_small [OF ok inv t small(1) sz(1) small(2)]]) auto
  next
    case span
    then have run: "lz_memalign env t al sz st = ensure_tls_init env t st \<bind> (\<lambda>st. lz_span_alloc env (tls_tlh_ptr st t) sz st)"
      using al0 le [of 6] le [of 12] k(3) by (auto simp: lz_memalign_def word_le_nat_alt)
    show ?thesis unfolding run k(3)
      by (rule returns_or_mono [OF memalign_span [OF ok inv t span(2)]]) (use sz span in \<open>auto simp: word_less_nat_alt word_le_nat_alt\<close>)
  next
    case direct
    let ?o = "LZ_ALIGN_UP 128 (2 ^ k)"
    have run: "lz_memalign env t al sz st = direct_alloc env (LZ_ALIGN_UP (?o + sz) LZ_HUGE_PAGE_SIZE) ?o sz st"
      using direct al0 le [of 6] le [of 12] k(3) by (auto simp: lz_memalign_def direct_alloc_def Let_def word_le_nat_alt simp flip: k(2))
    obtain p st' A' where r: "direct_alloc env (LZ_ALIGN_UP (?o + sz) LZ_HUGE_PAGE_SIZE) ?o sz st = Some (p, st')"
      "new_object st A p (unat sz) st' A'" "k \<le> 21 \<longrightarrow> 2 ^ k dvd unat p"
      using memalign_direct [OF ok inv _ sz(1)] sz(2) k(3) by metis
    show ?thesis unfolding run k(3) by (rule returns_orI [OF r(1)]) (use r(2,3) le [of 21] in auto)
  qed
qed

end
