(* ===== verification/Api_Threads.thy ===== *)
theory Api_Threads
  imports Api_Align
begin

text \<open>
  Garbage collection and the end of a thread.
\<close>

section \<open>Purging\<close>

lemma purge_struct:
  assumes inv: "heap_struct st G"
  shows "\<exists>st' PG. lz_vmm_purge_all_caches st = Some st' \<and> heap_struct st' (G\<lparr>gpools := PG\<rparr>) \<and> evolves {} st G st' (G\<lparr>gpools := PG\<rparr>) \<and>
    (\<forall>n<LZ_MAX_NUMA_NODES. free_chunks (g_numa_pools st' n) = 0)"
proof -
  note lay = layout_okD [OF heap_structD(3) [OF inv]]
  obtain P L where P: "gpools G = (P, L)" by fastforce
  let ?C = "\<Union>c\<in>cached P [0..<16]. chunk_block c"
  let ?PG = "(\<lambda>n. if n \<in> set [0..<16] then [] else P n, rev (concat (map P [0..<16])) @ L)"
  let ?G = "G\<lparr>gpools := ?PG\<rparr>"
  from purge_nodes_spec [OF heap_structD(1) [OF inv, unfolded P], of "[0..<16]"] obtain st' where
    run: "lz_vmm_purge_all_caches st = Some st'" and vmm: "vmm_inv st' ?PG" and k: "keeps ?C st st'" and fr: "vmm_frame st st'"
    unfolding lz_vmm_purge_all_caches_def by auto
  have idle: "idle ?PG \<subseteq> idle (gpools G)" "cached P [0..<16] \<subseteq> idle (gpools G)"
    unfolding P by (auto simp: idle_def cached_def)
  have root: "g_rtree_root st' = g_rtree_root st" "g_telemetry_matrix st' = g_telemetry_matrix st"
    using fr by (simp_all add: vmm_frame_def)
  have p: "pinned st' ?G = pinned st G" by (simp add: pinned_def root)
  have lay': "layout_ok st' ?G"
    unfolding layout_ok_def p
    using lay idle(1) chunk_at_keeps [OF _ k] keeps_valid [OF k] by auto
  have pc: "a \<notin> ?C" if "a \<in> pinned st G" for a using lay(5) [OF that] idle(2) by blast
  have C: "chunk_block c \<inter> ?C = {}" if c: "gown G c = Some u" for c u
  proof -
    have "chunk_block c \<inter> chunk_block d = {}" if d: "d \<in> cached P [0..<16]" for d
    proof (rule chunk_blocks_disjoint [OF lay(1) [OF c]])
      show "chunk_at st d" using vmm_invD(4) [OF heap_structD(1) [OF inv]] d idle(2) by blast
      show "c \<noteq> d" using lay(2) [OF c] d idle(2) by blast
    qed
    then show ?thesis by blast
  qed
  then have C': "chunk_block c \<inter> ?C = {}" if "gown G c = Some u" "u \<noteq> Spare" for c u using that by blast
  have get: "lz_rtree_get st' a = lz_rtree_get st a" for a
  proof (rule rtree_get_keeps [OF heap_structD(2) [OF inv] k root(1)])
    fix i assume i: "unat i < 8192" "g_rtree_root st i \<noteq> 0"
    have "within (g_rtree_root st i) 131072 (g_rtree_root st i)" by (simp add: within_def)
    then have "g_rtree_root st i \<in> pinned st G" using i unfolding pinned_def by blast
    then show "g_rtree_root st i \<notin> ?C" by (rule pc)
  qed
  have idx: "index_ok st' ?G" by (rule index_ok_more [OF heap_structD(4) [OF inv] get]) simp
  have tl: "tlhs st' T = tlhs st T" if "T \<in> gheaps G" for T
    using keepsD(4) [OF k lay(3) [OF heap_pinned [OF that]]] pc [OF heap_pinned [OF that]] by blast
  have G': "?G = G\<lparr>gpools := ?PG, gown := gown G\<rparr>" by simp
  note o = heap_struct_outer [OF inv k C' tl vmm_frame_outer [OF fr] G' refl vmm rtree_inv_keeps [OF heap_structD(2) [OF inv] k root(1)] lay' idx]
  have "heap_struct st' ?G" "evolves {} st G st' ?G" by (rule o; assumption)+
  moreover have "free_chunks (g_numa_pools st' n) = 0" if "n < 16" for n
    using vmm_invD(1) [OF vmm that] that by (simp add: pool_inv_def)
  ultimately show ?thesis using run by blast
qed

lemma purge_api:
  assumes inv: "api_inv st A"
  shows "\<exists>st' A'. lz_vmm_purge_all_caches st = Some st' \<and> api_inv st' A' \<and> unchanged {} st A st' A' \<and>
    gheaps (dG A') = gheaps (dG A) \<and> dM A' = dM A \<and> tls_tlh_ptr st' = tls_tlh_ptr st \<and> g_zombie_tlhs st' = g_zombie_tlhs st \<and>
    (\<forall>n<LZ_MAX_NUMA_NODES. free_chunks (g_numa_pools st' n) = 0)"
proof -
  note I = api_invD [OF inv] heap_invD [OF api_invD(1) [OF inv]]
  obtain st' PG where p: "lz_vmm_purge_all_caches st = Some st'" "heap_struct st' ((dG A)\<lparr>gpools := PG\<rparr>)"
    "evolves {} st (dG A) st' ((dG A)\<lparr>gpools := PG\<rparr>)" "\<forall>n<LZ_MAX_NUMA_NODES. free_chunks (g_numa_pools st' n) = 0"
    using purge_struct [OF I(5)] by blast
  have s: "status_ok ((dG A)\<lparr>gpools := PG\<rparr>)" using I(7) by (simp add: status_ok_def)
  have h: "heap_inv st' ((dG A)\<lparr>gpools := PG\<rparr>) (dM A) (dB A)"
    by (rule heap_inv_evolves [OF I(1) p(2) s p(3)]) simp
  have "tls_tlh_ptr st' = tls_tlh_ptr st" "g_zombie_tlhs st' = g_zombie_tlhs st"
    using evolvesD(1) [OF p(3)] by (simp_all add: outer_globals_def)
  then show ?thesis using p(1,4) api_client [OF inv h evolves_client [OF p(3)]]
    by (intro exI [of _ st'] exI [of _ "A\<lparr>dG := (dG A)\<lparr>gpools := PG\<rparr>, dM := dM A, dB := dB A\<rparr>"]) simp
qed

section \<open>Garbage collection\<close>

lemma reap_api:
  assumes ok: "mmap_ok env" and inv: "api_inv st A" and T: "T \<in> gheaps (dG A)"
  shows "\<exists>st' A'. lz_tlh_reap env T st = Some st' \<and> api_inv st' A' \<and> unchanged {} st A st' A' \<and> gheaps (dG A') = gheaps (dG A) \<and>
    dZ A' = dZ A \<and> dM A' = (dM A)(T := []) \<and> (\<forall>U\<in>gheaps (dG A). tl_next_zombie (tlhs st' U) = tl_next_zombie (tlhs st U)) \<and>
    tls_tlh_ptr st' = tls_tlh_ptr st \<and> g_zombie_tlhs st' = g_zombie_tlhs st"
proof -
  obtain st' G' where r: "lz_tlh_reap env T st = Some st'" "heap_inv st' G' ((dM A)(T := [])) (dB A)"
    "client_step {} st (dG A) (dM A) (dB A) st' G' ((dM A)(T := [])) (dB A)"
    using tlh_reap_client [OF ok api_invD(1) [OF inv] T] by blast
  note C = client_stepD [OF r(3)]
  have "tl_next_zombie (tlhs st' U) = tl_next_zombie (tlhs st U)" if "U \<in> gheaps (dG A)" for U
    using C(3) [OF that] by (simp add: thread_part_def)
  moreover have "tls_tlh_ptr st' = tls_tlh_ptr st" "g_zombie_tlhs st' = g_zombie_tlhs st" using C(1) by (simp_all add: outer_globals_def)
  ultimately show ?thesis
    using r(1) api_client [OF inv r(2,3)] C(2)
    by (intro exI [of _ st'] exI [of _ "A\<lparr>dG := G', dM := (dM A)(T := []), dB := dB A\<rparr>"]) simp
qed

lemma reap_zombies_api:
  assumes ok: "mmap_ok env"
  shows "api_inv st A \<Longrightarrow> chain (\<lambda>T. tl_next_zombie (tlhs st T)) p zs \<Longrightarrow> set zs \<subseteq> gheaps (dG A) \<Longrightarrow>
    \<exists>st' A'. reap_zombies env p st = Some st' \<and> api_inv st' A' \<and> unchanged {} st A st' A' \<and> gheaps (dG A') = gheaps (dG A) \<and>
      (\<forall>T. dM A' T = (if T \<in> set zs then [] else dM A T)) \<and> tls_tlh_ptr st' = tls_tlh_ptr st \<and> g_zombie_tlhs st' = g_zombie_tlhs st"
proof (induction zs arbitrary: p st A)
  case Nil
  then have "reap_zombies env p st = Some st" by (simp add: reap_zombies.simps)
  then show ?case using Nil by (intro exI [of _ st] exI [of _ A]) simp
next
  case (Cons T zs)
  have p: "p = T" "T \<noteq> 0" and rest: "chain (\<lambda>T. tl_next_zombie (tlhs st T)) (tl_next_zombie (tlhs st T)) zs"
    using Cons.prems(2) by auto
  have T: "T \<in> gheaps (dG A)" "set zs \<subseteq> gheaps (dG A)" using Cons.prems(3) by auto
  obtain st1 A1 where r: "lz_tlh_reap env T st = Some st1" "api_inv st1 A1" "unchanged {} st A st1 A1" "gheaps (dG A1) = gheaps (dG A)"
    "dM A1 = (dM A)(T := [])" "\<And>U. U \<in> gheaps (dG A) \<Longrightarrow> tl_next_zombie (tlhs st1 U) = tl_next_zombie (tlhs st U)"
    "tls_tlh_ptr st1 = tls_tlh_ptr st" "g_zombie_tlhs st1 = g_zombie_tlhs st"
    using reap_api [OF ok Cons.prems(1) T(1)] by blast
  have "chain (\<lambda>U. tl_next_zombie (tlhs st1 U)) q zs = chain (\<lambda>U. tl_next_zombie (tlhs st U)) q zs" for q
    by (rule chain_cong) (use r(6) T(2) in auto)
  then have ch: "chain (\<lambda>U. tl_next_zombie (tlhs st1 U)) (tl_next_zombie (tlhs st1 T)) zs" using rest r(6) [OF T(1)] by simp
  from Cons.IH [OF r(2) ch] T(2) r(4) obtain st2 A2 where s: "reap_zombies env (tl_next_zombie (tlhs st1 T)) st1 = Some st2"
    "api_inv st2 A2" "unchanged {} st1 A1 st2 A2" "gheaps (dG A2) = gheaps (dG A1)"
    "\<forall>U. dM A2 U = (if U \<in> set zs then [] else dM A1 U)" "tls_tlh_ptr st2 = tls_tlh_ptr st1" "g_zombie_tlhs st2 = g_zombie_tlhs st1"
    by auto
  have "valid st1 T" using stat_valid(1) [OF api_invD(5) [OF r(2)]] T(1) r(4) by simp
  then have "reap_zombies env p st = Some st2"
    using p r(1) s(1) by (subst reap_zombies.simps) (simp add: get_tlh_def)
  moreover have "unchanged {} st A st2 A2" using unchanged_trans [OF r(3) s(3)] by simp
  ultimately show ?case using s r by (intro exI [of _ st2] exI [of _ A2]) auto
qed

lemma mailbox_empty:
  assumes inv: "api_inv st A" and T: "T \<in> gheaps (dG A)" and m: "dM A T = []"
  shows "tl_remote_free_head (tlhs st T) = 0"
  using msgs_okD(1) [OF heap_invD(3) [OF api_invD(1) [OF inv]] T] m by (simp add: mail_ok_def)

lemma gc_spec:
  assumes ok: "mmap_ok env" and inv: "api_inv st A" and t: "t \<notin> dX A"
  shows "\<exists>st' A'. lzmalloc_gc env t st = Some st' \<and> api_inv st' A' \<and> unchanged {} st A st' A' \<and>
    (\<forall>T\<in>set (dZ A) \<union> {tls_tlh_ptr st t} - {0}. tl_remote_free_head (tlhs st' T) = 0) \<and>
    (\<forall>n<LZ_MAX_NUMA_NODES. free_chunks (g_numa_pools st' n) = 0)"
proof -
  let ?T = "tls_tlh_ptr st t"
  note Th = threads_okD [OF api_invD(4) [OF inv]]
  obtain st1 A1 where r: "(if ?T \<noteq> 0 then lz_tlh_reap env ?T st else Some st) = Some st1" "api_inv st1 A1" "unchanged {} st A st1 A1"
    "gheaps (dG A1) = gheaps (dG A)" "dZ A1 = dZ A" "?T \<noteq> 0 \<Longrightarrow> dM A1 ?T = []"
  proof (cases "?T = 0")
    case True
    then show thesis using that [of st A] inv by simp
  next
    case False
    then have "?T \<in> gheaps (dG A)" using Th(5) [OF t] by blast
    from reap_api [OF ok inv this] that show thesis using False by auto
  qed
  note Th1 = threads_okD [OF api_invD(4) [OF r(2)]]
  have lock: "zombie_lock st1 = Some (st1\<lparr>g_zombie_lock := True\<rparr>)" using Th1(1) by (simp add: zombie_lock_def)
  have unlock: "zombie_unlock (st1\<lparr>g_zombie_lock := True\<rparr>) = st1" using Th1(1) by (simp add: zombie_unlock_def)
  obtain st2 A2 where z: "reap_zombies env (g_zombie_tlhs st1) st1 = Some st2" "api_inv st2 A2" "unchanged {} st1 A1 st2 A2"
    "gheaps (dG A2) = gheaps (dG A1)" "\<And>T. dM A2 T = (if T \<in> set (dZ A1) then [] else dM A1 T)"
    using reap_zombies_api [OF ok r(2) Th1(2,3)] by blast
  obtain st3 A3 where p: "lz_vmm_purge_all_caches st2 = Some st3" "api_inv st3 A3" "unchanged {} st2 A2 st3 A3"
    "gheaps (dG A3) = gheaps (dG A2)" "dM A3 = dM A2" "\<forall>n<LZ_MAX_NUMA_NODES. free_chunks (g_numa_pools st3 n) = 0"
    using purge_api [OF z(2)] by blast
  have "lzmalloc_gc env t st = Some st3" using r(1) lock unlock z(1) p(1) by (simp add: lzmalloc_gc_def)
  moreover have "unchanged {} st A st3 A3" using unchanged_trans [OF unchanged_trans [OF r(3) z(3)] p(3)] by simp
  moreover have "tl_remote_free_head (tlhs st3 T) = 0" if T: "T \<in> set (dZ A) \<union> {?T} - {0}" for T
  proof (rule mailbox_empty [OF p(2)])
    show "T \<in> gheaps (dG A3)" using T Th(3) Th(5) [OF t] r(4) z(4) p(4) by auto
    show "dM A3 T = []" using T r(5,6) z(5) p(5) by auto
  qed
  ultimately show ?thesis using p(2,6) by blast
qed

section \<open>The end of a thread\<close>

lemma destructor_run:
  assumes T: "T \<noteq> 0" "valid st1 T" "lz_tlh_flush_outgoing_batch T st = Some st1" "\<not> g_zombie_lock st1"
    and s: "tl_stat_slot (tlhs st1 T) = 0 \<or> valid st1 (tl_stat_slot (tlhs st1 T))"
  shows "\<exists>c h. lz_tlh_destructor T st = Some (st1\<lparr>stats := c, tlhs := (tlhs st1)(T := h), g_zombie_tlhs := T\<rparr>) \<and>
    same_heap (tlhs st1 T) h \<and> tl_stat_slot h = tl_stat_slot (tlhs st1 T) \<and> tl_next_zombie h = g_zombie_tlhs st1 \<and> tl_is_zombie h = 1"
proof -
  have v: "valid (st\<lparr>stats := c\<rparr>) = valid st" for st :: lz_state and c by (simp add: valid_def fun_eq_iff)
  let ?k = "tl_stat_slot (tlhs st1 T)" and ?a = "tl_local_bytes_alloc_batch (tlhs st1 T)" and ?f = "tl_local_bytes_free_batch (tlhs st1 T)"
  define g where "g = (if 0 < ?a then (stats st1)(?k := (stats st1 ?k)\<lparr>bytes_allocated := bytes_allocated (stats st1 ?k) + ucast ?a\<rparr>) else stats st1)"
  define c where "c = (if ?k = 0 then stats st1 else if 0 < ?f then g(?k := (g ?k)\<lparr>bytes_allocated := bytes_allocated (g ?k) - ucast ?f\<rparr>) else g)"
  define h where "h = (if ?k = 0 then tlhs st1 T else (tlhs st1 T)\<lparr>tl_local_bytes_alloc_batch := 0, tl_local_bytes_free_batch := 0\<rparr>)
    \<lparr>tl_is_zombie := 1, tl_next_zombie := g_zombie_tlhs st1\<rparr>"
  have "lz_tlh_destructor T st = Some (st1\<lparr>stats := c, tlhs := (tlhs st1)(T := h), g_zombie_tlhs := T\<rparr>)"
    using assms
    by (auto simp: lz_tlh_destructor_def get_tlh_def upd_tlh_def upd_stat_def zombie_lock_def zombie_unlock_def c_def h_def g_def v)
  then show ?thesis by (intro exI [of _ c] exI [of _ h]) (simp add: same_heap_def h_def)
qed

lemma exit_spec:
  assumes inv: "api_inv st A" and t: "t \<notin> dX A" and T: "g_tlh_key st t \<noteq> 0"
  shows "\<exists>st' A'. lz_tlh_destructor (g_tlh_key st t) st = Some st' \<and> api_inv st' A' \<and> dX A' = insert t (dX A) \<and>
    dZ A' = g_tlh_key st t # dZ A \<and> tls_tlh_ptr st' = tls_tlh_ptr st \<and> (\<forall>p n. object st' A' p n \<longleftrightarrow> object st A p n) \<and>
    (\<forall>p n. object st A p n \<longrightarrow> (\<forall>a\<in>bytes p n. mem st' a = mem st a))"
proof -
  let ?T = "g_tlh_key st t"
  note Th = threads_okD [OF api_invD(4) [OF inv]]
  have TT: "tls_tlh_ptr st t = ?T" "?T \<in> gheaps (dG A)" "?T \<notin> set (dZ A)" using Th(4,5) [OF t] T by auto
  obtain st1 M B where f: "lz_tlh_flush_outgoing_batch ?T st = Some st1" "heap_inv st1 (dG A) M B"
    "client_step {} st (dG A) (dM A) (dB A) st1 (dG A) M B"
    using tlh_flush_client [OF api_invD(1) [OF inv] TT(2)] by blast
  let ?A1 = "A\<lparr>dG := dG A, dM := M, dB := B\<rparr>"
  note a = api_client [OF inv f(2,3)] and C = client_stepD [OF f(3)]
  note I1 = api_invD [OF a(1)] and Th1 = threads_okD [OF api_invD(4) [OF a(1)]]
  have T1: "?T \<in> gheaps (dG ?A1)" using TT(2) by simp
  have g: "tls_tlh_ptr st1 = tls_tlh_ptr st" "g_tlh_key st1 = g_tlh_key st" using C(1) by (simp_all add: outer_globals_def)
  obtain c h where d: "lz_tlh_destructor ?T st = Some (st1\<lparr>stats := c, tlhs := (tlhs st1)(?T := h), g_zombie_tlhs := ?T\<rparr>)"
    "same_heap (tlhs st1 ?T) h" "tl_stat_slot h = tl_stat_slot (tlhs st1 ?T)" "tl_next_zombie h = g_zombie_tlhs st1"
    using destructor_run [OF T stat_valid(1) [OF I1(5) T1] f(1) Th1(1) stat_valid(2) [OF I1(5) T1]] by blast
  let ?st = "st1\<lparr>stats := c, tlhs := (tlhs st1)(?T := h), g_zombie_tlhs := ?T\<rparr>"
  let ?A = "?A1\<lparr>dZ := ?T # dZ A, dX := insert t (dX A)\<rparr>"
  have v: "same_views st1 ?st" by (simp add: same_views_def)
  have "same_heap (tlhs st1 U) (tlhs ?st U) \<and> stat_ok ?st U" if "U \<in> gheaps (dG ?A1)" for U
    using heap_structD(9) [OF I1(5) that] d(2,3) by (cases "U = ?T") (simp_all add: stat_ok_def same_heap_def)
  note h = this
  have "chain (\<lambda>U. tl_next_zombie (tlhs ?st U)) p (dZ A) = chain (\<lambda>U. tl_next_zombie (tlhs st1 U)) p (dZ A)" for p
    by (rule chain_cong) (use TT(3) in auto)
  then have z: "chain (\<lambda>U. tl_next_zombie (tlhs ?st U)) ?T (?T # dZ A)" using Th1(2) T d(4) by simp
  have own: "tls_tlh_ptr st u \<noteq> ?T" if "u \<notin> dX A" "u \<noteq> t" for u using Th(6) [OF that(1) t] TT(1) T that(2) by auto
  have th: "threads_ok ?st ?A"
    unfolding threads_ok_def using Th1(1,3,4,5,6) z TT own g by (auto simp del: fun_upd_apply)
  note s = api_threads [OF a(1) v h _ _ _ _ th]
  have i: "api_inv ?st ?A" by (rule s(1)) simp_all
  have h1: "heap_inv ?st (dG A) M B" "\<And>U y n. live ?st (dG A) M B U y n \<longleftrightarrow> live st1 (dG A) M B U y n"
    by (rule heap_inv_threads [OF f(2) v]; use h in auto)+
  have o: "object ?st ?A p n \<longleftrightarrow> object st A p n" for p n
    using unchangedD(2) [OF a(2), of p n] h1(2) by (simp add: object_def mapped_object_def)
  have "mem ?st x = mem st x" if "object st A p n" "x \<in> bytes p n" for p n x
    using unchangedD(3) [OF a(2) _ that] by simp
  then show ?thesis using d(1) i o g(1) by (intro exI [of _ ?st] exI [of _ ?A]) simp
qed

end
