(* ===== verification/Api_Start.thy ===== *)
theory Api_Start
  imports Api_Threads
begin

text \<open>
  The start of the process: \<open>lz_system_init\<close> on zero-initialised globals establishes the invariant.
\<close>

definition no_objects :: alloc_desc where
  "no_objects = \<lparr>dG = \<lparr>gpools = (\<lambda>_. [], []), gheaps = {}, gown = Map.empty, gcarved = (\<lambda>_. 0), gfree = (\<lambda>_. []),
       gcur = (\<lambda>_ _. 0), gpart = (\<lambda>_ _. []), gfull = (\<lambda>_ _. []), gspans = (\<lambda>_. [])\<rparr>,
     dM = (\<lambda>_. []), dB = (\<lambda>_. []), dD = Map.empty, dZ = [], dX = {}\<rparr>"

text \<open>The globals that the loader has zeroed and nothing has touched yet; the arena of the base allocator is not among them.\<close>

definition pristine :: "lz_state \<Rightarrow> bool" where
  "pristine st \<longleftrightarrow> g_global_free_chunks st = 0 \<and> tls_tlh_ptr st = (\<lambda>_. 0) \<and> g_tlh_key st = (\<lambda>_. 0) \<and>
     g_zombie_tlhs st = 0 \<and> \<not> g_zombie_lock st \<and> g_telemetry_matrix st = 0"

text \<open>The state after the allocator's globals are set up.\<close>

definition set_up :: "lz_state \<Rightarrow> bool" where
  "set_up st \<longleftrightarrow> vmm_inv st (\<lambda>_. [], []) \<and> (\<forall>i. unat i < 8192 \<longrightarrow> g_rtree_root st i = 0) \<and> tls_tlh_ptr st = (\<lambda>_. 0) \<and>
     g_tlh_key st = (\<lambda>_. 0) \<and> g_zombie_tlhs st = 0 \<and> \<not> g_zombie_lock st \<and> telemetry_inv st"

lemma set_up_inv:
  assumes "set_up st"
  shows "api_inv st no_objects"
proof -
  have st: "vmm_inv st (\<lambda>_. [], [])" "\<And>i. unat i < 8192 \<Longrightarrow> g_rtree_root st i = 0" "telemetry_inv st"
    using assms by (simp_all add: set_up_def)
  let ?G = "dG no_objects"
  have rt: "rtree_inv st" using st(2) by (simp add: rtree_inv_def)
  have "index_ok st ?G" using st(2) rtree_idx_bounds(1) by (simp add: index_ok_def rtree_get_eq [OF rt])
  moreover have "layout_ok st ?G"
    using st(2,3) by (auto simp: layout_ok_def pinned_def no_objects_def idle_def telemetry_inv_def)
  moreover have "desc_ok ?G" by (simp add: desc_ok_def no_objects_def)
  ultimately have "heap_struct st ?G" using st(1) rt by (simp add: heap_struct_def no_objects_def)
  then have "heap_inv st ?G (dM no_objects) (dB no_objects)"
    by (simp add: heap_inv_def status_ok_def msgs_ok_def apart_def no_objects_def)
  moreover have "direct_ok st no_objects" by (simp add: direct_ok_def no_objects_def)
  moreover have "threads_ok st no_objects" using assms by (simp add: threads_ok_def no_objects_def set_up_def)
  ultimately show ?thesis using st(3) by (simp add: api_inv_def)
qed

lemma set_up_telemetry:
  assumes ok: "mmap_ok env" and s: "set_up st"
  shows "set_up (lz_telemetry_init env pe st)"
proof -
  let ?st = "lz_telemetry_init env pe st"
  have t: "telemetry_inv ?st" by (rule telemetry_init_inv(1) [OF ok]) (use s in \<open>simp add: set_up_def\<close>)
  have g: "g_numa_pools ?st = g_numa_pools st \<and> g_global_free_chunks ?st = g_global_free_chunks st \<and> g_pool_locks ?st = g_pool_locks st \<and>
    g_global_pool_lock ?st = g_global_pool_lock st \<and> g_rtree_root ?st = g_rtree_root st \<and> tls_tlh_ptr ?st = tls_tlh_ptr st \<and>
    g_tlh_key ?st = g_tlh_key st \<and> g_zombie_tlhs ?st = g_zombie_tlhs st \<and> g_zombie_lock ?st = g_zombie_lock st"
    by (rule telemetry_init_cases [of env pe st])
       (auto simp: sys_mmap_def zero_pages_def split: option.splits)
  then have "vmm_inv ?st (\<lambda>_. [], [])"
    using s by (simp add: set_up_def vmm_inv_def pool_inv_def locks_free_def idle_def)
  then show ?thesis using s t g by (simp add: set_up_def)
qed

lemma system_init_set_up:
  assumes ok: "mmap_ok env" and p: "pristine st"
  shows "set_up (lz_system_init env pe ent st)"
proof -
  let ?s = "lz_rtree_init (lz_vmm_init (lz_security_init ent st))"
  obtain k where k: "lz_security_init ent st = st\<lparr>g_lz_global_secret := k\<rparr>" using lz_security_init_frame by blast
  have v: "vmm_inv (lz_vmm_init (lz_security_init ent st)) (\<lambda>_. [], [])"
    by (rule vmm_inv_init) (use p in \<open>simp add: k pristine_def\<close>)
  have "vmm_inv ?s (\<lambda>_. [], [])" using v
    by (simp add: lz_rtree_init_def vmm_inv_def pool_inv_def locks_free_def idle_def)
  then have s: "set_up ?s"
    using p unfolding k
    by (simp add: set_up_def pristine_def lz_rtree_init_def lz_vmm_init_def lz_topology_init_def Let_def telemetry_inv_def word_less_nat_alt)
  have "set_up (telemetry_scan env pe es ?s)" for es
    by (induction es) (simp_all add: s set_up_telemetry [OF ok])
  then show ?thesis using s by (simp add: lz_system_init_def Let_def split: option.splits)
qed

lemma system_init_inv: "mmap_ok env \<Longrightarrow> pristine st \<Longrightarrow> api_inv (lz_system_init env pe ent st) no_objects"
  by (intro set_up_inv system_init_set_up)

lemma pristine_boot: "pristine boot_state"
  by (simp add: pristine_def boot_state_def)

end
