(* ===== verification/Api_Session.thy ===== *)
theory Api_Session
  imports Api_Start
begin

text \<open>
  The allocator as the program sees it. An abstract allocator is a finite set of blocks with their
  contents; every call of the library, made by any thread in any order, is a step of it.
\<close>

section \<open>Calls, and what they promise\<close>

type_synonym blocks = "addr \<rightharpoonup> u8 list"

text \<open>A call by thread \<open>t\<close> of the process; \<open>Write\<close> and \<open>Read\<close> access a byte of a block.\<close>

datatype call =
  Malloc nat u64
| Calloc nat u64 u64
| Realloc nat addr u64
| Memalign nat u64 u64
| Free nat addr
| Usable addr
| Write addr nat u8
| Read addr nat
| Collect nat
| Exit nat

datatype outcome = Ptr addr | Size u64 | Byte u8 | Done

fun exec :: "os_env \<Rightarrow> call \<Rightarrow> lz_state \<Rightarrow> (outcome \<times> lz_state) option" where
  "exec env (Malloc t n) st = map_option (\<lambda>(p, st). (Ptr p, st)) (lz_malloc env t n st)"
| "exec env (Calloc t k n) st = map_option (\<lambda>(p, st). (Ptr p, st)) (lz_calloc env t k n st)"
| "exec env (Realloc t p n) st = map_option (\<lambda>(p, st). (Ptr p, st)) (lz_realloc env t p n st)"
| "exec env (Memalign t a n) st = map_option (\<lambda>(p, st). (Ptr p, st)) (lz_memalign env t a n st)"
| "exec env (Free t p) st = map_option (Pair Done) (lz_free env t p st)"
| "exec env (Usable p) st = map_option (\<lambda>s. (Size s, st)) (lz_malloc_usable_size p st)"
| "exec env (Write p i b) st = (if valid st (p + of_nat i) then Some (Done, st\<lparr>mem := (mem st)(p + of_nat i := b)\<rparr>) else None)"
| "exec env (Read p i) st = (if valid st (p + of_nat i) then Some (Byte (mem st (p + of_nat i)), st) else None)"
| "exec env (Collect t) st = map_option (Pair Done) (lzmalloc_gc env t st)"
| "exec env (Exit t) st = map_option (Pair Done) (lz_tlh_destructor (g_tlh_key st t) st)"

text \<open>
  What a program may call: threads that have not exited, blocks that it owns, bytes inside them.
  Requests near the end of the address space are left out, where the sums of \<open>lz_malloc\<close> wrap.
\<close>

fun legal :: "call \<Rightarrow> blocks \<Rightarrow> nat set \<Rightarrow> bool" where
  "legal (Malloc t n) H X \<longleftrightarrow> t \<notin> X \<and> unat n < 2 ^ 62"
| "legal (Calloc t k n) H X \<longleftrightarrow> t \<notin> X \<and> (unat k * unat n < 2 ^ 62 \<or> 2 ^ 64 \<le> unat k * unat n)"
| "legal (Realloc t p n) H X \<longleftrightarrow> t \<notin> X \<and> unat n < 2 ^ 62 \<and> (p = 0 \<or> p \<in> dom H)"
| "legal (Memalign t a n) H X \<longleftrightarrow> t \<notin> X \<and> (is_power_of_two a \<longrightarrow> n \<noteq> 0 \<and> unat a + unat n < 2 ^ 61)"
| "legal (Free t p) H X \<longleftrightarrow> t \<notin> X \<and> (p = 0 \<or> p \<in> dom H)"
| "legal (Usable p) H X \<longleftrightarrow> p = 0 \<or> p \<in> dom H"
| "legal (Write p i b) H X \<longleftrightarrow> p \<in> dom H \<and> i < length (the (H p))"
| "legal (Read p i) H X \<longleftrightarrow> p \<in> dom H \<and> i < length (the (H p))"
| "legal (Collect t) H X \<longleftrightarrow> t \<notin> X"
| "legal (Exit t) H X \<longleftrightarrow> t \<notin> X"

fun exits :: "call \<Rightarrow> nat set \<Rightarrow> nat set" where
  "exits (Exit t) X = insert t X"
| "exits _ X = X"

text \<open>The only way not to return: the thread has no heap yet and the system has no memory for one.\<close>

fun starved :: "os_env \<Rightarrow> call \<Rightarrow> lz_state \<Rightarrow> bool" where
  "starved env (Malloc t n) st \<longleftrightarrow> no_heap env t st"
| "starved env (Calloc t k n) st \<longleftrightarrow> no_heap env t st"
| "starved env (Realloc t p n) st \<longleftrightarrow> no_heap env t st \<or> (\<exists>q st'. lz_malloc env t n st = Some (q, st') \<and> no_heap env t st')"
| "starved env (Memalign t a n) st \<longleftrightarrow> no_heap env t st"
| "starved env (Free t p) st \<longleftrightarrow> no_heap env t st"
| "starved env _ st \<longleftrightarrow> False"

text \<open>A new block of \<open>n\<close> bytes: not NULL, and apart from all blocks there are.\<close>

definition room :: "addr \<Rightarrow> nat \<Rightarrow> blocks \<Rightarrow> bool" where
  "room p n H \<longleftrightarrow> p \<noteq> 0 \<and> p \<notin> dom H \<and> unat p + n \<le> 2 ^ 47 \<and> (\<forall>q bs. H q = Some bs \<longrightarrow> bytes p n \<inter> bytes q (length bs) = {})"

definition fresh_block :: "addr \<Rightarrow> nat \<Rightarrow> blocks \<Rightarrow> blocks \<Rightarrow> bool" where
  "fresh_block p n H H' \<longleftrightarrow> (if p = 0 then H' = H else room p n H \<and> (\<exists>bs. length bs = n \<and> H' = H(p \<mapsto> bs)))"

text \<open>The contract: what a call may answer, and the blocks and contents afterwards.\<close>

fun spec :: "call \<Rightarrow> outcome \<Rightarrow> blocks \<Rightarrow> blocks \<Rightarrow> bool" where
  "spec (Malloc t n) (Ptr p) H H' \<longleftrightarrow> fresh_block p (unat n) H H'"
| "spec (Calloc t k n) (Ptr p) H H' \<longleftrightarrow>
     (if p = 0 then H' = H else room p (unat k * unat n) H \<and> H' = H(p \<mapsto> replicate (unat k * unat n) 0) \<and> unat k * unat n < 2 ^ 64)"
| "spec (Realloc t p n) (Ptr q) H H' \<longleftrightarrow>
     (if p = 0 then fresh_block q (unat n) H H'
      else if n = 0 then q = 0 \<and> H' = H(p := None)
      else if q = 0 then H' = H
      else \<exists>bs. length bs = unat n \<and> room q (unat n) (H(p := None)) \<and> H' = (H(p := None))(q \<mapsto> bs) \<and>
        (\<forall>i < min (length (the (H p))) (unat n). bs ! i = the (H p) ! i))"
| "spec (Memalign t a n) (Ptr p) H H' \<longleftrightarrow> fresh_block p (unat n) H H' \<and>
     (p \<noteq> 0 \<longrightarrow> is_power_of_two a \<and> (unat a \<le> 2 ^ 21 \<longrightarrow> unat a dvd unat p))"
| "spec (Free t p) Done H H' \<longleftrightarrow> H' = H(p := None)"
| "spec (Usable p) (Size s) H H' \<longleftrightarrow> H' = H \<and> (s = 0 \<or> length (the (H p)) \<le> unat s)"
| "spec (Write p i b) Done H H' \<longleftrightarrow> H' = H(p \<mapsto> (the (H p))[i := b])"
| "spec (Read p i) (Byte b) H H' \<longleftrightarrow> H' = H \<and> b = the (H p) ! i"
| "spec (Collect t) Done H H' \<longleftrightarrow> H' = H"
| "spec (Exit t) Done H H' \<longleftrightarrow> H' = H"
| "spec _ _ H H' \<longleftrightarrow> False"

text \<open>The blocks as the program knows them after a call: a new one holds what is in memory.\<close>

definition contents :: "lz_state \<Rightarrow> addr \<Rightarrow> nat \<Rightarrow> u8 list" where
  "contents st p n = map (\<lambda>i. mem st (p + of_nat i)) [0..<n]"

definition grant :: "addr \<Rightarrow> nat \<Rightarrow> lz_state \<Rightarrow> blocks \<Rightarrow> blocks" where
  "grant p n st H = (if p = 0 then H else H(p \<mapsto> contents st p n))"

fun book :: "call \<Rightarrow> outcome \<Rightarrow> lz_state \<Rightarrow> blocks \<Rightarrow> blocks" where
  "book (Malloc t n) (Ptr p) st H = grant p (unat n) st H"
| "book (Calloc t k n) (Ptr p) st H = grant p (unat k * unat n) st H"
| "book (Realloc t p n) (Ptr q) st H =
     (if p \<noteq> 0 \<and> (n = 0 \<or> q \<noteq> 0) then grant q (unat n) st (H(p := None)) else grant q (unat n) st H)"
| "book (Memalign t a n) (Ptr p) st H = grant p (unat n) st H"
| "book (Free t p) r st H = H(p := None)"
| "book (Write p i b) r st H = H(p \<mapsto> (the (H p))[i := b])"
| "book _ r st H = H"

section \<open>The simulation\<close>

definition tracks :: "lz_state \<Rightarrow> alloc_desc \<Rightarrow> blocks \<Rightarrow> bool" where
  "tracks st A H \<longleftrightarrow> (\<forall>p bs. H p = Some bs \<longrightarrow> (\<exists>n\<ge>length bs. object st A p n) \<and> contents st p (length bs) = bs)"

definition sim :: "lz_state \<Rightarrow> blocks \<Rightarrow> nat set \<Rightarrow> bool" where
  "sim st H X \<longleftrightarrow> (\<exists>A. api_inv st A \<and> dX A = X \<and> tracks st A H)"

lemma contents_simps [simp]: "length (contents st p n) = n" "i < n \<Longrightarrow> contents st p n ! i = mem st (p + of_nat i)"
  by (simp_all add: contents_def)

lemma byte_in:
  assumes "api_inv st A" "object st A p n" "i < n"
  shows "p + of_nat i \<in> bytes p n" "unat (p + of_nat i) = unat p + i"
  using unat_add_small [of p i] object_range(3) [OF assms(1,2)] assms(3) by (simp_all add: bytes_def)

lemma contents_same:
  assumes inv: "api_inv st A" and o: "object st A p n" and k: "k \<le> n" and m: "\<And>a. a \<in> bytes p n \<Longrightarrow> mem st' a = mem st a"
  shows "contents st' p k = contents st p k"
proof -
  have "mem st' (p + of_nat i) = mem st (p + of_nat i)" if "i < k" for i
    using m byte_in(1) [OF inv o, of i] that k by simp
  then show ?thesis unfolding contents_def by (intro map_cong) auto
qed

lemma tracksD:
  assumes "tracks st A H" "H p = Some bs"
  obtains n where "length bs \<le> n" "object st A p n" "contents st p (length bs) = bs"
  using assms unfolding tracks_def by blast

lemma tracks_step:
  assumes inv: "api_inv st A" and t: "tracks st A H" and u: "unchanged Y st A st' A'"
    and H': "\<And>p bs. H' p = Some bs \<Longrightarrow> H p = Some bs \<and> p \<notin> Y"
  shows "tracks st' A' H'"
  unfolding tracks_def
proof (intro allI impI)
  fix p bs assume "H' p = Some bs"
  then have p: "H p = Some bs" "p \<notin> Y" using H' by auto
  obtain n where n: "length bs \<le> n" "object st A p n" "contents st p (length bs) = bs" by (rule tracksD [OF t p(1)])
  have "contents st' p (length bs) = contents st p (length bs)"
    by (rule contents_same [OF inv n(2,1)]) (rule unchangedD(3) [OF u p(2) n(2)])
  then show "(\<exists>n\<ge>length bs. object st' A' p n) \<and> contents st' p (length bs) = bs"
    using n unchangedD(2) [OF u p(2)] by auto
qed

lemma tracks_add:
  assumes "tracks st A H" "object st A p m" "n \<le> m"
  shows "tracks st A (H(p \<mapsto> contents st p n))"
  using assms unfolding tracks_def by auto

lemma room_object:
  assumes inv: "api_inv st A" and t: "tracks st A H" and o: "object st A p m" and n: "n \<le> m" and p: "H p = None"
  shows "room p n H"
proof -
  have "bytes p n \<inter> bytes q (length bs) = {}" if q: "H q = Some bs" for q bs
  proof -
    obtain k where k: "length bs \<le> k" "object st A q k" by (rule tracksD [OF t q])
    have "p \<noteq> q" using p q by auto
    from objects_disjoint(1) [OF inv o k(2) this] show ?thesis using k(1) n by (auto simp: bytes_def)
  qed
  then show ?thesis using object_range [OF inv o] n p by (auto simp: room_def)
qed

text \<open>A call that allocates.\<close>

lemma sim_new:
  assumes inv: "api_inv st A" and t: "tracks st A H" and n: "new_object st A p m st' A'" and k: "k \<le> m"
  shows "p \<noteq> 0 \<Longrightarrow> room p k H" "sim st' (grant p k st' H) (dX A)"
proof -
  note N = new_objectD [OF n]
  have dx: "dX A' = dX A" using unchangedD(1) [OF N(3)] unchangedD(1) [OF N(5)] by blast
  have H: "H p = None" if "p \<noteq> 0"
    using N(7) [OF that] tracksD [OF t, of p] by (cases "H p") blast+
  have t': "tracks st' A' H"
  proof (cases "p = 0")
    case True
    show ?thesis by (rule tracks_step [OF inv t N(3) [OF True]]) simp
  next
    case False
    show ?thesis by (rule tracks_step [OF inv t N(5) [OF False]]) (use H [OF False] in auto)
  qed
  show "room p k H" if "p \<noteq> 0" by (rule room_object [OF N(1) t' N(6) [OF that] k H [OF that]])
  have "tracks st' A' (grant p k st' H)" using t' tracks_add [OF t' N(6) k] by (simp add: grant_def)
  then show "sim st' (grant p k st' H) (dX A)" using N(1) dx unfolding sim_def by blast
qed

lemma sim_fresh:
  assumes "api_inv st A" "tracks st A H" "new_object st A p m st' A'" "k \<le> m"
  shows "fresh_block p k H (grant p k st' H)"
  using sim_new(1) [OF assms] by (auto simp: fresh_block_def grant_def intro!: exI [of _ "contents st' p k"])

section \<open>Every call is a step of the abstract allocator\<close>

definition refines :: "os_env \<Rightarrow> call \<Rightarrow> lz_state \<Rightarrow> blocks \<Rightarrow> nat set \<Rightarrow> bool" where
  "refines env c st H X \<longleftrightarrow> returns_or (starved env c st) (exec env c st)
     (\<lambda>(r, st'). spec c r H (book c r st' H) \<and> sim st' (book c r st' H) (exits c X))"

lemma returns_or_map: "returns_or N m (\<lambda>x. Q (f x)) \<Longrightarrow> returns_or N (map_option f m) Q"
  by (cases m) (simp_all add: returns_or_def)

lemma refines_malloc:
  assumes ok: "mmap_ok env" and inv: "api_inv st A" and t: "tracks st A H" and l: "legal (Malloc u n) H (dX A)"
  shows "refines env (Malloc u n) st H (dX A)"
  unfolding refines_def exec.simps starved.simps
proof (rule returns_or_map, rule returns_or_mono [OF malloc_spec [OF ok inv]])
  show "u \<notin> dX A" "unat n < 2 ^ 62" using l by simp_all
  fix r assume "case r of (p, st') \<Rightarrow> \<exists>A'. new_object st A p (granted (unat n)) st' A' \<and>
    (1048576 < unat n \<longrightarrow> p \<noteq> 0 \<longrightarrow> (\<forall>a\<in>bytes p (unat n). mem st' a = 0))"
  then obtain p st' A' where r: "r = (p, st')" "new_object st A p (granted (unat n)) st' A'" by (cases r) auto
  show "case case r of (p, st) \<Rightarrow> (Ptr p, st) of (r, st') \<Rightarrow> spec (Malloc u n) r H (book (Malloc u n) r st' H) \<and>
      sim st' (book (Malloc u n) r st' H) (exits (Malloc u n) (dX A))"
    using sim_fresh [OF inv t r(2) granted_bounds(1)] sim_new(2) [OF inv t r(2) granted_bounds(1)] by (simp add: r(1))
qed

lemma refines_calloc:
  assumes ok: "mmap_ok env" and inv: "api_inv st A" and t: "tracks st A H" and l: "legal (Calloc u k n) H (dX A)"
  shows "refines env (Calloc u k n) st H (dX A)"
proof (cases "2 ^ 64 \<le> unat k * unat n")
  case True
  then have "2 ^ 64 \<le> calloc_bytes k n" by (auto simp: calloc_bytes_def)
  from calloc_run(1) [OF this] show ?thesis
    using inv t by (auto simp: refines_def returns_or_def grant_def sim_def)
next
  case False
  let ?m = "unat k * unat n"
  have m: "?m \<le> calloc_bytes k n" "calloc_bytes k n < 2 ^ 62" using l False by (auto simp: calloc_bytes_def)
  show ?thesis
    unfolding refines_def exec.simps starved.simps
  proof (rule returns_or_map, rule returns_or_mono [OF calloc_spec [OF ok inv _ m(2)]])
    show "u \<notin> dX A" using l by simp
    fix r assume "case r of (p, st') \<Rightarrow> \<exists>A'. new_object st A p (granted (calloc_bytes k n)) st' A' \<and>
      (p \<noteq> 0 \<longrightarrow> (\<forall>a\<in>bytes p (calloc_bytes k n). mem st' a = 0))"
    then obtain p st' A' where r: "r = (p, st')" "new_object st A p (granted (calloc_bytes k n)) st' A'"
      "p \<noteq> 0 \<Longrightarrow> \<forall>a\<in>bytes p (calloc_bytes k n). mem st' a = 0" by (cases r) auto
    have g: "?m \<le> granted (calloc_bytes k n)" using granted_bounds(1) [of "calloc_bytes k n"] m(1) by linarith
    note s = sim_new [OF inv t r(2) g]
    have "contents st' p ?m = replicate ?m 0" if p: "p \<noteq> 0"
    proof (rule nth_equalityI)
      fix i assume "i < length (contents st' p ?m)"
      then have i: "i < ?m" by simp
      note N = new_objectD [OF r(2)]
      have "p + of_nat i \<in> bytes p (calloc_bytes k n)"
        using byte_in [OF N(1) N(6) [OF p], of i] i m(1) g by (simp add: bytes_def)
      then show "contents st' p ?m ! i = replicate ?m 0 ! i" using r(3) [OF p] i by simp
    qed simp
    then show "case case r of (p, st) \<Rightarrow> (Ptr p, st) of (r, st') \<Rightarrow> spec (Calloc u k n) r H (book (Calloc u k n) r st' H) \<and>
        sim st' (book (Calloc u k n) r st' H) (exits (Calloc u k n) (dX A))"
      using s False by (simp add: r(1)) (simp add: grant_def)
  qed
qed

lemma refines_memalign:
  assumes ok: "mmap_ok env" and inv: "api_inv st A" and t: "tracks st A H" and l: "legal (Memalign u a n) H (dX A)"
  shows "refines env (Memalign u a n) st H (dX A)"
proof (cases "is_power_of_two a")
  case False
  then have "lz_memalign env u a n st = Some (0, st)" by (simp add: lz_memalign_def)
  then show ?thesis using inv t by (auto simp: refines_def returns_or_def grant_def sim_def fresh_block_def)
next
  case True
  have n: "0 < unat n" "unat a + unat n < 2 ^ 61" using l True by (auto simp: unat_gt_0)
  show ?thesis
    unfolding refines_def exec.simps starved.simps
  proof (rule returns_or_map, rule returns_or_mono [OF memalign_spec [OF ok inv _ True n]])
    show "u \<notin> dX A" using l by simp
    fix r assume "case r of (p, st') \<Rightarrow> \<exists>A' m. new_object st A p m st' A' \<and> unat n \<le> m \<and> (unat a \<le> 2097152 \<longrightarrow> unat a dvd unat p)"
    then obtain p st' A' m where r: "r = (p, st')" "new_object st A p m st' A'" "unat n \<le> m" "unat a \<le> 2097152 \<longrightarrow> unat a dvd unat p"
      by (cases r) auto
    show "case case r of (p, st) \<Rightarrow> (Ptr p, st) of (r, st') \<Rightarrow> spec (Memalign u a n) r H (book (Memalign u a n) r st' H) \<and>
        sim st' (book (Memalign u a n) r st' H) (exits (Memalign u a n) (dX A))"
      using sim_fresh [OF inv t r(2,3)] sim_new(2) [OF inv t r(2,3)] r(4) True by (simp add: r(1))
  qed
qed

lemma refines_free:
  assumes ok: "mmap_ok env" and inv: "api_inv st A" and t: "tracks st A H" and l: "legal (Free u p) H (dX A)"
  shows "refines env (Free u p) st H (dX A)"
proof (cases "p = 0")
  case True
  have "tracks st A (H(0 := None))" using t unfolding tracks_def by simp
  then show ?thesis using inv True by (auto simp: refines_def returns_or_def lz_free_def sim_def)
next
  case False
  then obtain bs where "H p = Some bs" using l by auto
  then obtain n where o: "object st A p n" by (rule tracksD [OF t])
  show ?thesis
    unfolding refines_def exec.simps starved.simps
  proof (rule returns_or_map, rule returns_or_mono [OF free_spec [OF ok inv _ o]])
    show "u \<notin> dX A" using l by simp
    fix st' assume "\<exists>A'. api_inv st' A' \<and> trace_ext st st' \<and> unchanged {p} st A st' A' \<and>
      (if indexed st p then \<forall>m. \<not> object st' A' p m else st' = st \<and> A' = A)"
    then obtain A' where a: "api_inv st' A'" "unchanged {p} st A st' A'" by blast
    have "tracks st' A' (H(p := None))" by (rule tracks_step [OF inv t a(2)]) (auto split: if_splits)
    then show "case (Done, st') of (r, st') \<Rightarrow> spec (Free u p) r H (book (Free u p) r st' H) \<and>
        sim st' (book (Free u p) r st' H) (exits (Free u p) (dX A))"
      using a(1) unchangedD(1) [OF a(2)] by (auto simp: sim_def)
  qed
qed

lemma refines_usable:
  assumes inv: "api_inv st A" and t: "tracks st A H" and l: "legal (Usable p) H (dX A)"
  shows "refines env (Usable p) st H (dX A)"
proof (cases "p = 0")
  case True
  then show ?thesis using inv t by (auto simp: refines_def returns_or_def lz_malloc_usable_size_def sim_def)
next
  case False
  then obtain bs where H: "H p = Some bs" using l by auto
  then obtain n where o: "length bs \<le> n" "object st A p n" by (rule tracksD [OF t])
  have "unat (of_nat n :: u64) = n" using object_range(3) [OF inv o(2)] by (simp add: unsigned_of_nat take_bit_nat_eq_self)
  then show ?thesis using inv t H o(1) usable_spec [OF inv o(2)] by (auto simp: refines_def returns_or_def sim_def)
qed

lemma refines_access:
  assumes inv: "api_inv st A" and t: "tracks st A H"
  shows "legal (Write p i b) H (dX A) \<Longrightarrow> refines env (Write p i b) st H (dX A)"
    "legal (Read p i) H (dX A) \<Longrightarrow> refines env (Read p i) st H (dX A)"
proof -
  have *: "\<exists>bs n. H p = Some bs \<and> i < length bs \<and> length bs \<le> n \<and> object st A p n \<and> contents st p (length bs) = bs"
    if "p \<in> dom H \<and> i < length (the (H p))"
    using that tracksD [OF t, of p] by (metis domD option.sel)
  show "refines env (Read p i) st H (dX A)" if l: "legal (Read p i) H (dX A)"
  proof -
    obtain bs n where bs: "H p = Some bs" "i < length bs" "length bs \<le> n" "object st A p n" "contents st p (length bs) = bs"
      using * [OF l [unfolded legal.simps]] by blast
    have "valid st (p + of_nat i)" using object_range(4) [OF inv bs(4) byte_in(1) [OF inv bs(4)]] bs(2,3) by simp
    moreover have "mem st (p + of_nat i) = bs ! i" using bs(2,5) contents_simps(2) by metis
    ultimately show ?thesis using inv t bs(1) by (auto simp: refines_def returns_or_def sim_def)
  qed
  show "refines env (Write p i b) st H (dX A)" if l: "legal (Write p i b) H (dX A)"
  proof -
    obtain bs n where bs: "H p = Some bs" "i < length bs" "length bs \<le> n" "object st A p n" "contents st p (length bs) = bs"
      using * [OF l [unfolded legal.simps]] by blast
    let ?a = "p + of_nat i"
    let ?st = "st\<lparr>mem := (mem st)(?a := b)\<rparr>"
    have a: "?a \<in> bytes p n" using byte_in(1) [OF inv bs(4)] bs(2,3) by simp
    have M: "((mem st)(?a := b)) x = mem st x" if "x \<notin> bytes p n" for x using that a by auto
    note w = api_write [where M = "(mem st)(?a := b)", OF inv bs(4) M]
    have c: "contents ?st p (length bs) = bs[i := b]"
    proof (rule nth_equalityI)
      fix j assume "j < length (contents ?st p (length bs))"
      then have j: "j < length bs" by simp
      have "p + of_nat j = ?a \<longleftrightarrow> j = i"
        using byte_in(2) [OF inv bs(4), of i] byte_in(2) [OF inv bs(4), of j] bs(2,3) j by auto
      moreover have "mem st (p + of_nat j) = bs ! j" using j bs(5) contents_simps(2) by metis
      ultimately show "contents ?st p (length bs) ! j = bs[i := b] ! j" using j by (simp add: nth_list_update)
    qed simp
    have "tracks ?st A (H(p := None))" by (rule tracks_step [OF inv t w(2)]) (auto split: if_splits)
    then have "tracks ?st A (H(p := None, p \<mapsto> contents ?st p (length bs)))"
      by (rule tracks_add) (use w(3) bs(3,4) in blast)+
    then have "sim ?st (H(p \<mapsto> bs[i := b])) (dX A)" unfolding c sim_def fun_upd_upd using w(1) by blast
    moreover have "valid st ?a" by (rule object_range(4) [OF inv bs(4) a])
    ultimately show ?thesis using bs(1) by (simp add: refines_def returns_or_def)
  qed
qed

lemma refines_collect:
  assumes ok: "mmap_ok env" and inv: "api_inv st A" and t: "tracks st A H" and l: "legal (Collect u) H (dX A)"
  shows "refines env (Collect u) st H (dX A)"
proof -
  obtain st' A' where g: "lzmalloc_gc env u st = Some st'" "api_inv st' A'" "unchanged {} st A st' A'"
    using gc_spec [OF ok inv l [unfolded legal.simps]] by blast
  have "tracks st' A' H" by (rule tracks_step [OF inv t g(3)]) simp
  then show ?thesis using g unchangedD(1) [OF g(3)] by (auto simp: refines_def returns_or_def sim_def)
qed

lemma refines_exit:
  assumes inv: "api_inv st A" and t: "tracks st A H" and l: "legal (Exit u) H (dX A)"
  shows "refines env (Exit u) st H (dX A)"
proof (cases "g_tlh_key st u = 0")
  case True
  let ?A = "A\<lparr>dX := insert u (dX A)\<rparr>"
  have "threads_ok st ?A" using api_invD(4) [OF inv] unfolding threads_ok_def by simp
  then have "api_inv st ?A" using api_invD [OF inv] by (simp add: api_inv_def direct_ok_def)
  moreover have "tracks st ?A H" using t by (simp add: tracks_def object_def mapped_object_def)
  ultimately have "sim st H (insert u (dX A))" unfolding sim_def by (intro exI [of _ ?A]) simp
  then show ?thesis using True by (simp add: refines_def returns_or_def lz_tlh_destructor_def)
next
  case False
  obtain st' A' where e: "lz_tlh_destructor (g_tlh_key st u) st = Some st'" "api_inv st' A'" "dX A' = insert u (dX A)"
    "\<And>p n. object st' A' p n \<longleftrightarrow> object st A p n" "\<And>p n a. object st A p n \<Longrightarrow> a \<in> bytes p n \<Longrightarrow> mem st' a = mem st a"
    using exit_spec [OF inv l [unfolded legal.simps] False] by blast
  have "tracks st' A' H"
    unfolding tracks_def
  proof (intro allI impI)
    fix p bs assume "H p = Some bs"
    then obtain n where n: "length bs \<le> n" "object st A p n" "contents st p (length bs) = bs" by (rule tracksD [OF t])
    have "contents st' p (length bs) = contents st p (length bs)" by (rule contents_same [OF inv n(2,1)]) (rule e(5) [OF n(2)])
    then show "(\<exists>n\<ge>length bs. object st' A' p n) \<and> contents st' p (length bs) = bs" using n e(4) by auto
  qed
  then show ?thesis using e(1-3) by (auto simp: refines_def returns_or_def sim_def)
qed

text \<open>Resizing: in place, refused, or a move.\<close>

lemma prefix_kept:
  assumes "contents st p (length bs) = bs" "\<And>i. i < n \<Longrightarrow> i < length bs \<Longrightarrow> mem st' (q + of_nat i) = mem st (p + of_nat i)"
  shows "\<forall>i < min (length bs) n. contents st' q n ! i = bs ! i"
proof (intro allI impI)
  fix i assume "i < min (length bs) n"
  then have i: "i < n" "i < length bs" by simp_all
  have "bs ! i = mem st (p + of_nat i)" using i(2) assms(1) contents_simps(2) [of i "length bs" st p] by simp
  then show "contents st' q n ! i = bs ! i" using assms(2) [OF i] i(1) by simp
qed

lemma refines_realloc_block:
  assumes ok: "mmap_ok env" and inv: "api_inv st A" and t: "tracks st A H" and l: "legal (Realloc u p n) H (dX A)"
    and p: "p \<noteq> 0" "n \<noteq> 0"
  shows "refines env (Realloc u p n) st H (dX A)"
proof -
  obtain bs where H: "H p = Some bs" using l p(1) by auto
  obtain m where o: "length bs \<le> m" "object st A p m" "contents st p (length bs) = bs" by (rule tracksD [OF t H])
  have none: "tracks st A (H(p := None))" by (rule tracks_step [OF inv t unchanged_refl]) (auto split: if_splits)
  note place = realloc_in_place [OF inv o(2) p(2), of env u]
  consider (lost) "\<not> indexed st p" | (fits) "indexed st p" "unat n \<le> m" | (move) "indexed st p" "m < unat n" by linarith
  then show ?thesis
  proof cases
    case lost
    show ?thesis unfolding refines_def using place(1) [OF lost] inv t p by (auto simp: returns_or_def grant_def sim_def)
  next
    case fits
    have s: "sim st ((H(p := None))(p \<mapsto> contents st p (unat n))) (dX A)"
      using inv tracks_add [OF none o(2) fits(2)] unfolding sim_def by blast
    have r: "room p (unat n) (H(p := None))" by (rule room_object [OF inv none o(2) fits(2)]) simp
    have "\<forall>i < min (length bs) (unat n). contents st p (unat n) ! i = bs ! i" by (rule prefix_kept [OF o(3)]) simp
    then have "spec (Realloc u p n) (Ptr p) H ((H(p := None))(p \<mapsto> contents st p (unat n)))"
      using p H r by (auto intro!: exI [of _ "contents st p (unat n)"])
    then show ?thesis unfolding refines_def using place(2) [OF fits] s p by (simp add: returns_or_def grant_def)
  next
    case move
    have n: "unat n < 2 ^ 62" using l by simp
    show ?thesis
      unfolding refines_def exec.simps starved.simps
    proof (rule returns_or_map, rule returns_or_mono [OF realloc_move [OF ok inv _ o(2) move n]])
      show "u \<notin> dX A" using l by simp
      fix r assume "case r of (q, st') \<Rightarrow> \<exists>A'. moved st A p m q (granted (unat n)) st' A'"
      then obtain q st' A' where r: "r = (q, st')" "moved st A p m q (granted (unat n)) st' A'" by (cases r) auto
      have inv': "api_inv st' A'" using r(2) by (simp add: moved_def)
      show "case case r of (p, st) \<Rightarrow> (Ptr p, st) of (r, st') \<Rightarrow> spec (Realloc u p n) r H (book (Realloc u p n) r st' H) \<and>
          sim st' (book (Realloc u p n) r st' H) (exits (Realloc u p n) (dX A))"
      proof (cases "q = 0")
        case True
        have uc: "unchanged {} st A st' A'" using r(2) True by (simp add: moved_def)
        have "tracks st' A' H" by (rule tracks_step [OF inv t uc]) simp
        then show ?thesis using True inv' unchangedD(1) [OF uc] p by (auto simp: r(1) grant_def sim_def)
      next
        case False
        have m: "unchanged {p, q} st A st' A'" "object st' A' q (granted (unat n))" "\<And>k. \<not> object st A q k"
          "\<And>j. j < m \<Longrightarrow> mem st' (q + of_nat j) = mem st (p + of_nat j)"
          using r(2) False by (auto simp: moved_def)
        have Hq: "H q = None" using m(3) tracksD [OF t, of q] by (cases "H q") blast+
        have t': "tracks st' A' (H(p := None))"
          by (rule tracks_step [OF inv t m(1)]) (use Hq in \<open>auto split: if_splits\<close>)
        have rm: "room q (unat n) (H(p := None))"
          by (rule room_object [OF inv' t' m(2) granted_bounds(1)]) (use Hq in simp)
        have "\<forall>i < min (length bs) (unat n). contents st' q (unat n) ! i = bs ! i"
          by (rule prefix_kept [OF o(3)]) (use m(4) o(1) in simp)
        then have sp: "spec (Realloc u p n) (Ptr q) H ((H(p := None))(q \<mapsto> contents st' q (unat n)))"
          using p False H rm by (auto intro!: exI [of _ "contents st' q (unat n)"])
        have "sim st' ((H(p := None))(q \<mapsto> contents st' q (unat n))) (dX A)"
          using inv' tracks_add [OF t' m(2) granted_bounds(1)] unchangedD(1) [OF m(1)] unfolding sim_def by blast
        then show ?thesis using sp False p by (simp add: r(1) grant_def)
      qed
    qed
  qed
qed

lemma refines_realloc:
  assumes ok: "mmap_ok env" and inv: "api_inv st A" and t: "tracks st A H" and l: "legal (Realloc u p n) H (dX A)"
  shows "refines env (Realloc u p n) st H (dX A)"
proof -
  consider "p = 0" | "p \<noteq> 0" "n = 0" | "p \<noteq> 0" "n \<noteq> 0" by blast
  then show ?thesis
  proof cases
    case 1
    have "refines env (Malloc u n) st H (dX A)" by (rule refines_malloc [OF ok inv t]) (use l in simp)
    then show ?thesis using 1 by (auto simp: refines_def returns_or_def lz_realloc_def split: option.splits)
  next
    case 2
    have "refines env (Free u p) st H (dX A)" by (rule refines_free [OF ok inv t]) (use l in simp)
    then show ?thesis using 2
      by (cases "lz_free env u p st") (simp_all add: refines_def returns_or_def lz_realloc_def grant_def)
  next
    case 3
    then show ?thesis by (rule refines_realloc_block [OF ok inv t l])
  qed
qed

lemma sim_refines:
  assumes ok: "mmap_ok env" and s: "sim st H X" and l: "legal c H X"
  shows "refines env c st H X"
proof -
  obtain A where A: "api_inv st A" "dX A = X" "tracks st A H" using s by (auto simp: sim_def)
  show ?thesis
    using l unfolding A(2) [symmetric]
    by (cases c; simp only:)
       (rule refines_malloc [OF ok A(1,3)] refines_calloc [OF ok A(1,3)] refines_realloc [OF ok A(1,3)] refines_memalign [OF ok A(1,3)]
         refines_free [OF ok A(1,3)] refines_usable [OF A(1,3)] refines_access [OF A(1,3)] refines_collect [OF ok A(1,3)]
         refines_exit [OF A(1,3)], assumption)+
qed

section \<open>Sessions\<close>

text \<open>
  The states a process can reach: it starts the library and makes legal calls, from any thread. The
  session knows the blocks the program owns, with their contents, and the threads that have exited.
\<close>

inductive session :: "os_env \<Rightarrow> lz_state \<Rightarrow> blocks \<Rightarrow> nat set \<Rightarrow> bool" for env where
  start: "pristine st \<Longrightarrow> session env (lz_system_init env pe ent st) Map.empty {}"
| step: "session env st H X \<Longrightarrow> legal c H X \<Longrightarrow> exec env c st = Some (r, st') \<Longrightarrow> session env st' (book c r st' H) (exits c X)"

lemma session_sim:
  assumes ok: "mmap_ok env" and s: "session env st H X"
  shows "sim st H X"
  using s
proof induction
  case (start st pe ent)
  show ?case using system_init_inv [OF ok start, of pe ent] by (auto simp: sim_def tracks_def no_objects_def)
next
  case (step st H X c r st')
  then show ?case using sim_refines [OF ok step.IH step.hyps(2)] by (simp add: refines_def returns_or_def)
qed

end
