(* ===== verification/Api_Example.thy ===== *)
theory Api_Example
  imports Api_Session
begin

text \<open>
  A process that starts the library and asks for one large block: the sessions on which the
  properties of the interface are instantiated.
\<close>

section \<open>Requests above 1 MB\<close>

lemma malloc_direct_run:
  assumes "1048576 < unat sz"
  shows "lz_malloc env t sz st = direct_alloc env (LZ_ALIGN_UP (128 + sz) LZ_HUGE_PAGE_SIZE) 128 sz st"
proof -
  have "sz \<noteq> 0" "\<not> sz \<le> LZ_MAX_SLAB_OBJ_SIZE" "\<not> sz \<le> 1048576" using assms by (auto simp: word_le_nat_alt)
  then show ?thesis by (auto simp: lz_malloc_def direct_alloc_def Let_def split: prod.splits)
qed

text \<open>One mapping serves the request: NULL is returned exactly when the system refuses it.\<close>

lemma malloc_direct_null:
  assumes ok: "mmap_ok env" and inv: "api_inv st A" and sz: "1048576 < unat sz" "unat sz < 2 ^ 62"
  shows "\<exists>p st'. lz_malloc env t sz st = Some (p, st') \<and>
    (p = 0 \<longleftrightarrow> os_mmap env (trace st) (LZ_ALIGN_UP (128 + sz) LZ_HUGE_PAGE_SIZE + LZ_HUGE_PAGE_SIZE) = None)"
proof -
  let ?n = "LZ_ALIGN_UP (128 + sz) LZ_HUGE_PAGE_SIZE"
  have b: "unat (128 :: u64) + unat sz + 2097151 < 2 ^ 63" using sz(2) by simp
  note tot = direct_total [OF b]
  obtain p0 st1 where h: "lz_sys_alloc_huge_aligned env ?n st = (p0, st1)" by fastforce
  note H = huge_aligned_spec [OF ok tot(1) h]
  obtain p st' where r: "direct_alloc env ?n 128 sz st = Some (p, st')"
    using direct_alloc_spec [OF ok inv tot(1,2), of sz 128] tot(3) sz by auto
  have "p = 0 \<longleftrightarrow> p0 = 0"
  proof (cases "p0 = 0")
    case True
    then show ?thesis using r h by (simp add: direct_alloc_def)
  next
    case False
    have "p = p0 + 128" using r h False by (auto simp: direct_alloc_def bind_eq_Some_conv)
    moreover have "unat (p0 + 128) = unat p0 + 128" using H(4) [OF False] tot(3) unat_add_small [of p0 128] by simp
    ultimately show ?thesis using False by auto
  qed
  then show ?thesis using r H(3) malloc_direct_run [OF sz(1)] by simp
qed

section \<open>The process\<close>

definition quiet_proc :: proc_env where
  "quiet_proc = \<lparr>pe_environ = None, pe_getpid = 1, pe_shm_open = (\<lambda>_. False), pe_ftruncate = False, pe_shm_content = (\<lambda>_ _. zero_stat)\<rparr>"

definition some_entropy :: entropy where
  "some_entropy = \<lparr>sys_getrandom = (\<lambda>_. (8, 0x123456789ABCDEF)), sys_open_urandom = -1, sys_read_urandom = (\<lambda>s. (0, s)),
     sys_time = 0, sys_getpid = 1, stack_addr = 0\<rparr>"

definition process :: lz_state where
  "process = lz_system_init bump_os quiet_proc some_entropy boot_state"

lemma process_session: "session bump_os process Map.empty {}"
  unfolding process_def by (rule session.start [OF pristine_boot])

lemma process_trace: "trace process = []" "tls_tlh_ptr process t = 0" "g_tlh_key process t = 0" "g_zombie_tlhs process = 0"
proof -
  have e: "process = lz_rtree_init (lz_vmm_init (lz_security_init some_entropy boot_state))"
    by (simp add: process_def lz_system_init_def quiet_proc_def Let_def)
  obtain k where k: "lz_security_init some_entropy boot_state = boot_state\<lparr>g_lz_global_secret := k\<rparr>" using lz_security_init_frame by blast
  show "trace process = []" "tls_tlh_ptr process t = 0" "g_tlh_key process t = 0" "g_zombie_tlhs process = 0"
    unfolding e k by (simp_all add: lz_rtree_init_def lz_vmm_init_def lz_topology_init_def Let_def) (simp_all add: boot_state_def)
qed

lemma process_no_heap: "\<not> no_heap bump_os t process"
  by (simp add: no_heap_def process_trace bump_os_def)

lemma process_block:
  "\<exists>p st. p \<noteq> 0 \<and> lz_malloc bump_os 0 2000000 process = Some (p, st) \<and> session bump_os st [p \<mapsto> contents st p 2000000] {}"
proof -
  obtain A where A: "api_inv process A" using session_sim [OF bump_os_ok process_session] by (auto simp: sim_def)
  have "os_mmap bump_os (trace process) (LZ_ALIGN_UP (128 + 2000000) LZ_HUGE_PAGE_SIZE + LZ_HUGE_PAGE_SIZE) \<noteq> None"
    by (simp add: process_trace bump_os_def LZ_ALIGN_UP_def)
  then obtain p st where m: "lz_malloc bump_os 0 2000000 process = Some (p, st)" "p \<noteq> 0"
    using malloc_direct_null [OF bump_os_ok A, of 2000000 0] by auto
  then have "exec bump_os (Malloc 0 2000000) process = Some (Ptr p, st)" by simp
  from session.step [OF process_session _ this] show ?thesis using m by (auto simp: grant_def)
qed

section \<open>A process with a thread\<close>

lemma ensure_tls_others:
  assumes "ensure_tls_init env t st = Some st'" "u \<noteq> t"
  shows "tls_tlh_ptr st' u = tls_tlh_ptr st u"
  using assms
  by (auto simp: ensure_tls_init_def lz_resurrect_zombie_def zombie_lock_def zombie_unlock_def get_tlh_def upd_tlh_def
      next_thread_id_def lz_tlh_init_def sys_mmap_def zero_pages_def Let_def bind_eq_Some_conv split: if_splits option.splits)

lemma small_malloc_tls:
  assumes ok: "mmap_ok env" and inv: "api_inv st A" and t: "t \<notin> dX A" and sz: "0 < sz" "sz \<le> LZ_MAX_SLAB_OBJ_SIZE" and n: "\<not> no_heap env t st"
  shows "\<exists>p st'. lz_malloc env t sz st = Some (p, st') \<and> tls_tlh_ptr st' t \<noteq> 0 \<and> (\<forall>u. u \<noteq> t \<longrightarrow> tls_tlh_ptr st' u = tls_tlh_ptr st u)"
proof -
  obtain st1 A1 where e: "ensure_tls_init env t st = Some st1" "api_inv st1 A1" "tls_tlh_ptr st1 t \<in> gheaps (dG A1)"
    using ensure_tls_spec [OF ok inv t] n by auto
  obtain p st' G' M' where h: "lz_tlh_alloc env (tls_tlh_ptr st1 t) sz st1 = Some (p, st')"
    "handed_out st1 (dG A1) (dM A1) (dB A1) st' G' M' (dB A1) (tls_tlh_ptr st1 t) p (class_bytes (unat (lz_size_to_class sz)))"
    using tlh_alloc_small [OF ok api_invD(1) [OF e(2)] e(3) sz] by blast
  have "outer_globals st1 st'" using h(2) client_stepD(1) unfolding handed_out_def by blast
  then have "tls_tlh_ptr st' = tls_tlh_ptr st1" by (simp add: outer_globals_def)
  moreover have "tls_tlh_ptr st1 t \<noteq> 0" using e(3) desc_okD(6) [OF heap_structD(5) [OF api_invD(5) [OF e(2)]]] by auto
  moreover have "lz_malloc env t sz st = Some (p, st')"
    using e(1) h(1) sz by (auto simp: lz_malloc_def Let_def)
  ultimately show ?thesis using ensure_tls_others [OF e(1)] by auto
qed

lemma process_thread:
  "\<exists>st H. session bump_os st H {} \<and> tls_tlh_ptr st 0 \<noteq> 0 \<and> tls_tlh_ptr st 1 = 0"
proof -
  obtain A where A: "api_inv process A" "dX A = {}" using session_sim [OF bump_os_ok process_session] by (auto simp: sim_def)
  obtain p st where m: "lz_malloc bump_os 0 100 process = Some (p, st)" "tls_tlh_ptr st 0 \<noteq> 0"
    "\<forall>u. u \<noteq> 0 \<longrightarrow> tls_tlh_ptr st u = tls_tlh_ptr process u"
    using small_malloc_tls [OF bump_os_ok A(1), of 0 100] A(2) process_no_heap by auto
  then have "exec bump_os (Malloc 0 100) process = Some (Ptr p, st)" by simp
  from session.step [OF process_session _ this] m(2,3) show ?thesis by (auto simp: process_trace)
qed

end
