(* ===== verification/Spec2Isabelle.thy ===== *)
theory Spec2Isabelle
  imports Posix_Hooks Api_Example
begin

text \<open>
  A verification development for lzmalloc, a drop-in replacement of \<open>malloc\<close> for Linux.

  \<^bold>\<open>The program.\<close> Memory comes from the system in 64 MB extents, which the virtual memory manager
  cuts into 2 MB chunks and caches per NUMA node. A chunk becomes a slab (objects of one size class,
  up to 32 KB), a span (runs of 4 KB pages, up to 1 MB) or goes back to a pool. Every thread has a
  heap with one bin of slabs per size class and a list of spans; a block freed by another thread
  travels to its heap in batches through a lock-free mailbox. Larger requests are mapped directly.
  A radix tree maps every 2 MB block to the header of the chunk or mapping it belongs to, which is
  how \<open>free\<close> finds out what a pointer is. Free lists are linked through the objects with masked
  pointers. An allocator on a static arena serves the calls made before the library is ready.

  \<^bold>\<open>Theories and sources\<close> (files under \<open>src/src\<close>).
  \<^item> \<open>LZ_Prelude\<close>: macros of \<open>internal/common.h\<close>, words as numbers.
  \<^item> \<open>Sizes\<close>: \<open>internal/sizes.h\<close>.
  \<^item> \<open>LZ_Machine\<close>: the structures of the headers, the state record, the system calls, memory.
  \<^item> \<open>Security\<close>: \<open>core/security.h\<close>, \<open>security.c\<close> and the checksum of \<open>core/chunk.h\<close>.
  \<^item> \<open>Rtree\<close>: \<open>core/rtree.h\<close>, \<open>rtree.c\<close>.
  \<^item> \<open>Vmm\<close>, \<open>Vmm_Spec\<close>: \<open>engines/vmm.c\<close> and \<open>internal/topology.c\<close>.
  \<^item> \<open>Bitmap\<close>, \<open>Engines\<close>: \<open>engines/span.c\<close>, \<open>slab.c\<close>.
  \<^item> \<open>Telemetry\<close>: \<open>internal/telemetry.c\<close> and the counters of \<open>tlh.c\<close>.
  \<^item> \<open>Tlh\<close>: \<open>tlh/tlh.c\<close>.
  \<^item> \<open>Lzmalloc\<close>, \<open>Direct\<close>: \<open>hooks/lzmalloc.c\<close>.
  \<^item> \<open>Posix_Hooks\<close>: \<open>hooks/posix_hooks.c\<close>.
  \<^item> \<open>Chains\<close>, \<open>Linked_Lists\<close>, \<open>Tlh_Bins\<close>, \<open>Slab_Objects\<close>, \<open>Heap_Inv\<close>, \<open>Heap_Blocks\<close>, \<open>Heap_Slabs\<close>,
    \<open>Heap_Chunks\<close>, \<open>Heap_Bins\<close>: the invariant of the allocator and how its parts change.
  \<^item> \<open>Heap_Release\<close>, \<open>Heap_Format\<close>, \<open>Heap_Spans\<close>, \<open>Heap_Messages\<close>, \<open>Heap_Mail\<close>, \<open>Heap_Alloc\<close>,
    \<open>Heap_Client\<close>, \<open>Heap_Runs\<close>: every operation of the slabs, spans and thread heaps keeps it.
  \<^item> \<open>Traces\<close>: the history of the system calls, by which a NULL is traced to a refused mapping.
  \<^item> \<open>Heap_Threads\<close>, \<open>Api_Inv\<close>, \<open>Api_Direct\<close>: the invariant with the threads and the direct mappings.
  \<^item> \<open>Api_Calls\<close>, \<open>Api_Memory\<close>, \<open>Api_Align\<close>, \<open>Api_Threads\<close>, \<open>Api_Start\<close>: what each function of
    \<open>hooks/lzmalloc.c\<close> does to the objects of the program, from \<open>lz_system_init\<close> to the end of a thread.
  \<^item> \<open>Api_Session\<close>: an abstract allocator of blocks with contents, and the simulation between it and the
    library for any sequence of calls from any threads. \<open>Api_Example\<close>: a concrete process.

  \<^bold>\<open>What the theorems show.\<close> The invariant of the whole allocator holds after \<open>lz_system_init\<close> and is kept
  by every function of \<open>hooks/lzmalloc.c\<close>. A \<^emph>\<open>session\<close> is any sequence of legal calls by any threads, writes
  to the blocks included; in every session each call answers as the abstract allocator does, blocks never
  overlap and keep their contents, NULL is returned only after the system refused memory, heaps are
  private to their threads and survive them. Below that, the chunk manager, the page search, the size
  classes, the index, the masking of pointers and the telemetry have their own contracts, and so do
  the page blocks of a span (\<open>Heap_Runs\<close>), the length of a direct mapping (\<open>Direct\<close>) and the telemetry
  slot of a thread (\<open>Heap_Threads\<close>).

  \<^bold>\<open>Limits of the contract.\<close> When the system refuses a leaf of the index, the code keeps the chunk without
  an entry: \<open>lz_free\<close> then ignores its blocks, \<open>lz_malloc_usable_size\<close> answers 0 and \<open>lz_realloc\<close> NULL. The
  contract allows these answers for any block. Requests of 2 to the 62 bytes and more are outside it,
  because the code adds to sizes without a check, and so is \<open>lz_memalign\<close> of size 0.

  \<^bold>\<open>How the code is modelled.\<close> One record holds the globals of the \<open>.c\<close> files and the memory. Memory
  is typed: bytes of payload, chunk headers, the metadata behind them (a tagged union), heaps, leaves
  and counters are separate maps from addresses, so a write through one view is not seen in another;
  that the structures do not overlap is part of the invariants. Pointers are 64-bit words; an access
  to a structure checks that its first byte is mapped, an access to a stored pointer checks its first
  and last byte, and copying or clearing checks every byte. A mapping is zeroed in all views, except the shared one of the telemetry, which shows what the
  shared object already holds. The system is a parameter that answers from the history of the calls; what the
  theorems use of it is \<open>mmap_ok\<close>. An operation returns an option: a fault, a spinlock that is held, a
  trap or a loop that does not end is \<open>None\<close>, so a theorem with \<open>Some\<close> says that the code returns.
  Loops are \<open>partial_function\<close> over the option type; no fuel is used. Operations run one after the
  other, each to completion; thread-local variables are indexed by the thread, and so are the values
  of the pthread key, whose creation in \<open>lz_system_init\<close> has no other effect.

  \<^bold>\<open>Not modelled.\<close> The logger (a submodule that is not in the repository; a fatal message is recorded
  as an event), memory orderings and interleavings inside an operation, the padding of structures,
  branch prediction hints, tests and benchmarks.
\<close>

text \<open>An arena of 4 MB, mapped when the process was loaded.\<close>

definition arena :: lz_state where
  "arena = boot_state\<lparr>trace := [Mmap 0x50000000 0x400000], g_base_heap := 0x50000000, g_base_offset := 0\<rparr>"

section \<open>Shared facts\<close>

lemma session_tracks:
  assumes "mmap_ok env" "session env st H X"
  obtains A where "api_inv st A" "dX A = X" "tracks st A H"
  using session_sim [OF assms] by (auto simp: sim_def)

lemma object_header:
  assumes inv: "api_inv st A" and o: "object st A p n" and c: "find_chunk p st = Some c" "c \<noteq> 0"
  shows "valid st c \<and> valid st (c + 64) \<and> ch_magic (hdrs st c) = LZ_CHUNK_MAGIC_V2 \<and>
    (ch_chunk_type (hdrs st c) = LZ_CHUNK_TYPE_SLAB \<and> (\<exists>r. metas st (c + 64) = MSlab r) \<or>
     ch_chunk_type (hdrs st c) = LZ_CHUNK_TYPE_SPAN \<and> (\<exists>r. metas st (c + 64) = MSpan r) \<or>
     ch_chunk_type (hdrs st c) = LZ_CHUNK_TYPE_DIRECT \<and> (\<exists>t n. metas st (c + 64) = MDirect t n))"
proof -
  note I = api_invD [OF inv]
  have i: "indexed st p" using c by (simp add: indexed_def)
  have v: "valid st c \<and> valid st (c + 64)" if "gown (dG A) c = Some u" for u
    using chunk_at_valid [OF struct_chunk [OF I(5) that]] meta_in_chunk(2) [OF struct_chunk [OF I(5) that]] by simp
  from o show ?thesis
  proof (cases rule: object_cases)
    case (live T)
    have cc: "c = chunk_of p" using find_live [OF inv live i] c(1) by simp
    have "block st (dG A) T p n" using live by (simp add: live_def)
    then have "block_at st (dG A) c T p n" using block_iff [OF I(5)] cc by simp
    then show ?thesis
    proof (cases rule: block_at_cases)
      case (slab k)
      then show ?thesis using heap_structD(6) [OF I(5) slab(1)] v [OF slab(1)] by (auto simp: slab_ok_def hdr_ok_def)
    next
      case span
      then show ?thesis using heap_structD(7) [OF I(5) span(1)] v [OF span(1)] by (auto simp: span_ok_def hdr_ok_def)
    qed
  next
    case (direct d t off)
    have cd: "c = d" using find_direct [OF inv direct i] c(1) by simp
    show ?thesis
      using direct_atD(7-9) [OF direct_okD(1) [OF I(3) direct(1)]] v direct_object(4) [OF I(3) direct(1)] unfolding cd by auto
  qed
qed

lemma align_up_self:
  assumes "k < 62" "unat s < 2 ^ 62"
  shows "unat s \<le> unat (LZ_ALIGN_UP s (2 ^ k))" "2 ^ k dvd unat (LZ_ALIGN_UP s (2 ^ k))" "unat (LZ_ALIGN_UP s (2 ^ k)) < unat s + 2 ^ k"
proof -
  show "unat s \<le> unat (LZ_ALIGN_UP s (2 ^ k))" "2 ^ k dvd unat (LZ_ALIGN_UP s (2 ^ k))" using align_up_bounds [OF assms] by auto
  have "(0::nat) < 2 ^ k" by simp
  then show "unat (LZ_ALIGN_UP s (2 ^ k)) < unat s + 2 ^ k" using align_up_bounds(3) [OF assms] by linarith
qed

section \<open>The allocator as the program sees it\<close>

text \<open>
  C1. The library refines an abstract allocator of blocks with contents. In whatever state a process
  has brought it to, by any calls from any threads, a legal call returns, unless the thread has no heap
  yet and the system has no memory for one. The answer and its effect are those of the contract: a new
  block is apart from all others, \<open>calloc\<close> gives zeros, \<open>realloc\<close> keeps the contents up to the smaller
  size, \<open>memalign\<close> honours alignments up to 2 MB, reading gives what was last written, and no call
  changes the contents of any other block, whichever thread allocated it, has exited or frees it.
\<close>

theorem session_refines:
  assumes "mmap_ok env" and "session env st H X" and "legal c H X"
  shows "case exec env c st of
      None \<Rightarrow> starved env c st
    | Some (r, st') \<Rightarrow> spec c r H (book c r st' H) \<and> session env st' (book c r st' H) (exits c X)"
  using sim_refines [OF assms(1) session_sim [OF assms(1,2)] assms(3)] session.step [OF assms(2,3)]
  by (auto simp: refines_def returns_or_def split: option.splits)

theorem session_refines_witness:
  "\<exists>r st. exec bump_os (Calloc 0 10 20) process = Some (r, st) \<and>
     spec (Calloc 0 10 20) r Map.empty (book (Calloc 0 10 20) r st Map.empty)"
  using session_refines [OF bump_os_ok process_session, of "Calloc 0 10 20"] process_no_heap [of 0]
  by (auto split: option.splits)

text \<open>
  C2. Memory safety. At any time of a session the blocks the program owns are not NULL, lie in mapped
  memory, hold the contents the program gave them, and no two of them overlap.
\<close>

theorem session_memory_safe:
  assumes "mmap_ok env" and "session env st H X" and "H p = Some bs"
  shows "p \<noteq> 0 \<and> (\<forall>a\<in>bytes p (length bs). valid st a) \<and> contents st p (length bs) = bs \<and>
    (\<forall>q cs. H q = Some cs \<longrightarrow> q \<noteq> p \<longrightarrow> bytes p (length bs) \<inter> bytes q (length cs) = {})"
proof -
  obtain A where A: "api_inv st A" "tracks st A H" by (rule session_tracks [OF assms(1,2)])
  obtain n where n: "length bs \<le> n" "object st A p n" "contents st p (length bs) = bs" by (rule tracksD [OF A(2) assms(3)])
  have "bytes p (length bs) \<inter> bytes q (length cs) = {}" if q: "H q = Some cs" "q \<noteq> p" for q cs
  proof -
    obtain m where m: "length cs \<le> m" "object st A q m" by (rule tracksD [OF A(2) q(1)])
    then show ?thesis using objects_disjoint(1) [OF A(1) n(2) m(2)] q(2) n(1) by (auto simp: bytes_def)
  qed
  moreover have "bytes p (length bs) \<subseteq> bytes p n" using n(1) by (auto simp: bytes_def)
  ultimately show ?thesis using object_range(1,4) [OF A(1) n(2)] n(3) by blast
qed

theorem session_memory_safe_witness:
  "\<exists>p st. lz_malloc bump_os 0 2000000 process = Some (p, st) \<and> p \<noteq> 0 \<and> (\<forall>a\<in>bytes p 2000000. valid st a)"
proof -
  obtain p st where m: "lz_malloc bump_os 0 2000000 process = Some (p, st)" "session bump_os st [p \<mapsto> contents st p 2000000] {}"
    using process_block by blast
  then show ?thesis using session_memory_safe [OF bump_os_ok m(2), of p] by auto
qed

text \<open>
  C3. NULL means that the system refused memory. A call of \<open>malloc\<close> by a thread that has a heap, or can
  get one, returns; if it returns NULL, the system refused a mapping during the call. A request above
  1 MB fails exactly when the system refuses the one mapping it needs.
\<close>

theorem malloc_live:
  assumes "mmap_ok env" and "session env st H X" and "t \<notin> X" and "unat sz < 2 ^ 62" and "\<not> no_heap env t st"
  shows "\<exists>p st'. lz_malloc env t sz st = Some (p, st') \<and> (p = 0 \<longrightarrow> refused st st') \<and>
    (1048576 < unat sz \<longrightarrow>
       (p = 0 \<longleftrightarrow> os_mmap env (trace st) (LZ_ALIGN_UP (128 + sz) LZ_HUGE_PAGE_SIZE + LZ_HUGE_PAGE_SIZE) = None))"
proof -
  obtain A where A: "api_inv st A" "dX A = X" by (rule session_tracks [OF assms(1,2)])
  obtain p st' A' where r: "lz_malloc env t sz st = Some (p, st')" "new_object st A p (granted (unat sz)) st' A'"
    using malloc_spec [OF assms(1) A(1) _ assms(4), of t] assms(3,5) A(2) by (auto simp: returns_or_def split: option.splits)
  then show ?thesis
    using new_objectD(4) [OF r(2)] malloc_direct_null [OF assms(1) A(1) _ assms(4), of t] by auto
qed

theorem malloc_live_witness:
  "\<exists>p st. lz_malloc bump_os 7 100 process = Some (p, st) \<and> (p = 0 \<longrightarrow> refused process st)"
  using malloc_live [OF bump_os_ok process_session, of 7 100] process_no_heap [of 7] by auto

text \<open>
  C4. Heaps are private: two running threads never share a heap, the heap of a running thread is not
  on the list of zombies, and the destructor of the thread will be called with that heap.
\<close>

theorem heaps_private:
  assumes "mmap_ok env" and "session env st H X" and "t \<notin> X" and "tls_tlh_ptr st t \<noteq> 0"
  shows "(\<forall>u. u \<notin> X \<longrightarrow> tls_tlh_ptr st u = tls_tlh_ptr st t \<longrightarrow> u = t) \<and> g_tlh_key st t = tls_tlh_ptr st t \<and>
    (\<exists>zs. chain (\<lambda>T. tl_next_zombie (tlhs st T)) (g_zombie_tlhs st) zs \<and> tls_tlh_ptr st t \<notin> set zs)"
proof -
  obtain A where A: "api_inv st A" "dX A = X" by (rule session_tracks [OF assms(1,2)])
  note T = threads_okD [OF api_invD(4) [OF A(1)], unfolded A(2)]
  show ?thesis using T(2) T(4-6) [OF assms(3)] assms(3,4) by (intro conjI exI [of _ "dZ A"]) (auto dest: sym)
qed

theorem heaps_private_witness:
  "\<exists>st H. session bump_os st H {} \<and> tls_tlh_ptr st 0 \<noteq> 0 \<and> tls_tlh_ptr st 0 \<noteq> tls_tlh_ptr st 1"
proof -
  obtain st H where s: "session bump_os st H {}" "tls_tlh_ptr st 0 \<noteq> 0" "tls_tlh_ptr st 1 = 0" using process_thread by blast
  have "tls_tlh_ptr st 0 \<noteq> tls_tlh_ptr st 1" using heaps_private [OF bump_os_ok s(1) _ s(2)] by auto
  then show ?thesis using s(1,2) by blast
qed

text \<open>
  C5. The heap of a thread that exits is not lost: the next thread that needs a heap gets exactly this
  one, with its slabs and spans, without a system call.
\<close>

theorem heap_adopted:
  assumes "mmap_ok env" and "session env st H X" and "t \<notin> X" and "u \<notin> X" and "u \<noteq> t"
    and "tls_tlh_ptr st t \<noteq> 0" and "tls_tlh_ptr st u = 0"
  shows "\<exists>st1 st2. lz_tlh_destructor (g_tlh_key st t) st = Some st1 \<and> ensure_tls_init env u st1 = Some st2 \<and>
    tls_tlh_ptr st2 u = tls_tlh_ptr st t \<and> trace st2 = trace st1"
proof -
  obtain A where A: "api_inv st A" "dX A = X" by (rule session_tracks [OF assms(1,2)])
  have k: "g_tlh_key st t = tls_tlh_ptr st t" using threads_okD(4) [OF api_invD(4) [OF A(1)]] assms(3) A(2) by simp
  obtain st1 A1 where e: "lz_tlh_destructor (g_tlh_key st t) st = Some st1" "api_inv st1 A1" "dZ A1 = g_tlh_key st t # dZ A"
    "tls_tlh_ptr st1 = tls_tlh_ptr st"
    using exit_spec [OF A(1), of t] assms(3,6) A(2) k by auto
  note T = threads_okD [OF api_invD(4) [OF e(2)]]
  have z: "g_zombie_tlhs st1 = g_tlh_key st t" "g_tlh_key st t \<noteq> 0" using T(2) e(3) assms(6) k by auto
  have v: "valid st1 (g_tlh_key st t)" by (rule stat_valid(1) [OF api_invD(5) [OF e(2)]]) (use T(3) e(3) in auto)
  from ensure_zombie_run [OF _ T(1) z v, of u env] show ?thesis
    using e(1,4) assms(7) k by (auto simp: give_heap_def)
qed

theorem heap_adopted_witness:
  "\<exists>st st1 st2. tls_tlh_ptr st 0 \<noteq> 0 \<and> lz_tlh_destructor (g_tlh_key st 0) st = Some st1 \<and>
     ensure_tls_init bump_os 1 st1 = Some st2 \<and> tls_tlh_ptr st2 1 = tls_tlh_ptr st 0"
proof -
  obtain st H where s: "session bump_os st H {}" "tls_tlh_ptr st 0 \<noteq> 0" "tls_tlh_ptr st 1 = 0" using process_thread by blast
  show ?thesis using heap_adopted [OF bump_os_ok s(1) _ _ _ s(2,3)] s(2) by auto
qed

text \<open>
  C6. A garbage collection returns and changes no block of the program. Afterwards the mailboxes of the
  calling thread and of every zombie are empty, and no node caches a chunk.
\<close>

theorem gc_collects:
  assumes "mmap_ok env" and "session env st H X" and "t \<notin> X"
    and "chain (\<lambda>T. tl_next_zombie (tlhs st T)) (g_zombie_tlhs st) zs"
  shows "\<exists>st'. lzmalloc_gc env t st = Some st' \<and> session env st' H X \<and>
    (\<forall>T. T \<in> set zs \<or> T = tls_tlh_ptr st t \<and> T \<noteq> 0 \<longrightarrow> tl_remote_free_head (tlhs st' T) = 0) \<and>
    (\<forall>n<LZ_MAX_NUMA_NODES. free_chunks (g_numa_pools st' n) = 0)"
proof -
  obtain A where A: "api_inv st A" "dX A = X" by (rule session_tracks [OF assms(1,2)])
  have zs: "zs = dZ A" by (rule chain_unique [OF assms(4) threads_okD(2) [OF api_invD(4) [OF A(1)]]])
  have t: "t \<notin> dX A" using assms(3) A(2) by simp
  obtain st' where g: "lzmalloc_gc env t st = Some st'" "\<forall>T\<in>set (dZ A) \<union> {tls_tlh_ptr st t} - {0}. tl_remote_free_head (tlhs st' T) = 0"
    "\<forall>n<LZ_MAX_NUMA_NODES. free_chunks (g_numa_pools st' n) = 0"
    using gc_spec [OF assms(1) A(1) t] by blast
  have "session env st' H X" using session.step [OF assms(2), of "Collect t" Done st'] assms(3) g(1) by simp
  moreover have "T \<noteq> 0" if "T \<in> set zs" for T using chain_not_null [OF assms(4) that] .
  ultimately show ?thesis using g zs by blast
qed

theorem gc_collects_witness:
  "\<exists>st H st'. session bump_os st H {} \<and> lzmalloc_gc bump_os 0 st = Some st' \<and> tls_tlh_ptr st 0 \<noteq> 0 \<and>
     tl_remote_free_head (tlhs st' (tls_tlh_ptr st 0)) = 0"
proof -
  obtain st H where s: "session bump_os st H {}" "tls_tlh_ptr st 0 \<noteq> 0" using process_thread by blast
  obtain A where "api_inv st A" by (rule session_tracks [OF bump_os_ok s(1)])
  from gc_collects [OF bump_os_ok s(1) _ threads_okD(2) [OF api_invD(4) [OF this]]] show ?thesis using s by blast
qed

text \<open>
  C7. Headers tell the truth. The index answers for every block of the program: it does not know the
  block (the system refused the leaf for it), or it gives a header, and then the header is mapped, carries the magic number, and its type says which variant of the metadata union is behind
  it, so every access of \<open>lz_free\<close> and \<open>lz_malloc_usable_size\<close> to the union is at its dynamic type.
\<close>

theorem header_type_sound:
  assumes "mmap_ok env" and "session env st H X" and "H p = Some bs"
  shows "\<exists>c. find_chunk p st = Some c \<and> (c \<noteq> 0 \<longrightarrow> valid st c \<and> valid st (c + 64) \<and> ch_magic (hdrs st c) = LZ_CHUNK_MAGIC_V2 \<and>
    (ch_chunk_type (hdrs st c) = LZ_CHUNK_TYPE_SLAB \<and> (\<exists>r. metas st (c + 64) = MSlab r) \<or>
     ch_chunk_type (hdrs st c) = LZ_CHUNK_TYPE_SPAN \<and> (\<exists>r. metas st (c + 64) = MSpan r) \<or>
     ch_chunk_type (hdrs st c) = LZ_CHUNK_TYPE_DIRECT \<and> (\<exists>t n. metas st (c + 64) = MDirect t n)))"
proof -
  obtain A where A: "api_inv st A" "tracks st A H" by (rule session_tracks [OF assms(1,2)])
  obtain n where o: "object st A p n" by (rule tracksD [OF A(2) assms(3)])
  obtain c where "find_chunk p st = Some c" using find_object [OF A(1) o] by blast
  then show ?thesis using object_header [OF A(1) o] by blast
qed

theorem header_type_sound_witness:
  "\<exists>p st c. lz_malloc bump_os 0 2000000 process = Some (p, st) \<and> p \<noteq> 0 \<and> find_chunk p st = Some c \<and>
     (c \<noteq> 0 \<longrightarrow> ch_magic (hdrs st c) = LZ_CHUNK_MAGIC_V2)"
proof -
  obtain p st where m: "p \<noteq> 0" "lz_malloc bump_os 0 2000000 process = Some (p, st)" "session bump_os st [p \<mapsto> contents st p 2000000] {}"
    using process_block by blast
  then show ?thesis using header_type_sound [OF bump_os_ok m(3), of p] by auto
qed

text \<open>
  C28. \<open>posix_memalign\<close> reports errors as its contract says: \<open>EINVAL\<close> exactly for a NULL result pointer or
  an alignment that is no power of two or no multiple of 8, and then nothing has happened; \<open>ENOMEM\<close>
  only after the system refused memory; in both cases the caller's pointer is untouched. On success it
  points to a new block of the size asked for, aligned as asked for up to 2 MB.
\<close>

theorem posix_memalign_errors:
  assumes "mmap_ok env" and "session env st H X" and "t \<notin> X" and "sz \<noteq> 0" and "unat al + unat sz < 2 ^ 61"
  shows "case lz_posix_memalign env t m al sz st of
      None \<Rightarrow> no_heap env t st
    | Some (e, m', st') \<Rightarrow>
        (e = EINVAL \<longleftrightarrow> m = None \<or> al mod 8 \<noteq> 0 \<or> \<not> is_power_of_two al) \<and> (e = EINVAL \<longrightarrow> st' = st) \<and>
        (e \<noteq> EOK \<longrightarrow> m' = m) \<and> (e = ENOMEM \<longrightarrow> refused st st') \<and>
        (e = EOK \<longrightarrow> (\<exists>p. m' = Some p \<and> room p (unat sz) H \<and> (unat al \<le> 2 ^ 21 \<longrightarrow> unat al dvd unat p)))"
proof (cases "m = None \<or> al mod 8 \<noteq> 0 \<or> \<not> is_power_of_two al")
  case True
  then show ?thesis by (auto simp: lz_posix_memalign_def split: option.splits)
next
  case False
  obtain A where A: "api_inv st A" "dX A = X" "tracks st A H" by (rule session_tracks [OF assms(1,2)])
  have s: "returns_or (no_heap env t st) (lz_memalign env t al sz st)
    (\<lambda>(p, st'). \<exists>A' n. new_object st A p n st' A' \<and> unat sz \<le> n \<and> (unat al \<le> 2097152 \<longrightarrow> unat al dvd unat p))"
    by (rule memalign_spec [OF assms(1) A(1)]) (use assms(3-5) A(2) False in \<open>auto simp: unat_gt_0\<close>)
  have run: "lz_posix_memalign env t m al sz st = do {
      (p, st) \<leftarrow> lz_memalign env t al sz st; if p = 0 then Some (ENOMEM, m, st) else Some (EOK, Some p, st) }"
    using False by (auto simp: lz_posix_memalign_def)
  show ?thesis
  proof (cases "lz_memalign env t al sz st")
    case None
    then show ?thesis using s by (simp add: run returns_or_def)
  next
    case (Some r)
    then obtain p st' A' n where r: "r = (p, st')" "new_object st A p n st' A'" "unat sz \<le> n" "unat al \<le> 2097152 \<longrightarrow> unat al dvd unat p"
      using s by (cases r) (auto simp: returns_or_def)
    show ?thesis using Some r(1,4) False new_objectD(4) [OF r(2)] sim_new(1) [OF A(1,3) r(2,3)] by (simp add: run)
  qed
qed

theorem posix_memalign_errors_witness:
  "lz_posix_memalign bump_os 0 (Some 5) 24 100 process = Some (EINVAL, Some 5, process) \<and>
   (\<exists>e m st. lz_posix_memalign bump_os 0 (Some 5) 64 100 process = Some (e, m, st) \<and> e \<noteq> EINVAL)"
proof -
  have p: "\<not> is_power_of_two 24" "is_power_of_two 64" by (simp_all add: is_power_of_two_def)
  have "\<exists>e m st. lz_posix_memalign bump_os 0 (Some 5) 24 100 process = Some (e, m, st) \<and> e = EINVAL \<and> m = Some 5 \<and> st = process"
    using posix_memalign_errors [OF bump_os_ok process_session, of 0 100 24 "Some 5"] p(1) process_no_heap [of 0]
    by (auto split: option.splits)
  moreover have "\<exists>e m st. lz_posix_memalign bump_os 0 (Some 5) 64 100 process = Some (e, m, st) \<and> e \<noteq> EINVAL"
    using posix_memalign_errors [OF bump_os_ok process_session, of 0 100 64 "Some 5"] p(2) process_no_heap [of 0]
    by (auto split: option.splits)
  ultimately show ?thesis by auto
qed

text \<open>
  C29. Sizes that do not fit are refused everywhere: when the product of the two arguments is 2 to the 64
  or more, \<open>calloc\<close>, its hook and \<open>reallocarray\<close> return NULL and change nothing; otherwise the hook and
  the library agree on the product, so no request is ever served with fewer bytes than asked for.
\<close>

theorem array_overflow:
  "if 2 ^ 64 \<le> unat num * unat sz
   then lz_calloc env t num sz st = Some (0, st) \<and> hook_calloc env t num sz st = Some (0, st) \<and>
     hook_reallocarray env t p num sz st = Some (0, st)
   else hook_reallocarray env t p num sz st = hook_realloc env t p (num * sz) st \<and> unat (num * sz) = unat num * unat sz"
proof (cases "2 ^ 64 \<le> unat num * unat sz")
  case True
  then have "2 ^ 64 \<le> calloc_bytes num sz" by (auto simp: calloc_bytes_def)
  then show ?thesis using True calloc_run(1) [of num sz env t st] by (simp add: hook_calloc_def hook_reallocarray_def mul_overflow_def)
next
  case False
  then show ?thesis by (simp add: hook_reallocarray_def mul_overflow_def unat_word_ariths)
qed

section \<open>The allocator of the start-up\<close>

text \<open>
  C30. The allocator that serves calls before the library is ready hands out blocks inside its arena,
  aligned as asked for and to at least 16 bytes, each beyond all earlier ones, with the exact size in
  front of the block. Nothing but that size word is written, and the hooks recognise the block.
\<close>

theorem base_malloc_correct:
  assumes "unat (g_base_heap st) + 4194304 \<le> 2 ^ 47" and "g_base_offset st \<le> LZ_BASE_HEAP_SIZE"
    and "is_power_of_two al" and "unat al \<le> 2 ^ 32" and "unat sz < 2 ^ 61"
    and "lz_base_malloc_aligned al sz st = Some (p, st')"
  shows "unat al dvd unat p \<and> 16 dvd unat p \<and>
    unat (g_base_heap st) + unat (g_base_offset st) + 16 \<le> unat p \<and>
    unat p + unat sz \<le> unat (g_base_heap st) + unat (g_base_offset st') \<and> g_base_offset st' \<le> LZ_BASE_HEAP_SIZE \<and>
    is_base_ptr st' p \<and> base_exact_size p st' = Some (if sz = 0 then 16 else sz) \<and>
    (\<forall>a. a \<notin> bytes (p - 16) 8 \<longrightarrow> mem st' a = mem st a)"
proof -
  let ?h = "g_base_heap st" and ?o = "g_base_offset st"
  obtain k where k: "k < 64" "al = 2 ^ k" "unat al = 2 ^ k" by (rule power_of_two [OF assms(3)])
  define j where "j = max k 4"
  have "(2::nat) ^ k \<le> 2 ^ 32" using assms(4) k(3) by simp
  then have k32: "k \<le> 32" by (rule power_le_imp_le_exp [rotated]) simp
  have j: "j < 62" "4 \<le> j" "k \<le> j" "(2::nat) ^ j \<le> 2 ^ 32" using k32 power_increasing [of j 32 "2 :: nat"] by (auto simp: j_def)
  have al: "(if al < 16 then 16 else al) = 2 ^ j"
  proof (cases "k < 4")
    case True
    then have "(2::nat) ^ k < 2 ^ 4" by (rule power_strict_increasing) simp
    then show ?thesis using True k(3) by (simp add: word_less_nat_alt j_def max_def)
  next
    case False
    then have "(2::nat) ^ 4 \<le> 2 ^ k" by (intro power_increasing) simp_all
    then show ?thesis using False k by (simp add: word_less_nat_alt j_def max_def)
  qed
  define s where "s = (if sz = 0 then 16 else sz)"
  have s: "unat sz \<le> unat s" "unat s < 2 ^ 62" using assms(5) by (auto simp: s_def)
  define q where "q = LZ_ALIGN_UP (?h + ?o + 16) (2 ^ j)"
  define m where "m = LZ_ALIGN_UP s (2 ^ 4)"
  have o: "unat ?o \<le> 4194304" using assms(2) by (simp add: word_le_nat_alt)
  have b: "unat (?h + ?o + 16) = unat ?h + unat ?o + 16" using assms(1) o by (simp add: unat_word_ariths)
  have q: "unat ?h + unat ?o + 16 \<le> unat q" "2 ^ j dvd unat q" "unat q < unat ?h + unat ?o + 16 + 2 ^ j"
    using align_up_self [OF j(1), of "?h + ?o + 16"] assms(1) o unfolding q_def b by simp_all
  have m: "unat s \<le> unat m" "unat m < unat s + 16" using align_up_self [of 4 s] s unfolding m_def by simp_all
  have qo: "unat (q - 16 - ?h) = unat q - 16 - unat ?h" using q(1) by (simp add: unat_sub word_le_nat_alt)
  have qh: "unat (q - ?h) = unat q - unat ?h" using q(1) by (simp add: unat_sub word_le_nat_alt)
  have "unat q - unat ?h + unat m < 2 ^ 64" using q(3) j(4) m s(2) o by simp
  then have "unat (q - ?h + m) = unat q - unat ?h + unat m" using qh by (simp add: unat_word_ariths)
  then have f: "unat (q - 16 - ?h + 16 + m) = unat q - unat ?h + unat m" by (simp add: algebra_simps)
  have e: "?h + (q - 16 - ?h) = q - 16" by simp
  let ?s1 = "st\<lparr>g_base_offset := q - 16 - ?h + 16 + m\<rparr>"
  have run: "lz_base_malloc_aligned al sz st = (if q - 16 - ?h + 16 + m > LZ_BASE_HEAP_SIZE then None
      else write_ptr (q - 16) s ?s1 \<bind> (\<lambda>st. Some (q, st)))"
    unfolding lz_base_malloc_aligned_def base_place_def Let_def al prod.case s_def [symmetric]
    by (simp add: q_def m_def ac_simps)
  from assms(6) have fit: "\<not> q - 16 - ?h + 16 + m > LZ_BASE_HEAP_SIZE" and p: "p = q" and st': "write_ptr (q - 16) s ?s1 = Some st'"
    unfolding run by (auto simp: bind_eq_Some_conv split: if_splits)
  have st2: "st' = ?s1\<lparr>mem := store64 (q - 16) s (mem st)\<rparr>" "valid ?s1 (q - 16)" "valid ?s1 (q - 16 + 7)"
    using st' by (auto simp: write_ptr_def split: if_splits)
  have fit': "unat q - unat ?h + unat m \<le> 4194304" using fit f by (simp add: word_le_nat_alt not_less)
  have u16: "unat (q - 16) = unat q - 16" using q(1) by (simp add: unat_sub word_le_nat_alt)
  have "unat al dvd unat p" unfolding p k(3) by (rule dvd_trans [OF le_imp_power_dvd [OF j(3)] q(2)])
  moreover have "16 dvd unat p" using dvd_trans [OF le_imp_power_dvd [OF j(2), of "2 :: nat"] q(2)] p by simp
  moreover have "unat p + unat sz \<le> unat ?h + unat (g_base_offset st')" using q(1) m(1) s(1) f by (simp add: st2(1) p)
  moreover have "g_base_offset st' \<le> LZ_BASE_HEAP_SIZE" using fit by (simp add: st2(1) not_less)
  moreover have "is_base_ptr st' p"
  proof -
    have "0 < unat m" using m(1) s_def unat_gt_0 [of sz] by (auto split: if_splits)
    then show ?thesis using q(1) fit' assms(1) by (simp add: is_base_ptr_def st2(1) p word_le_nat_alt word_less_nat_alt unat_word_ariths)
  qed
  moreover have "base_exact_size p st' = Some s"
    using st2 by (simp add: base_exact_size_def read_ptr_def p load64_store64 valid_def)
  moreover have "mem st' a = mem st a" if "a \<notin> bytes (p - 16) 8" for a
    using that within_iff [of "q - 16" 8 a] u16 q(1) fit' assms(1) by (auto simp: st2(1) store64_def p bytes_def)
  ultimately show ?thesis using q(1) p by (simp add: s_def)
qed

theorem base_malloc_correct_witness:
  "\<exists>p st. lz_base_malloc_aligned 64 100 arena = Some (p, st) \<and> 64 dvd unat p \<and> base_exact_size p st = Some 100 \<and> is_base_ptr st p"
proof -
  have run: "\<exists>st. lz_base_malloc_aligned 64 100 arena = Some (0x50000040, st)"
    by (simp add: lz_base_malloc_aligned_def base_place_def arena_def LZ_ALIGN_UP_def write_ptr_def valid_def within_def)
  then obtain st where "lz_base_malloc_aligned 64 100 arena = Some (0x50000040, st)" ..
  moreover have "is_power_of_two 64" by (simp add: is_power_of_two_def)
  ultimately show ?thesis using base_malloc_correct [of arena 64 100 "0x50000040" st] by (auto simp: arena_def)
qed

end
